(* ===== verification/Axon_Prelude.thy ===== *)
theory Axon_Prelude
  imports Main "HOL-Library.Word" "HOL-Library.Monad_Syntax"
begin

unbundle bit_operations_syntax

text \<open>
  Shared vocabulary of the development: the C types of the code, checked access to
  arrays, the counting loop, XOR of byte strings and the generic invariant argument.

  Conventions used in every theory.
  \<^item> \<open>uint8_t\<close>, \<open>uint16_t\<close>, \<open>uint32_t\<close> and \<open>uint64_t\<close> are words of that width;
    \<open>size_t\<close> is \<open>nat\<close>, with \<open>size_add\<close> and \<open>size_sub\<close> where it could wrap around.
  \<^item> A pointer that the code tests against NULL is an \<open>option\<close> (\<open>'a ptr\<close>), None for NULL.
  \<^item> An array is the list of its elements. A result of type \<open>'a option\<close> is None when the
    C function would read or write outside an array (undefined behaviour) and
    \<open>Some r\<close> when it returns.
  \<^item> An \<open>int\<close> status is 0 for success and -1 for failure, as in the code.
\<close>

section \<open>Types\<close>

type_synonym byte = "8 word"
type_synonym u16 = "16 word"
type_synonym u32 = "32 word"
type_synonym u64 = "64 word"
type_synonym u128 = "128 word"
type_synonym 'a ptr = "'a option"

abbreviation NULL :: "'a ptr" where
  "NULL \<equiv> None"

named_theorems access_simps \<open>evaluation of checked array accesses\<close>
named_theorems length_simps \<open>lengths of the byte strings the model builds\<close>

section \<open>The width of \<open>size_t\<close>\<close>

definition size_add :: "nat \<Rightarrow> nat \<Rightarrow> nat" where
  "size_add a b = (a + b) mod 2 ^ 64"

definition size_sub :: "nat \<Rightarrow> nat \<Rightarrow> nat" where
  "size_sub a b = nat ((int a - int b) mod 2 ^ 64)"

lemma size_add_id [simp]: "a + b < 2 ^ 64 \<Longrightarrow> size_add a b = a + b"
  by (simp add: size_add_def)

lemma size_sub_id [simp]: "b \<le> a \<Longrightarrow> a < 2 ^ 64 \<Longrightarrow> size_sub a b = a - b"
  by (simp add: size_sub_def flip: of_nat_diff)

lemma size_bound:
  fixes a b :: nat
  assumes "a \<le> b" "b < 2 ^ 63"
  shows "a < 2 ^ 64" "a + 7 < 2 ^ 64"
proof -
  have "(2 :: nat) ^ 63 + 7 < 2 ^ 64" by simp
  with assms show "a < 2 ^ 64" "a + 7 < 2 ^ 64" by linarith+
qed

section \<open>Checked array access\<close>

definition rd :: "'a list \<Rightarrow> nat \<Rightarrow> 'a option" where
  "rd xs i = (if i < length xs then Some (xs ! i) else None)"

definition wr :: "'a list \<Rightarrow> nat \<Rightarrow> 'a \<Rightarrow> 'a list option" where
  "wr xs i v = (if i < length xs then Some (xs[i := v]) else None)"

text \<open>The source and the destination of a \<open>memcpy\<close> at an offset.\<close>

definition rd_bytes :: "'a list \<Rightarrow> nat \<Rightarrow> nat \<Rightarrow> 'a list option" where
  "rd_bytes xs off n = (if off + n \<le> length xs then Some (take n (drop off xs)) else None)"

definition wr_bytes :: "'a list \<Rightarrow> nat \<Rightarrow> 'a list \<Rightarrow> 'a list option" where
  "wr_bytes xs off ys =
     (if off + length ys \<le> length xs
      then Some (take off xs @ ys @ drop (off + length ys) xs) else None)"

lemma rd_in [access_simps]: "i < length xs \<Longrightarrow> rd xs i = Some (xs ! i)"
  by (simp add: rd_def)

lemma rd_out [access_simps]: "length xs \<le> i \<Longrightarrow> rd xs i = None"
  by (simp add: rd_def)

lemma wr_in [access_simps]: "i < length xs \<Longrightarrow> wr xs i v = Some (xs[i := v])"
  by (simp add: wr_def)

lemma wr_out [access_simps]: "length xs \<le> i \<Longrightarrow> wr xs i v = None"
  by (simp add: wr_def)

lemma rd_bytes_in [access_simps]:
  "off + n \<le> length xs \<Longrightarrow> rd_bytes xs off n = Some (take n (drop off xs))"
  by (simp add: rd_bytes_def)

lemma rd_bytes_out [access_simps]: "length xs < off + n \<Longrightarrow> rd_bytes xs off n = None"
  by (simp add: rd_bytes_def)

lemma wr_bytes_in [access_simps]:
  "off + length ys \<le> length xs
    \<Longrightarrow> wr_bytes xs off ys = Some (take off xs @ ys @ drop (off + length ys) xs)"
  by (simp add: wr_bytes_def)

lemma wr_bytes_out [access_simps]:
  "length xs < off + length ys \<Longrightarrow> wr_bytes xs off ys = None"
  by (simp add: wr_bytes_def)

lemma rd_Some_iff: "rd xs i = Some v \<longleftrightarrow> i < length xs \<and> v = xs ! i"
  by (auto simp: rd_def)

lemma rd_bytes_length: "rd_bytes xs i n = Some ys \<Longrightarrow> length ys = n"
  by (auto simp: rd_bytes_def split: if_splits)

lemma wr_bytes_length: "wr_bytes xs off ys = Some zs \<Longrightarrow> length zs = length xs"
  by (auto simp: wr_bytes_def split: if_splits)

lemma wr_bytes_after:
  "length xs = off \<Longrightarrow> length ys \<le> length zs
    \<Longrightarrow> wr_bytes (xs @ zs) off ys = Some (xs @ ys @ drop (length ys) zs)"
  by (auto simp: wr_bytes_def)

lemma wr_bytes_prefix:
  assumes "length ms + length ys \<le> length xs"
  shows "wr_bytes (ms @ drop (length ms) xs) (length ms) ys
           = Some ((ms @ ys) @ drop (length (ms @ ys)) xs)"
  using assms by (simp add: wr_bytes_def add.commute)

section \<open>The counting loop\<close>

text \<open>\<open>for (i = lo; i < n; i++) body\<close>, where the body may be undefined.\<close>

function for_upto :: "nat \<Rightarrow> nat \<Rightarrow> (nat \<Rightarrow> 's \<Rightarrow> 's option) \<Rightarrow> 's \<Rightarrow> 's option" where
  "for_upto i n body s =
     (if i < n then do { s' \<leftarrow> body i s; for_upto (Suc i) n body s' } else Some s)"
  by pat_completeness auto
termination
  by (relation "measure (\<lambda>(i, n, body, s). n - i)") auto

declare for_upto.simps [simp del]

lemma for_upto_stop [simp]: "n \<le> i \<Longrightarrow> for_upto i n body s = Some s"
  by (subst for_upto.simps) simp

lemma for_upto_step:
  "i < n \<Longrightarrow> for_upto i n body s = Option.bind (body i s) (for_upto (Suc i) n body)"
  by (subst for_upto.simps) simp

lemma for_upto_rule:
  assumes "P i s" and "i \<le> n"
    and "\<And>j t. i \<le> j \<Longrightarrow> j < n \<Longrightarrow> P j t \<Longrightarrow> \<exists>t'. body j t = Some t' \<and> P (Suc j) t'"
  shows "\<exists>s'. for_upto i n body s = Some s' \<and> P n s'"
  using assms
proof (induction i n body s rule: for_upto.induct)
  case (1 i n body s)
  show ?case
  proof (cases "i < n")
    case True
    with "1.prems" obtain s' where s': "body i s = Some s'" "P (Suc i) s'"
      by blast
    have "\<exists>t. for_upto (Suc i) n body s' = Some t \<and> P n t"
      by (rule "1.IH" [OF True]) (use True s' "1.prems" in auto)
    with True s' show ?thesis
      by (simp add: for_upto_step)
  next
    case False
    with "1.prems" show ?thesis by simp
  qed
qed

lemma for_upto_cong:
  "(\<And>j t. i \<le> j \<Longrightarrow> j < n \<Longrightarrow> body j t = body' j t) \<Longrightarrow> for_upto i n body s = for_upto i n body' s"
proof (induction i n body s rule: for_upto.induct)
  case (1 i n body s)
  show ?case
  proof (cases "i < n")
    case True
    with 1 show ?thesis by (cases "body i s") (simp_all add: for_upto_step)
  qed simp
qed

lemma for_upto_split:
  "i \<le> k \<Longrightarrow> k \<le> n \<Longrightarrow> for_upto i n body s = Option.bind (for_upto i k body s) (for_upto k n body)"
proof (induction i k body s rule: for_upto.induct)
  case (1 i k body s)
  show ?case
  proof (cases "i < k")
    case True
    with 1 show ?thesis by (cases "body i s") (simp_all add: for_upto_step)
  next
    case False
    with "1.prems" show ?thesis by simp
  qed
qed

text \<open>A loop that writes cell \<open>i\<close> of an array from data it does not change is a block write.\<close>

lemma for_upto_fill:
  assumes "n \<le> length out" and "\<And>i s. i < n \<Longrightarrow> length s = length out \<Longrightarrow> drop i s = drop i out
             \<Longrightarrow> body i s = wr s i (f i)"
  shows "for_upto 0 n body out = Some (map f [0..<n] @ drop n out)"
proof -
  let ?P = "\<lambda>i s. s = map f [0..<i] @ drop i out"
  have "\<exists>s'. for_upto 0 n body out = Some s' \<and> ?P n s'"
  proof (rule for_upto_rule)
    fix j t assume j: "j < n" and t: "t = map f [0..<j] @ drop j out"
    have "wr t j (f j) = Some (map f [0..<Suc j] @ drop (Suc j) out)"
      using j assms(1) t
      by (simp add: wr_def list_update_append Cons_nth_drop_Suc [symmetric])
    moreover have "body j t = wr t j (f j)"
      using assms j t by simp
    ultimately show "\<exists>t'. body j t = Some t' \<and> ?P (Suc j) t'"
      by simp
  qed simp_all
  then show ?thesis by simp
qed

section \<open>XOR of byte strings\<close>

definition xor_bytes :: "byte list \<Rightarrow> byte list \<Rightarrow> byte list" where
  "xor_bytes xs ys = map2 (XOR) xs ys"

lemma length_xor_bytes [simp, length_simps]:
  "length (xor_bytes xs ys) = min (length xs) (length ys)"
  by (simp add: xor_bytes_def)

lemma nth_xor_bytes [simp]:
  "i < length xs \<Longrightarrow> i < length ys \<Longrightarrow> xor_bytes xs ys ! i = xs ! i XOR ys ! i"
  by (simp add: xor_bytes_def)

lemma xor_bytes_Nil [simp]: "xor_bytes [] ys = []" "xor_bytes xs [] = []"
  by (simp_all add: xor_bytes_def)

lemma xor_bytes_Cons [simp]: "xor_bytes (x # xs) (y # ys) = (x XOR y) # xor_bytes xs ys"
  by (simp add: xor_bytes_def)

lemma xor_bytes_commute: "xor_bytes xs ys = xor_bytes ys xs"
  by (induction xs ys rule: list_induct2') (auto simp: xor.commute)

lemma xor_bytes_assoc: "xor_bytes (xor_bytes xs ys) zs = xor_bytes xs (xor_bytes ys zs)"
  by (rule nth_equalityI) (auto simp: xor.assoc)

lemma xor_bytes_left_commute: "xor_bytes xs (xor_bytes ys zs) = xor_bytes ys (xor_bytes xs zs)"
  by (metis xor_bytes_assoc xor_bytes_commute)

lemma xor_bytes_cancel [simp]:
  "length xs \<le> length ys \<Longrightarrow> xor_bytes (xor_bytes xs ys) ys = xs"
  by (rule nth_equalityI) (auto simp: xor.assoc)

lemma xor_bytes_cancel_left [simp]:
  "length ys \<le> length xs \<Longrightarrow> xor_bytes xs (xor_bytes xs ys) = ys"
  by (rule nth_equalityI) (auto simp flip: xor.assoc)

lemma xor_bytes_inj:
  assumes "length xs = length ks" "length ys = length ks"
  shows "xor_bytes xs ks = xor_bytes ys ks \<longleftrightarrow> xs = ys"
  by (metis assms order_refl xor_bytes_cancel)

lemma xor_bytes_append:
  "length xs = length us
    \<Longrightarrow> xor_bytes (xs @ ys) (us @ vs) = xor_bytes xs us @ xor_bytes ys vs"
  by (simp add: xor_bytes_def)

lemma xor_bytes_zero [simp]:
  "length xs \<le> n \<Longrightarrow> xor_bytes xs (replicate n 0) = xs"
  by (rule nth_equalityI) auto

lemma take_xor_bytes: "take n (xor_bytes xs ys) = xor_bytes (take n xs) (take n ys)"
  by (simp add: xor_bytes_def take_map take_zip)

lemma drop_xor_bytes: "drop n (xor_bytes xs ys) = xor_bytes (drop n xs) (drop n ys)"
  by (simp add: xor_bytes_def drop_map drop_zip)

lemma map_xor_upt:
  "n \<le> length xs \<Longrightarrow> n \<le> length ys
    \<Longrightarrow> map (\<lambda>i. xs ! i XOR ys ! i) [0..<n] = xor_bytes (take n xs) (take n ys)"
  by (rule nth_equalityI) auto

section \<open>Big-endian numbers\<close>

text \<open>\<open>(b[0] << 8) | b[1]\<close> stored in a \<open>uint16_t\<close>, and the four-byte form.\<close>

definition be16 :: "byte \<Rightarrow> byte \<Rightarrow> u16" where
  "be16 a b = push_bit 8 (ucast a) OR ucast b"

definition be32 :: "byte \<Rightarrow> byte \<Rightarrow> byte \<Rightarrow> byte \<Rightarrow> u32" where
  "be32 a b c d =
     push_bit 24 (ucast a) OR push_bit 16 (ucast b) OR push_bit 8 (ucast c) OR ucast d"

lemma push_or_byte: "push_bit 8 l OR ucast b = l * 256 + ucast b" for l :: u32 and b :: byte
proof -
  have "push_bit 8 l AND ucast b = 0"
    by (rule bit_word_eqI) (auto simp: bit_simps dest: bit_imp_le_length)
  then have "push_bit 8 l OR ucast b = push_bit 8 l + ucast b"
    by (simp add: disjunctive_add_eq_or)
  then show ?thesis by (simp add: push_bit_eq_mult)
qed

text \<open>\<open>(v >> n) & 0xFF\<close> stored in a \<open>uint8_t\<close>.\<close>

definition byte_at :: "nat \<Rightarrow> 'a::len word \<Rightarrow> byte" where
  "byte_at n v = ucast (drop_bit n v AND 0xFF)"

lemma bit_byte_at: "bit (byte_at n v) i \<longleftrightarrow> i < 8 \<and> bit v (n + i)"
proof -
  have "bit (0xFF :: 'a word) i \<longleftrightarrow> i < 8 \<and> i < LENGTH('a)"
  proof -
    have "(0xFF :: 'a word) = mask 8" by (simp add: mask_eq_exp_minus_1)
    then show ?thesis by (simp only: bit_mask_iff) auto
  qed
  then show ?thesis
    by (auto simp: byte_at_def bit_simps bit_imp_le_length
          dest: bit_imp_le_length)
qed

lemma bit_push_byte:
  "bit (push_bit k (ucast (byte_at k v)) :: 'a::len word) i \<longleftrightarrow> k \<le> i \<and> i < k + 8 \<and> bit (v :: 'a word) i"
  by (auto simp: bit_push_bit_iff bit_ucast_iff bit_byte_at
        dest: bit_imp_le_length less_imp_diff_less)

lemma bit_low_byte:
  "bit (ucast (byte_at 0 v) :: 'a::len word) i \<longleftrightarrow> i < 8 \<and> bit (v :: 'a word) i"
  by (auto simp: bit_ucast_iff bit_byte_at bit_imp_le_length)

lemma word_or_zero_iff: "(x :: 'a::len word) OR y = 0 \<longleftrightarrow> x = 0 \<and> y = 0"
  by (auto simp: bit_eq_iff bit_or_iff)

lemma word_xor_zero_iff: "(x :: 'a::len word) XOR y = 0 \<longleftrightarrow> x = y"
  by (metis xor.right_neutral xor.left_neutral xor.assoc xor_self_eq)

lemma bit_div_256: "bit (n div 256 :: nat) j \<longleftrightarrow> bit n (j + 8)"
  using bit_drop_bit_eq [of 8 n] by (simp add: drop_bit_eq_div add.commute)

lemma be16_of_nat: "be16 (of_nat (n div 256)) (of_nat n) = of_nat n"
proof (rule bit_word_eqI)
  fix i assume "i < LENGTH(16)"
  then show "bit (be16 (of_nat (n div 256)) (of_nat n)) i \<longleftrightarrow> bit (of_nat n :: u16) i"
    by (auto simp: be16_def bit_or_iff bit_push_bit_iff bit_ucast_iff bit_of_nat_iff bit_div_256)
qed

lemma unat_be16_of_nat: "n < 65536 \<Longrightarrow> unat (be16 (of_nat (n div 256)) (of_nat n)) = n"
  by (simp add: be16_of_nat unat_of_nat take_bit_eq_mod)

lemma be16_bytes: "be16 (byte_at 8 s) (byte_at 0 s) = s"
  by (rule bit_word_eqI) (auto simp: be16_def bit_or_iff bit_push_byte bit_low_byte)

end
