(* ===== verification/Axon_Bytes.thy ===== *)
theory Axon_Bytes
  imports Axon_Prelude
begin

text \<open>
  The byte helpers of \<open>utils/source/bytes.c\<close>: big-endian conversion of 16, 32 and 64-bit
  integers, XOR, comparison, reversal and clearing of buffers. A buffer argument is a
  pointer (None for NULL) to the list of its bytes; a length argument that exceeds a buffer
  makes the result None.

  \<open>bytes[0] << 24\<close> on a promoted \<open>int\<close> is taken with the two's complement result that
  GCC documents for it.
\<close>

section \<open>Integers and bytes\<close>

definition bytes_to_uint16 :: "byte list ptr \<Rightarrow> u16 option" where
  "bytes_to_uint16 p =
     (case p of
        None \<Rightarrow> Some 0
      | Some b \<Rightarrow> do {
          b0 \<leftarrow> rd b 0; b1 \<leftarrow> rd b 1;
          Some (push_bit 8 (ucast b0) OR ucast b1) })"

definition bytes_to_uint32 :: "byte list ptr \<Rightarrow> u32 option" where
  "bytes_to_uint32 p =
     (case p of
        None \<Rightarrow> Some 0
      | Some b \<Rightarrow> do {
          b0 \<leftarrow> rd b 0; b1 \<leftarrow> rd b 1; b2 \<leftarrow> rd b 2; b3 \<leftarrow> rd b 3;
          Some (push_bit 24 (ucast b0) OR push_bit 16 (ucast b1) OR
                push_bit 8 (ucast b2) OR ucast b3) })"

definition bytes_to_uint64 :: "byte list ptr \<Rightarrow> u64 option" where
  "bytes_to_uint64 p =
     (case p of
        None \<Rightarrow> Some 0
      | Some b \<Rightarrow> do {
          b0 \<leftarrow> rd b 0; b1 \<leftarrow> rd b 1; b2 \<leftarrow> rd b 2; b3 \<leftarrow> rd b 3;
          b4 \<leftarrow> rd b 4; b5 \<leftarrow> rd b 5; b6 \<leftarrow> rd b 6; b7 \<leftarrow> rd b 7;
          Some (push_bit 56 (ucast b0) OR push_bit 48 (ucast b1) OR
                push_bit 40 (ucast b2) OR push_bit 32 (ucast b3) OR
                push_bit 24 (ucast b4) OR push_bit 16 (ucast b5) OR
                push_bit 8 (ucast b6) OR ucast b7) })"

definition uint16_to_bytes :: "u16 \<Rightarrow> byte list ptr \<Rightarrow> byte list ptr option" where
  "uint16_to_bytes value p =
     (case p of
        None \<Rightarrow> Some None
      | Some b \<Rightarrow> do {
          b \<leftarrow> wr b 0 (byte_at 8 value); b \<leftarrow> wr b 1 (byte_at 0 value);
          Some (Some b) })"

definition uint32_to_bytes :: "u32 \<Rightarrow> byte list ptr \<Rightarrow> byte list ptr option" where
  "uint32_to_bytes value p =
     (case p of
        None \<Rightarrow> Some None
      | Some b \<Rightarrow> do {
          b \<leftarrow> wr b 0 (byte_at 24 value); b \<leftarrow> wr b 1 (byte_at 16 value);
          b \<leftarrow> wr b 2 (byte_at 8 value); b \<leftarrow> wr b 3 (byte_at 0 value);
          Some (Some b) })"

definition uint64_to_bytes :: "u64 \<Rightarrow> byte list ptr \<Rightarrow> byte list ptr option" where
  "uint64_to_bytes value p =
     (case p of
        None \<Rightarrow> Some None
      | Some b \<Rightarrow> do {
          b \<leftarrow> wr b 0 (byte_at 56 value); b \<leftarrow> wr b 1 (byte_at 48 value);
          b \<leftarrow> wr b 2 (byte_at 40 value); b \<leftarrow> wr b 3 (byte_at 32 value);
          b \<leftarrow> wr b 4 (byte_at 24 value); b \<leftarrow> wr b 5 (byte_at 16 value);
          b \<leftarrow> wr b 6 (byte_at 8 value); b \<leftarrow> wr b 7 (byte_at 0 value);
          Some (Some b) })"

lemma uint16_join:
  "push_bit 8 (ucast (byte_at 8 v)) OR ucast (byte_at 0 v) = (v :: u16)"
  by (rule bit_word_eqI) (simp only: bit_or_iff bit_push_byte bit_low_byte, auto)

lemma uint32_join:
  "push_bit 24 (ucast (byte_at 24 v)) OR push_bit 16 (ucast (byte_at 16 v)) OR
   push_bit 8 (ucast (byte_at 8 v)) OR ucast (byte_at 0 v) = (v :: u32)"
  by (rule bit_word_eqI) (simp only: bit_or_iff bit_push_byte bit_low_byte, auto)

lemma uint64_join:
  "push_bit 56 (ucast (byte_at 56 v)) OR push_bit 48 (ucast (byte_at 48 v)) OR
   push_bit 40 (ucast (byte_at 40 v)) OR push_bit 32 (ucast (byte_at 32 v)) OR
   push_bit 24 (ucast (byte_at 24 v)) OR push_bit 16 (ucast (byte_at 16 v)) OR
   push_bit 8 (ucast (byte_at 8 v)) OR ucast (byte_at 0 v) = (v :: u64)"
  by (rule bit_word_eqI) (simp only: bit_or_iff bit_push_byte bit_low_byte, auto)

section \<open>Buffers\<close>

definition bytes_xor ::
  "byte list ptr \<Rightarrow> byte list ptr \<Rightarrow> byte list ptr \<Rightarrow> nat \<Rightarrow> byte list ptr option" where
  "bytes_xor outp ap bp len =
     (case (outp, ap, bp) of
        (Some out, Some a, Some b) \<Rightarrow> do {
          out \<leftarrow> for_upto 0 len
                 (\<lambda>i out. do { x \<leftarrow> rd a i; y \<leftarrow> rd b i; wr out i (x XOR y) }) out;
          Some (Some out) }
      | _ \<Rightarrow> Some outp)"

definition bytes_xor_inplace ::
  "byte list ptr \<Rightarrow> byte list ptr \<Rightarrow> nat \<Rightarrow> byte list ptr option" where
  "bytes_xor_inplace ap bp len =
     (case (ap, bp) of
        (Some a, Some b) \<Rightarrow> do {
          a \<leftarrow> for_upto 0 len
               (\<lambda>i a. do { x \<leftarrow> rd a i; y \<leftarrow> rd b i; wr a i (x XOR y) }) a;
          Some (Some a) }
      | _ \<Rightarrow> Some ap)"

text \<open>The loop of \<open>bytes_equal\<close> leaves at the first difference.\<close>

function bytes_equal_loop :: "byte list \<Rightarrow> byte list \<Rightarrow> nat \<Rightarrow> nat \<Rightarrow> int option" where
  "bytes_equal_loop a b i len =
     (if i < len then do {
        x \<leftarrow> rd a i; y \<leftarrow> rd b i;
        if x \<noteq> y then Some 0 else bytes_equal_loop a b (Suc i) len }
      else Some 1)"
  by pat_completeness auto
termination
  by (relation "measure (\<lambda>(a, b, i, len). len - i)") auto

declare bytes_equal_loop.simps [simp del]

definition bytes_equal :: "byte list ptr \<Rightarrow> byte list ptr \<Rightarrow> nat \<Rightarrow> int option" where
  "bytes_equal ap bp len =
     (case (ap, bp) of
        (Some a, Some b) \<Rightarrow> bytes_equal_loop a b 0 len
      | _ \<Rightarrow> Some 0)"

definition bytes_reverse :: "byte list ptr \<Rightarrow> nat \<Rightarrow> byte list ptr option" where
  "bytes_reverse p len =
     (case p of
        None \<Rightarrow> Some None
      | Some bytes \<Rightarrow>
          if len < 2 then Some (Some bytes)
          else do {
            bytes \<leftarrow> for_upto 0 (len div 2)
              (\<lambda>i bytes. do {
                 temp \<leftarrow> rd bytes i;
                 x \<leftarrow> rd bytes (len - 1 - i);
                 bytes \<leftarrow> wr bytes i x;
                 wr bytes (len - 1 - i) temp }) bytes;
            Some (Some bytes) })"

definition bytes_clear :: "byte list ptr \<Rightarrow> nat \<Rightarrow> byte list ptr option" where
  "bytes_clear p len =
     (case p of
        Some bytes \<Rightarrow>
          if len > 0 then do {
            bytes \<leftarrow> for_upto 0 len (\<lambda>i p. wr p i 0) bytes; Some (Some bytes) }
          else Some (Some bytes)
      | None \<Rightarrow> Some None)"

section \<open>Round trips and functional behaviour\<close>

lemma length_two_cases: "2 \<le> length b \<longleftrightarrow> (\<exists>x0 x1 r. b = x0 # x1 # r)"
  by (auto simp: numeral_eq_Suc Suc_le_length_iff)

text \<open>
  Writing a 16, 32 or 64-bit integer into a buffer that has room for it and reading it
  back gives the integer, and the writer changes nothing behind the bytes it writes.
\<close>

theorem integer_bytes_roundtrip:
  assumes "8 \<le> length b"
  shows "Option.bind (uint16_to_bytes v16 (Some b)) bytes_to_uint16 = Some v16 \<and>
         Option.bind (uint32_to_bytes v32 (Some b)) bytes_to_uint32 = Some v32 \<and>
         Option.bind (uint64_to_bytes v64 (Some b)) bytes_to_uint64 = Some v64 \<and>
         (\<exists>w. uint64_to_bytes v64 (Some b) = Some (Some (w @ drop 8 b)) \<and> length w = 8)"
proof -
  from assms obtain x0 x1 x2 x3 x4 x5 x6 x7 r where
    b: "b = x0 # x1 # x2 # x3 # x4 # x5 # x6 # x7 # r"
    by (auto simp: numeral_eq_Suc Suc_le_length_iff)
  have "\<exists>w. uint64_to_bytes v64 (Some b) = Some (Some (w @ drop 8 b)) \<and> length w = 8"
    by (rule exI [of _ "[byte_at 56 v64, byte_at 48 v64, byte_at 40 v64, byte_at 32 v64,
          byte_at 24 v64, byte_at 16 v64, byte_at 8 v64, byte_at 0 v64]"])
      (simp add: b uint64_to_bytes_def access_simps)
  then show ?thesis
    by (simp add: b access_simps
        uint16_to_bytes_def bytes_to_uint16_def uint16_join
        uint32_to_bytes_def bytes_to_uint32_def uint32_join
        uint64_to_bytes_def bytes_to_uint64_def uint64_join)
qed

lemma integer_bytes_roundtrip_witness:
  "8 \<le> length (replicate 8 (0 :: byte)) \<and>
   Option.bind (uint32_to_bytes 0xDEADBEEF (Some (replicate 8 0))) bytes_to_uint32 = Some 0xDEADBEEF"
  using integer_bytes_roundtrip [of "replicate 8 0" 0 "0xDEADBEEF" 0] by simp

text \<open>
  The loop of both XOR helpers: the first operand is a fixed buffer or the output itself,
  whose cells from \<open>i\<close> on still hold their first values when cell \<open>i\<close> is read.
\<close>

lemma bytes_xor_loop:
  assumes "len \<le> length out" "len \<le> length a" "len \<le> length b"
    and "\<And>s. length s = length out \<Longrightarrow> length (src s) = length a"
    and "\<And>i s. i < len \<Longrightarrow> length s = length out \<Longrightarrow> drop i s = drop i out \<Longrightarrow> src s ! i = a ! i"
  shows "for_upto 0 len (\<lambda>i out. do { x \<leftarrow> rd (src out) i; y \<leftarrow> rd b i; wr out i (x XOR y) }) out =
           Some (xor_bytes (take len a) (take len b) @ drop len out)"
  using assms
  by (subst for_upto_fill [where f = "\<lambda>i. a ! i XOR b ! i"]) (auto simp: rd_def map_xor_upt)

lemma nth_if_drop_eq: "drop i s = drop i t \<Longrightarrow> i < length t \<Longrightarrow> length s = length t \<Longrightarrow> s ! i = t ! i"
  by (metis hd_drop_conv_nth)

text \<open>
  \<open>bytes_xor\<close> stores the XOR of the first \<open>len\<close> bytes of its operands in the output
  buffer and leaves the rest of it, and \<open>bytes_xor_inplace\<close> applied twice restores the buffer.
\<close>

theorem bytes_xor_correct:
  assumes "len \<le> length out" "len \<le> length a" "len \<le> length b"
  shows "bytes_xor (Some out) (Some a) (Some b) len =
           Some (Some (xor_bytes (take len a) (take len b) @ drop len out)) \<and>
         Option.bind (bytes_xor_inplace (Some a) (Some b) len)
           (\<lambda>a'. bytes_xor_inplace a' (Some b) len) = Some (Some a)"
proof -
  have xor: "bytes_xor (Some out) (Some a) (Some b) len =
      Some (Some (xor_bytes (take len a) (take len b) @ drop len out))"
    using assms bytes_xor_loop [of len out a b "\<lambda>_. a"]
    by (simp add: bytes_xor_def)
  have inplace: "bytes_xor_inplace (Some c) (Some b) len =
      Some (Some (xor_bytes (take len c) (take len b) @ drop len c))"
    if "len \<le> length c" for c
  proof -
    have "for_upto 0 len (\<lambda>i out. do { x \<leftarrow> rd out i; y \<leftarrow> rd b i; wr out i (x XOR y) }) c =
        Some (xor_bytes (take len c) (take len b) @ drop len c)"
      by (rule bytes_xor_loop [where src = "\<lambda>s. s"])
        (use that assms in \<open>auto intro: nth_if_drop_eq\<close>)
    then show ?thesis by (simp add: bytes_xor_inplace_def)
  qed
  have "xor_bytes (take len (xor_bytes (take len a) (take len b) @ drop len a)) (take len b) = take len a"
    using assms by simp
  with xor inplace assms show ?thesis
    by (simp add: min_absorb2)
qed

lemma bytes_xor_correct_witness:
  "(2::nat) \<le> length [0, 0, 9 :: byte] \<and>
   bytes_xor (Some [0, 0, 9]) (Some [5, 6]) (Some [1, 6]) 2 = Some (Some [4, 0, 9])"
  using bytes_xor_correct [of 2 "[0, 0, 9]" "[5, 6]" "[1, 6]"] by simp

lemma bytes_equal_loop_eq:
  assumes "len \<le> length a" "len \<le> length b" "i \<le> len" "take i a = take i b"
  shows "bytes_equal_loop a b i len = Some (if take len a = take len b then 1 else 0)"
  using assms
proof (induction a b i len rule: bytes_equal_loop.induct)
  case (1 a b i len)
  show ?case
  proof (cases "i < len \<and> a ! i = b ! i")
    case True
    with 1 show ?thesis
      by (subst bytes_equal_loop.simps) (auto simp: rd_def take_Suc_conv_app_nth)
  next
    case False
    have "take len a \<noteq> take len b" if "i < len" "a ! i \<noteq> b ! i"
      using that by (metis nth_take)
    with False "1.prems" show ?thesis
      by (subst bytes_equal_loop.simps) (cases "i < len", auto simp: rd_def)
  qed
qed

text \<open>
  \<open>bytes_equal\<close> answers 1 exactly when both buffers hold the same first \<open>len\<close> bytes.
\<close>

theorem bytes_equal_correct:
  assumes "len \<le> length a" "len \<le> length b"
  shows "bytes_equal (Some a) (Some b) len = Some (if take len a = take len b then 1 else 0)"
  using assms by (simp add: bytes_equal_def bytes_equal_loop_eq)

lemma bytes_equal_correct_witness:
  "(2::nat) \<le> length [1, 2, 3 :: byte] \<and>
   bytes_equal (Some [1, 2, 3]) (Some [1, 2, 4]) 2 = Some 1"
  using bytes_equal_correct [of 2 "[1, 2, 3]" "[1, 2, 4]"] by simp

text \<open>
  The state of the reversal after \<open>i\<close> swaps: the outer \<open>i\<close> cells on both sides have been
  exchanged, the inner ones are untouched.
\<close>

definition reversed_upto :: "nat \<Rightarrow> nat \<Rightarrow> byte list \<Rightarrow> byte list \<Rightarrow> bool" where
  "reversed_upto len i b s \<longleftrightarrow> length s = length b \<and>
     (\<forall>k < length b. s ! k = (if k < len \<and> (k < i \<or> len - 1 - k < i) then b ! (len - 1 - k) else b ! k))"

lemma reversed_upto_step:
  assumes inv: "reversed_upto len i b s" and i: "i < len div 2" and len: "len \<le> length b"
  shows "\<exists>s'. do { temp \<leftarrow> rd s i; x \<leftarrow> rd s (len - 1 - i);
                 t \<leftarrow> wr s i x; wr t (len - 1 - i) temp } = Some s' \<and> reversed_upto len (Suc i) b s'"
proof -
  have ib: "i < length b" "len - 1 - i < length b" "i < len - 1 - i" "len - 1 - (len - 1 - i) = i"
    using i len by auto
  have s: "length s = length b" "s ! i = b ! i" "s ! (len - 1 - i) = b ! (len - 1 - i)"
    using inv ib i by (auto simp: reversed_upto_def)
  let ?s' = "s[i := s ! (len - 1 - i), len - 1 - i := s ! i]"
  have "reversed_upto len (Suc i) b ?s'"
    unfolding reversed_upto_def
  proof (intro conjI allI impI)
    show "length ?s' = length b" using s by simp
    fix k assume k: "k < length b"
    have old: "s ! k = (if k < len \<and> (k < i \<or> len - 1 - k < i) then b ! (len - 1 - k) else b ! k)"
      using inv k by (simp add: reversed_upto_def)
    consider "k = i" | "k = len - 1 - i" | "k \<noteq> i" "k \<noteq> len - 1 - i" by blast
    then show "?s' ! k = (if k < len \<and> (k < Suc i \<or> len - 1 - k < Suc i) then b ! (len - 1 - k) else b ! k)"
    proof cases
      case 3
      then have "k < len \<and> (k < Suc i \<or> len - 1 - k < Suc i) \<longleftrightarrow> k < len \<and> (k < i \<or> len - 1 - k < i)"
        using ib i by auto
      then show ?thesis using 3 old s k by simp
    qed (use s ib i in \<open>auto simp: nth_list_update\<close>)
  qed
  then show ?thesis
    using s ib by (auto simp: rd_def wr_def)
qed

text \<open>
  \<open>bytes_reverse\<close> reverses the first \<open>len\<close> bytes of a buffer and leaves the rest.
\<close>

theorem bytes_reverse_correct:
  assumes "len \<le> length b"
  shows "bytes_reverse (Some b) len = Some (Some (rev (take len b) @ drop len b))"
proof (cases "len < 2")
  case True
  then have "rev (take len b) @ drop len b = b"
    by (cases b; cases "tl b") (auto simp: less_2_cases_iff)
  with True show ?thesis by (simp add: bytes_reverse_def)
next
  case False
  let ?body = "\<lambda>i bytes. do { temp \<leftarrow> rd bytes i; x \<leftarrow> rd bytes (len - 1 - i);
                 bytes \<leftarrow> wr bytes i x; wr bytes (len - 1 - i) temp }"
  have "\<exists>s. for_upto 0 (len div 2) ?body b = Some s \<and> reversed_upto len (len div 2) b s"
  proof (rule for_upto_rule)
    show "reversed_upto len 0 b b" by (simp add: reversed_upto_def)
  qed (use assms reversed_upto_step in auto)
  then obtain s where s: "for_upto 0 (len div 2) ?body b = Some s"
    and r: "reversed_upto len (len div 2) b s" by blast
  have "s = rev (take len b) @ drop len b"
  proof (rule nth_equalityI)
    show "length s = length (rev (take len b) @ drop len b)"
      using r assms by (simp add: reversed_upto_def)
    fix k assume "k < length s"
    with r assms show "s ! k = (rev (take len b) @ drop len b) ! k"
      by (cases "k < len")
        (auto simp: reversed_upto_def nth_append rev_nth min_absorb2
          intro!: arg_cong [where f = "(!) b"])
  qed
  with s False show ?thesis by (simp add: bytes_reverse_def)
qed

lemma bytes_reverse_correct_witness:
  "(3::nat) \<le> length [1, 2, 3, 4 :: byte] \<and>
   bytes_reverse (Some [1, 2, 3, 4]) 3 = Some (Some [3, 2, 1, 4])"
  using bytes_reverse_correct [of 3 "[1, 2, 3, 4]"] by simp

lemma bytes_clear_correct:
  assumes "len \<le> length b"
  shows "bytes_clear (Some b) len = Some (Some (replicate len 0 @ drop len b))"
proof -
  have "for_upto 0 len (\<lambda>i p. wr p i 0) b = Some (map (\<lambda>i. 0) [0..<len] @ drop len b)"
    using assms by (rule for_upto_fill) simp
  then show ?thesis by (simp add: bytes_clear_def map_replicate_const)
qed

end
