(* ===== verification/Axon_ConstTime.thy ===== *)
theory Axon_ConstTime
  imports Axon_Prelude
begin

text \<open>
  The branch-free helpers of \<open>crypto/source/constant.c\<close>, on 32-bit words and buffers.
\<close>

definition eq_fold :: "u32 \<Rightarrow> u32" where
  "eq_fold diff = drop_bit 1 diff OR (diff AND 1)"

definition constant_time_eq :: "u32 \<Rightarrow> u32 \<Rightarrow> u32" where
  "constant_time_eq a b =
     (let diff = a XOR b;
          diff = eq_fold diff;
          diff = eq_fold diff;
          diff = eq_fold diff;
          diff = eq_fold diff;
          diff = eq_fold diff
      in (diff XOR 1) AND 1)"

definition constant_time_lt :: "u32 \<Rightarrow> u32 \<Rightarrow> u32" where
  "constant_time_lt a b = (if a < b then 1 else 0)"

definition constant_time_ge :: "u32 \<Rightarrow> u32 \<Rightarrow> u32" where
  "constant_time_ge a b = (if a \<ge> b then 1 else 0)"

definition constant_time_select :: "u32 \<Rightarrow> u32 \<Rightarrow> u32 \<Rightarrow> u32" where
  "constant_time_select m true_val false_val = (m AND true_val) OR (NOT m AND false_val)"

definition constant_time_memcmp :: "byte list \<Rightarrow> byte list \<Rightarrow> nat \<Rightarrow> byte option" where
  "constant_time_memcmp a b len = do {
     result \<leftarrow> for_upto 0 len
       (\<lambda>i result. do { x \<leftarrow> rd a i; y \<leftarrow> rd b i; Some (result OR (x XOR y)) }) 0;
     Some (if result = 0 then 0 else 1) }"

text \<open>The bytes are promoted to 32 bits, masked, and truncated when stored.\<close>

definition constant_time_memcpy ::
  "byte list \<Rightarrow> byte list \<Rightarrow> nat \<Rightarrow> u32 \<Rightarrow> byte list option" where
  "constant_time_memcpy dest src len condition =
     (let m = (if condition \<noteq> 0 then 0xFFFFFFFF else 0 :: u32)
      in for_upto 0 len
           (\<lambda>i dest. do {
              d \<leftarrow> rd dest i; s \<leftarrow> rd src i;
              wr dest i (ucast ((ucast d AND NOT m) OR (ucast s AND m))) }) dest)"

definition constant_time_msb :: "u32 \<Rightarrow> u32" where
  "constant_time_msb v = drop_bit 31 v AND 1"

section \<open>Comparison of words\<close>

lemma bit_eq_fold: "bit (eq_fold d) i \<longleftrightarrow> bit d (Suc i) \<or> (i = 0 \<and> bit d 0)"
  by (auto simp: eq_fold_def bit_simps)

lemma eq_fold_low_bits:
  "bit (eq_fold (eq_fold (eq_fold (eq_fold (eq_fold d))))) 0 \<longleftrightarrow> take_bit 6 d \<noteq> 0"
proof -
  have "take_bit 6 d = 0 \<longleftrightarrow> (\<forall>i < 6. \<not> bit d i)"
    by (auto simp: bit_eq_iff bit_take_bit_iff)
  also have "\<dots> \<longleftrightarrow> (\<forall>i \<in> {0, 1, 2, 3, 4, 5}. \<not> bit d i)"
  proof -
    have "{..<6} = {0, 1, 2, 3, 4, 5 :: nat}" by auto
    then show ?thesis by (metis lessThan_iff)
  qed
  finally show ?thesis
    by (auto simp: bit_eq_fold numeral_eq_Suc)
qed

lemma and_one_bit0: "(d :: u32) AND 1 = (if bit d 0 then 1 else 0)"
proof (rule bit_word_eqI)
  fix n show "bit (d AND 1) n \<longleftrightarrow> bit (if bit d 0 then 1 else 0 :: u32) n"
    by (cases "n = 0") (auto simp: bit_and_iff bit_1_iff)
qed

section \<open>Comparison and copy of buffers\<close>

lemma take_Suc_eq_iff:
  "i < length xs \<Longrightarrow> i < length ys
    \<Longrightarrow> take (Suc i) xs = take (Suc i) ys \<longleftrightarrow> take i xs = take i ys \<and> xs ! i = ys ! i"
  by (auto simp: take_Suc_conv_app_nth)

lemma masked_byte:
  "ucast ((ucast (d :: byte) AND NOT (0xFFFFFFFF :: u32)) OR (ucast (s :: byte) AND 0xFFFFFFFF)) = s"
  "ucast ((ucast (d :: byte) AND NOT (0 :: u32)) OR (ucast (s :: byte) AND 0)) = d"
proof -
  have m: "(0xFFFFFFFF :: u32) = -1" by simp
  show "ucast ((ucast d AND NOT (0xFFFFFFFF :: u32)) OR (ucast s AND 0xFFFFFFFF)) = s"
    unfolding m by (simp add: bit_eq_iff bit_simps)
  show "ucast ((ucast d AND NOT (0 :: u32)) OR (ucast s AND 0)) = d"
    by (simp add: bit_eq_iff bit_simps)
qed

text \<open>
  C39. \<open>constant_time_eq\<close> does not compare 32-bit values: its five folding steps only reach
  bits 0 to 5, so it answers 1 exactly when the two words agree in their low six bits.
\<close>

theorem constant_time_eq_iff:
  "constant_time_eq a b = (if take_bit 6 a = take_bit 6 b then 1 else 0)"
proof -
  have "take_bit 6 (a XOR b) = 0 \<longleftrightarrow> take_bit 6 a = take_bit 6 b"
    by (auto simp: bit_eq_iff bit_simps)
  moreover have "((d :: u32) XOR 1) AND 1 = (if bit d 0 then 0 else 1)" for d
    by (simp add: and_one_bit0 bit_simps)
  ultimately show ?thesis
    by (simp add: constant_time_eq_def Let_def eq_fold_low_bits)
qed

text \<open>
  \<open>constant_time_memcmp\<close> returns 0 exactly when the two buffers agree on the first
  \<open>len\<close> bytes and 1 otherwise, for buffers that have them.
\<close>

theorem constant_time_memcmp_correct:
  assumes "len \<le> length a" and "len \<le> length b"
  shows "constant_time_memcmp a b len = Some (if take len a = take len b then 0 else 1)"
proof -
  let ?body = "\<lambda>i result. do { x \<leftarrow> rd a i; y \<leftarrow> rd b i; Some (result OR (x XOR y)) }"
  have "\<exists>r. for_upto 0 len ?body 0 = Some r \<and> (r = 0 \<longleftrightarrow> take len a = take len b)"
    by (rule for_upto_rule)
       (use assms in \<open>auto simp: rd_def word_or_zero_iff word_xor_zero_iff take_Suc_eq_iff\<close>)
  then show ?thesis
    by (auto simp: constant_time_memcmp_def)
qed

lemma constant_time_memcmp_correct_witness:
  "(2::nat) \<le> length [1, 2 :: byte] \<and>
   constant_time_memcmp [1, 2] [1, 3] 2 = Some (if take 2 [1, 2 :: byte] = take 2 [1, 3] then 0 else 1)"
  using constant_time_memcmp_correct [of 2 "[1, 2]" "[1, 3]"] by simp

text \<open>
  \<open>constant_time_memcpy\<close> copies the first \<open>len\<close> bytes of the source when the
  condition is not zero and leaves the destination as it is when it is zero.
\<close>

theorem constant_time_memcpy_correct:
  assumes "len \<le> length dest" and "len \<le> length src"
  shows "constant_time_memcpy dest src len condition =
           Some (if condition \<noteq> 0 then take len src @ drop len dest else dest)"
proof -
  let ?f = "\<lambda>i. if condition \<noteq> 0 then src ! i else dest ! i"
  have "constant_time_memcpy dest src len condition = Some (map ?f [0..<len] @ drop len dest)"
    unfolding constant_time_memcpy_def Let_def
  proof (rule for_upto_fill)
    fix i s assume i: "i < len" "length s = length dest" "drop i s = drop i dest"
    then have "s ! i = dest ! i"
      using assms by (metis hd_drop_conv_nth less_le_trans)
    then show "do { d \<leftarrow> rd s i; sa \<leftarrow> rd src i;
         wr s i (ucast ((ucast d AND NOT (if condition \<noteq> 0 then 0xFFFFFFFF else 0 :: u32)) OR
                        (ucast sa AND (if condition \<noteq> 0 then 0xFFFFFFFF else 0)))) } = wr s i (?f i)"
      using i assms masked_byte by (simp add: rd_def)
  qed (use assms in simp)
  moreover have "map ((!) src) [0..<len] = take len src"
    using assms by (intro nth_equalityI) auto
  moreover have "map ((!) dest) [0..<len] = take len dest"
    using assms by (intro nth_equalityI) auto
  ultimately show ?thesis by simp
qed

lemma constant_time_memcpy_correct_witness:
  "(2::nat) \<le> length [7, 8, 9 :: byte] \<and>
   constant_time_memcpy [7, 8, 9] [1, 2] 2 5 = Some [1, 2, 9]"
  using constant_time_memcpy_correct [of 2 "[7, 8, 9]" "[1, 2]" 5] by simp

end
