(* ===== verification/Axon_Secure.thy ===== *)
theory Axon_Secure
  imports Axon_Prelude
begin

text \<open>
  The secure allocator of \<open>memory/source/secure.c\<close> over an explicit heap.

  A heap maps the address of every live block to its bytes. \<open>next_addr\<close> numbers the calls
  of \<open>malloc\<close>; \<open>mfail n\<close> says whether call \<open>n\<close> fails, so that every pattern of failures is
  covered. \<open>locked\<close> is the set of addresses for which \<open>mlock\<close> has been called and \<open>munlock\<close> not yet (the
  code ignores their results, and that they act on whole pages), and \<open>released\<close> lists, newest
  first, what the blocks contained when they were given back to \<open>free\<close>: the property the
  allocator is written for is that this is only ever zeroes.
\<close>

section \<open>The heap\<close>

record heap =
  blocks :: "nat \<Rightarrow> byte list option"
  next_addr :: nat
  mfail :: "nat \<Rightarrow> bool"
  locked :: "nat set"
  released :: "byte list list"

definition empty_heap :: "(nat \<Rightarrow> bool) \<Rightarrow> heap" where
  "empty_heap f = \<lparr>blocks = (\<lambda>_. None), next_addr = 0, mfail = f, locked = {}, released = []\<rparr>"

text \<open>
  Addresses that have not been handed out yet hold no block, the live blocks are locked, and whatever has been
  given back to the system was wiped before. An operation that keeps \<open>heap_ok\<close> therefore leaves no secret in freed memory.
\<close>

definition wiped :: "byte list \<Rightarrow> bool" where
  "wiped b \<longleftrightarrow> set b \<subseteq> {0}"

definition heap_ok :: "heap \<Rightarrow> bool" where
  "heap_ok h \<longleftrightarrow> (\<forall>a \<ge> next_addr h. blocks h a = None) \<and> locked h = dom (blocks h) \<and> list_all wiped (released h)"

section \<open>The operations\<close>

definition secure_alloc :: "nat \<Rightarrow> heap \<Rightarrow> nat ptr \<times> heap" where
  "secure_alloc sz h =
     (if sz = 0 then (NULL, h)
      else if mfail h (next_addr h) then (NULL, h\<lparr>next_addr := Suc (next_addr h)\<rparr>)
      else let a = next_addr h in
        (Some a, h\<lparr>blocks := (blocks h)(a \<mapsto> replicate sz 0), next_addr := Suc a,
                   locked := insert a (locked h)\<rparr>))"

text \<open>The volatile loop \<open>for (i = 0; i < size; i++) p[i] = 0\<close>.\<close>

definition zero_loop :: "nat \<Rightarrow> byte list \<Rightarrow> byte list option" where
  "zero_loop sz b = for_upto 0 sz (\<lambda>i p. wr p i 0) b"

definition secure_free :: "nat ptr \<Rightarrow> nat \<Rightarrow> heap \<Rightarrow> heap option" where
  "secure_free p sz h =
     (case p of
        None \<Rightarrow> Some h
      | Some a \<Rightarrow>
          if sz > 0 then do {
            b \<leftarrow> blocks h a;
            b \<leftarrow> zero_loop sz b;
            Some (h\<lparr>blocks := (blocks h)(a := None), locked := locked h - {a},
                    released := b # released h\<rparr>) }
          else Some h)"

definition secure_zero :: "nat ptr \<Rightarrow> nat \<Rightarrow> heap \<Rightarrow> heap option" where
  "secure_zero p sz h =
     (case p of
        None \<Rightarrow> Some h
      | Some a \<Rightarrow>
          if sz > 0 then do {
            b \<leftarrow> blocks h a;
            b \<leftarrow> zero_loop sz b;
            Some (h\<lparr>blocks := (blocks h)(a \<mapsto> b)\<rparr>) }
          else Some h)"

definition secure_realloc :: "nat ptr \<Rightarrow> nat \<Rightarrow> nat \<Rightarrow> heap \<Rightarrow> (nat ptr \<times> heap) option" where
  "secure_realloc p old_size new_size h =
     (if new_size = 0 then do { h \<leftarrow> secure_free p old_size h; Some (NULL, h) }
      else
        (case secure_alloc new_size h of
           (Some new_ptr, h) \<Rightarrow>
             (case p of
                Some a \<Rightarrow>
                  if old_size > 0 then do {
                    let copy_len = (if old_size < new_size then old_size else new_size);
                    src \<leftarrow> blocks h a;
                    src \<leftarrow> rd_bytes src 0 copy_len;
                    dst \<leftarrow> blocks h new_ptr;
                    dst \<leftarrow> wr_bytes dst 0 src;
                    let h = h\<lparr>blocks := (blocks h)(new_ptr \<mapsto> dst)\<rparr>;
                    h \<leftarrow> secure_free p old_size h;
                    Some (Some new_ptr, h) }
                  else Some (Some new_ptr, h)
              | None \<Rightarrow> Some (Some new_ptr, h))
         | (None, h) \<Rightarrow> Some (NULL, h)))"

definition secure_memcpy :: "byte list ptr \<Rightarrow> byte list ptr \<Rightarrow> nat \<Rightarrow> byte list ptr option" where
  "secure_memcpy destp srcp len =
     (case (destp, srcp) of
        (Some dest, Some src) \<Rightarrow>
          if len > 0 then do {
            s \<leftarrow> rd_bytes src 0 len; dest \<leftarrow> wr_bytes dest 0 s; Some (Some dest) }
          else Some (Some dest)
      | _ \<Rightarrow> Some destp)"

definition secure_memcmp :: "byte list ptr \<Rightarrow> byte list ptr \<Rightarrow> nat \<Rightarrow> int option" where
  "secure_memcmp ap bp len =
     (case (ap, bp) of
        (Some a, Some b) \<Rightarrow> do {
          result \<leftarrow> for_upto 0 len
            (\<lambda>i result. do { x \<leftarrow> rd a i; y \<leftarrow> rd b i; Some (result OR (x XOR y)) }) (0 :: byte);
          Some (if result = 0 then 0 else 1) }
      | _ \<Rightarrow> Some (-1))"

text \<open>\<open>secure_lock\<close> and \<open>secure_unlock\<close> discard their arguments.\<close>

definition secure_lock :: "nat ptr \<Rightarrow> nat \<Rightarrow> heap \<Rightarrow> heap" where
  "secure_lock p sz h = h"

definition secure_unlock :: "nat ptr \<Rightarrow> nat \<Rightarrow> heap \<Rightarrow> heap" where
  "secure_unlock p sz h = h"

section \<open>The allocator contract\<close>

text \<open>
  What the users of the allocator rely on: a granted block is fresh and zeroed, nothing
  else changes, and a live block can be given back with its size.
\<close>

locale block_store =
  fixes alloc :: "nat \<Rightarrow> 'h \<Rightarrow> nat ptr \<times> 'h"
    and free :: "nat ptr \<Rightarrow> nat \<Rightarrow> 'h \<Rightarrow> 'h option"
    and content :: "'h \<Rightarrow> nat \<Rightarrow> byte list option"
    and ok :: "'h \<Rightarrow> bool"
  assumes alloc_some: "ok h \<Longrightarrow> alloc n h = (Some a, h') \<Longrightarrow>
      n > 0 \<and> ok h' \<and> content h a = None \<and> content h' = (content h)(a \<mapsto> replicate n 0)"
    and alloc_none: "ok h \<Longrightarrow> alloc n h = (NULL, h') \<Longrightarrow> ok h' \<and> content h' = content h"
    and free_live: "ok h \<Longrightarrow> content h a = Some b \<Longrightarrow> b \<noteq> [] \<Longrightarrow>
      \<exists>h'. free (Some a) (length b) h = Some h' \<and> ok h' \<and> content h' = (content h)(a := None)"
    and free_null: "free NULL n h = Some h"
begin

lemma alloc_free_restores:
  assumes "ok h" and "alloc n h = (Some a, h')"
  shows "\<exists>h''. free (Some a) n h' = Some h'' \<and> ok h'' \<and> content h'' = content h"
proof -
  from alloc_some [OF assms] have h': "n > 0" "ok h'" "content h a = None"
    "content h' = (content h)(a \<mapsto> replicate n 0)" by blast+
  then show ?thesis
    using free_live [of h' a "replicate n 0"] by (auto simp: fun_upd_idem_iff)
qed

lemma alloc_distinct:
  assumes "ok h" "alloc n h = (Some a, h')" "alloc m h' = (Some b, h'')"
  shows "a \<noteq> b"
  using alloc_some [OF assms(1,2)] alloc_some [of h' m b h''] assms(3) by auto

lemma alloc_keeps:
  assumes "ok h" "alloc n h = (p, h')" "content h a = Some b"
  shows "content h' a = Some b"
  using assms alloc_some [of h n _ h'] alloc_none [of h n h'] by (cases p) auto

end

section \<open>The code keeps the contract\<close>

lemma zero_loop_in: "n \<le> length b \<Longrightarrow> zero_loop n b = Some (replicate n 0 @ drop n b)"
  unfolding zero_loop_def
  by (subst for_upto_fill [where f = "\<lambda>_. 0"]) (auto simp: map_replicate_const)

lemma wiped_replicate [simp]: "wiped (replicate n 0)"
  by (auto simp: wiped_def)

lemma secure_free_live:
  assumes "blocks h a = Some b" "0 < n" "n \<le> length b"
  shows "secure_free (Some a) n h =
           Some (h\<lparr>blocks := (blocks h)(a := None), locked := locked h - {a},
                   released := (replicate n 0 @ drop n b) # released h\<rparr>)"
  using assms by (simp add: secure_free_def zero_loop_in)

interpretation sec: block_store secure_alloc secure_free blocks heap_ok
proof unfold_locales
  show "n > 0 \<and> heap_ok h' \<and> blocks h a = None \<and> blocks h' = (blocks h)(a \<mapsto> replicate n 0)"
    if "heap_ok h" "secure_alloc n h = (Some a, h')" for h n a h'
    using that by (auto simp: secure_alloc_def heap_ok_def Let_def split: if_splits)
  show "heap_ok h' \<and> blocks h' = blocks h"
    if "heap_ok h" "secure_alloc n h = (NULL, h')" for h n h'
    using that by (auto simp: secure_alloc_def heap_ok_def Let_def split: if_splits)
  show "\<exists>h'. secure_free (Some a) (length b) h = Some h' \<and> heap_ok h' \<and>
          blocks h' = (blocks h)(a := None)"
    if "heap_ok h" "blocks h a = Some b" "b \<noteq> []" for h a b
    using that by (auto simp: secure_free_live heap_ok_def)
qed (simp add: secure_free_def)

lemma heap_ok_empty: "heap_ok (empty_heap f)"
  by (simp add: heap_ok_def empty_heap_def)

lemma empty_heap_simps [simp]:
  "blocks (empty_heap f) = (\<lambda>_. None)" "mfail (empty_heap f) = f" "next_addr (empty_heap f) = 0"
  by (simp_all add: empty_heap_def)

text \<open>
  A block granted by \<open>secure_alloc\<close> is fresh, locked and zeroed and nothing else in the
  heap changes; freeing it with its size restores the heap's contents, and what is given
  back to the system contains only zeroes, whatever was stored in the block meanwhile.
\<close>

theorem secure_alloc_free:
  assumes "heap_ok h" and "secure_alloc n h = (Some a, h')"
    and "blocks h2 = (blocks h)(a \<mapsto> data)" and "length data = n" and "released h2 = released h"
  shows "blocks h a = None \<and> blocks h' = (blocks h)(a \<mapsto> replicate n 0) \<and> a \<in> locked h' \<and>
         (\<exists>h3. secure_free (Some a) n h2 = Some h3 \<and> blocks h3 = blocks h \<and> a \<notin> locked h3 \<and>
               released h3 = replicate n 0 # released h)"
proof -
  from sec.alloc_some [OF assms(1,2)] have "n > 0" "blocks h a = None"
    "blocks h' = (blocks h)(a \<mapsto> replicate n 0)" by blast+
  moreover have "a \<in> locked h'"
    using assms(2) by (auto simp: secure_alloc_def Let_def split: if_splits)
  moreover have "secure_free (Some a) n h2 = Some (h2\<lparr>blocks := (blocks h2)(a := None),
      locked := locked h2 - {a}, released := replicate n 0 # released h\<rparr>)"
    using assms \<open>n > 0\<close> by (subst secure_free_live [of h2 a data]) simp_all
  ultimately show ?thesis
    using assms(3) by (simp add: fun_upd_idem_iff)
qed

lemma secure_alloc_free_witness:
  "\<exists>h3. secure_free (Some 0) 2
     ((snd (secure_alloc 2 (empty_heap (\<lambda>_. False))))\<lparr>blocks := [0 \<mapsto> [7, 9]]\<rparr>) = Some h3 \<and>
     blocks h3 = (\<lambda>_. None) \<and> released h3 = [[0, 0]]"
proof -
  let ?h = "empty_heap (\<lambda>_. False)"
  have a: "secure_alloc 2 ?h = (Some 0, snd (secure_alloc 2 ?h))"
    by (simp add: secure_alloc_def empty_heap_def Let_def)
  show ?thesis
    using secure_alloc_free [OF heap_ok_empty a,
        of "(snd (secure_alloc 2 ?h))\<lparr>blocks := [0 \<mapsto> [7, 9]]\<rparr>" "[7, 9]"]
    by (auto simp: secure_alloc_def empty_heap_def Let_def numeral_eq_Suc)
qed

text \<open>
  A successful \<open>secure_realloc\<close> of a live block returns a fresh block that starts with
  the old contents, cut or padded with zeroes to the new size; the old block is wiped and
  released. When the new block is not granted, NULL is returned and the old block stays.
\<close>

theorem secure_realloc_correct:
  assumes "heap_ok h" and "blocks h a = Some b" and "b \<noteq> []" and "0 < m"
  shows "\<exists>p h'. secure_realloc (Some a) (length b) m h = Some (p, h') \<and>
           (case p of
              Some q \<Rightarrow> q \<noteq> a \<and> blocks h' = (blocks h)(a := None, q \<mapsto> take m b @ replicate (m - length b) 0) \<and>
                        released h' = replicate (length b) 0 # released h
            | None \<Rightarrow> blocks h' = blocks h \<and> released h' = released h)"
proof (cases "secure_alloc m h")
  case (Pair p h')
  have rel: "released h' = released h"
    using Pair by (auto simp: secure_alloc_def Let_def split: if_splits)
  show ?thesis
  proof (cases p)
    case None
    with Pair rel sec.alloc_none [OF assms(1), of m h'] assms(4) show ?thesis
      by (simp add: secure_realloc_def)
  next
    case (Some q)
    with Pair sec.alloc_some [OF assms(1), of m q h']
    have q: "blocks h q = None" "blocks h' = (blocks h)(q \<mapsto> replicate m 0)" by auto
    with assms(2) have "q \<noteq> a" by auto
    let ?n = "min (length b) m"
    have n: "(if length b < m then length b else m) = ?n" by auto
    let ?dst = "take m b @ replicate (m - length b) 0"
    have "wr_bytes (replicate m 0) 0 (take ?n b) = Some ?dst"
      by (auto simp: wr_bytes_def min_def)
    then have "secure_realloc (Some a) (length b) m h =
        do { h \<leftarrow> secure_free (Some a) (length b) (h'\<lparr>blocks := (blocks h')(q \<mapsto> ?dst)\<rparr>);
             Some (Some q, h) }"
      using assms \<open>q \<noteq> a\<close> q Pair Some n
      by (simp add: secure_realloc_def Let_def rd_bytes_in)
    moreover have "secure_free (Some a) (length b) (h'\<lparr>blocks := (blocks h')(q \<mapsto> ?dst)\<rparr>) =
        Some (h'\<lparr>blocks := ((blocks h')(q \<mapsto> ?dst))(a := None), locked := locked h' - {a},
                 released := replicate (length b) 0 # released h\<rparr>)"
      using assms q \<open>q \<noteq> a\<close> rel by (subst secure_free_live [where b = b]) auto
    ultimately show ?thesis
      using q \<open>q \<noteq> a\<close> by (auto simp: fun_upd_twist)
  qed
qed

lemma secure_realloc_correct_witness:
  "\<exists>p h'. secure_realloc (Some 0) 1 2 (snd (secure_alloc 1 (empty_heap (\<lambda>_. False)))) = Some (p, h') \<and>
     (case p of Some q \<Rightarrow> q \<noteq> 0 | None \<Rightarrow> True)"
  using secure_realloc_correct [of "snd (secure_alloc 1 (empty_heap (\<lambda>_. False)))" 0 "[0]" 2]
  by (auto simp: secure_alloc_def empty_heap_def heap_ok_def Let_def split: option.splits)

text \<open>
  \<open>secure_memcmp\<close> returns 0 exactly when the buffers agree on \<open>len\<close> bytes, 1 when they
  differ, and -1 when a buffer is NULL, and then without looking at the other.
\<close>

theorem secure_memcmp_correct:
  assumes "len \<le> length a" and "len \<le> length b"
  shows "secure_memcmp (Some a) (Some b) len = Some (if take len a = take len b then 0 else 1) \<and>
         secure_memcmp NULL q len = Some (-1) \<and> secure_memcmp q NULL len = Some (-1)"
proof -
  let ?body = "\<lambda>i result. do { x \<leftarrow> rd a i; y \<leftarrow> rd b i; Some (result OR (x XOR y)) }"
  have "\<exists>r. for_upto 0 len ?body 0 = Some r \<and> (r = 0 \<longleftrightarrow> take len a = take len b)"
    by (rule for_upto_rule)
       (use assms in \<open>auto simp: rd_def word_or_zero_iff word_xor_zero_iff take_Suc_conv_app_nth\<close>)
  then show ?thesis
    by (auto simp: secure_memcmp_def split: option.split)
qed

lemma secure_memcmp_correct_witness:
  "(2::nat) \<le> length [1, 2 :: byte] \<and> secure_memcmp (Some [1, 2]) (Some [1, 2]) 2 = Some 0"
  using secure_memcmp_correct [of 2 "[1, 2]" "[1, 2]"] by simp

end
