(* ===== verification/Axon_Pool.thy ===== *)
theory Axon_Pool
  imports Axon_Secure
begin

text \<open>
  The fixed-size block pool of \<open>memory/source/pool.c\<close>: one secure block of memory, cut into
  blocks of \<open>block_size\<close> bytes, and a bitmap, also a secure block, with one bit per block.
  A pointer into the pool is the pair of the address of its heap block and an offset.
\<close>

section \<open>State and operations\<close>

record memory_pool =
  pmemory :: "nat ptr"
  total_size :: nat
  pused :: nat
  pblock_size :: nat
  bitmap :: "nat ptr"
  bitmap_size :: nat

definition memory_pool_init ::
  "memory_pool ptr \<Rightarrow> nat \<Rightarrow> nat \<Rightarrow> heap \<Rightarrow> (int \<times> memory_pool ptr \<times> heap) option" where
  "memory_pool_init poolp sz block_size h =
     (case poolp of
        None \<Rightarrow> Some (-1, poolp, h)
      | Some pool \<Rightarrow>
          if sz = 0 \<or> block_size = 0 then Some (-1, poolp, h)
          else
            let pool = pool\<lparr>total_size := sz, pblock_size := block_size, pused := 0\<rparr>;
                (m, h) = secure_alloc sz h;
                pool = pool\<lparr>pmemory := m\<rparr>
            in if m = NULL then Some (-1, Some pool, h)
               else
                 let num_blocks = sz div block_size;
                     pool = pool\<lparr>bitmap_size := (size_add num_blocks 7) div 8\<rparr>;
                     (b, h) = secure_alloc (bitmap_size pool) h;
                     pool = pool\<lparr>bitmap := b\<rparr>
                 in (case b of
                       None \<Rightarrow> do { h \<leftarrow> secure_free m sz h; Some (-1, Some pool, h) }
                     | Some a \<Rightarrow> do {
                         bm \<leftarrow> blocks h a;
                         bm \<leftarrow> wr_bytes bm 0 (replicate (bitmap_size pool) 0);
                         Some (0, Some pool, h\<lparr>blocks := (blocks h)(a \<mapsto> bm)\<rparr>) }))"

definition pool_zero :: memory_pool where
  "pool_zero = \<lparr>pmemory = NULL, total_size = 0, pused = 0, pblock_size = 0,
                bitmap = NULL, bitmap_size = 0\<rparr>"

definition memory_pool_destroy ::
  "memory_pool ptr \<Rightarrow> heap \<Rightarrow> (memory_pool ptr \<times> heap) option" where
  "memory_pool_destroy poolp h =
     (case poolp of
        None \<Rightarrow> Some (poolp, h)
      | Some pool \<Rightarrow> do {
          h \<leftarrow> (if pmemory pool \<noteq> NULL then secure_free (pmemory pool) (total_size pool) h
                 else Some h);
          h \<leftarrow> (if bitmap pool \<noteq> NULL then secure_free (bitmap pool) (bitmap_size pool) h
                 else Some h);
          Some (Some pool_zero, h) })"

text \<open>The search loop of \<open>memory_pool_alloc\<close>: the first block whose bit is clear.\<close>

function pool_scan ::
  "byte list \<Rightarrow> nat \<Rightarrow> nat \<Rightarrow> ((nat \<times> byte list) ptr) option" where
  "pool_scan bm i num_blocks =
     (if i < num_blocks then do {
        let byte_idx = i div 8;
        let bit_idx = i mod 8;
        v \<leftarrow> rd bm byte_idx;
        if v AND push_bit bit_idx 1 = 0 then do {
          bm \<leftarrow> wr bm byte_idx (v OR push_bit bit_idx 1);
          Some (Some (i, bm)) }
        else pool_scan bm (Suc i) num_blocks }
      else Some NULL)"
  by pat_completeness auto
termination
  by (relation "measure (\<lambda>(bm, i, n). n - i)") auto

declare pool_scan.simps [simp del]

definition memory_pool_alloc ::
  "memory_pool ptr \<Rightarrow> heap \<Rightarrow> ((nat \<times> nat) ptr \<times> memory_pool ptr \<times> heap) option" where
  "memory_pool_alloc poolp h =
     (case poolp of
        None \<Rightarrow> Some (NULL, poolp, h)
      | Some pool \<Rightarrow>
         (case pmemory pool of
            None \<Rightarrow> Some (NULL, poolp, h)
          | Some m \<Rightarrow>
              if pused pool \<ge> total_size pool then Some (NULL, poolp, h)
              else if pblock_size pool = 0 then None
              else if total_size pool div pblock_size pool = 0 then Some (NULL, poolp, h)
              else do {
                a \<leftarrow> bitmap pool;
                bm \<leftarrow> blocks h a;
                r \<leftarrow> pool_scan bm 0 (total_size pool div pblock_size pool);
                (case r of
                   None \<Rightarrow> Some (NULL, poolp, h)
                 | Some (i, bm) \<Rightarrow>
                     Some (Some (m, i * pblock_size pool),
                           Some (pool\<lparr>pused := size_add (pused pool) (pblock_size pool)\<rparr>),
                           h\<lparr>blocks := (blocks h)(a \<mapsto> bm)\<rparr>)) }))"

definition memory_pool_free ::
  "memory_pool ptr \<Rightarrow> (nat \<times> nat) ptr \<Rightarrow> heap \<Rightarrow> (memory_pool ptr \<times> heap) option" where
  "memory_pool_free poolp p h =
     (case (poolp, p) of
        (Some pool, Some (q, offset)) \<Rightarrow>
          if Some q \<noteq> pmemory pool \<or> offset \<ge> total_size pool then Some (poolp, h)
          else if pblock_size pool = 0 then None
          else if offset mod pblock_size pool \<noteq> 0 then Some (poolp, h)
          else do {
            let block_idx = offset div pblock_size pool;
            let byte_idx = block_idx div 8;
            let bit_idx = block_idx mod 8;
            a \<leftarrow> bitmap pool;
            bm \<leftarrow> blocks h a;
            v \<leftarrow> rd bm byte_idx;
            if v AND push_bit bit_idx 1 \<noteq> 0 then do {
              bm \<leftarrow> wr bm byte_idx (v AND NOT (push_bit bit_idx 1));
              let h = h\<lparr>blocks := (blocks h)(a \<mapsto> bm)\<rparr>;
              let pool = pool\<lparr>pused := size_sub (pused pool) (pblock_size pool)\<rparr>;
              mem \<leftarrow> blocks h q;
              mem \<leftarrow> wr_bytes mem offset (replicate (pblock_size pool) 0);
              Some (Some pool, h\<lparr>blocks := (blocks h)(q \<mapsto> mem)\<rparr>) }
            else Some (poolp, h) }
      | _ \<Rightarrow> Some (poolp, h))"

definition memory_pool_reset :: "memory_pool ptr \<Rightarrow> heap \<Rightarrow> (memory_pool ptr \<times> heap) option" where
  "memory_pool_reset poolp h =
     (case poolp of
        None \<Rightarrow> Some (poolp, h)
      | Some pool \<Rightarrow> do {
          a \<leftarrow> bitmap pool;
          bm \<leftarrow> blocks h a;
          bm \<leftarrow> wr_bytes bm 0 (replicate (bitmap_size pool) 0);
          let h = h\<lparr>blocks := (blocks h)(a \<mapsto> bm)\<rparr>;
          m \<leftarrow> pmemory pool;
          mem \<leftarrow> blocks h m;
          mem \<leftarrow> wr_bytes mem 0 (replicate (total_size pool) 0);
          Some (Some (pool\<lparr>pused := 0\<rparr>), h\<lparr>blocks := (blocks h)(m \<mapsto> mem)\<rparr>) })"

definition memory_pool_available :: "memory_pool ptr \<Rightarrow> nat" where
  "memory_pool_available poolp =
     (case poolp of None \<Rightarrow> 0 | Some pool \<Rightarrow> size_sub (total_size pool) (pused pool))"

definition memory_pool_used :: "memory_pool ptr \<Rightarrow> nat" where
  "memory_pool_used poolp = (case poolp of None \<Rightarrow> 0 | Some pool \<Rightarrow> pused pool)"

section \<open>What a pool represents\<close>

text \<open>
  The abstract state is the set of block numbers that are handed out. The invariant says
  that memory and bitmap are two live heap blocks of the recorded sizes, that no bit is set
  beyond the last block, and that \<open>used\<close> counts the bytes of the blocks handed out.
\<close>

definition bit_set :: "byte list \<Rightarrow> nat \<Rightarrow> bool" where
  "bit_set bm i \<longleftrightarrow> i div 8 < length bm \<and> bit (bm ! (i div 8)) (i mod 8)"

definition num_blocks :: "memory_pool \<Rightarrow> nat" where
  "num_blocks pool = total_size pool div pblock_size pool"

definition allocated :: "memory_pool \<Rightarrow> heap \<Rightarrow> nat set" where
  "allocated pool h =
     (case bitmap pool of
        None \<Rightarrow> {}
      | Some a \<Rightarrow> (case blocks h a of None \<Rightarrow> {} | Some bm \<Rightarrow> {i. i < num_blocks pool \<and> bit_set bm i}))"

definition pool_mem :: "memory_pool \<Rightarrow> heap \<Rightarrow> byte list" where
  "pool_mem pool h = the (blocks h (the (pmemory pool)))"

definition pool_ok :: "memory_pool \<Rightarrow> heap \<Rightarrow> bool" where
  "pool_ok pool h \<longleftrightarrow>
     (\<exists>m a mem bm. pmemory pool = Some m \<and> bitmap pool = Some a \<and> m \<noteq> a \<and>
        blocks h m = Some mem \<and> blocks h a = Some bm \<and>
        length mem = total_size pool \<and> total_size pool < 2 ^ 63 \<and>
        0 < pblock_size pool \<and> 0 < num_blocks pool \<and>
        length bm = bitmap_size pool \<and> bitmap_size pool = (num_blocks pool + 7) div 8 \<and>
        pused pool = pblock_size pool * card {i. i < num_blocks pool \<and> bit_set bm i})"

section \<open>Bitmaps\<close>

lemma and_bit_zero_iff: "(v :: byte) AND 2 ^ k = 0 \<longleftrightarrow> \<not> bit v k"
  by (simp add: and_exp_eq_0_iff_not_bit)

lemma bit_set_mark:
  assumes "k div 8 < length bm"
  shows "bit_set (bm[k div 8 := bm ! (k div 8) OR push_bit (k mod 8) 1]) j \<longleftrightarrow> j = k \<or> bit_set bm j"
proof -
  have "j = k \<longleftrightarrow> j div 8 = k div 8 \<and> j mod 8 = k mod 8"
    by (metis div_mod_decomp)
  with assms show ?thesis
    by (auto simp: bit_set_def nth_list_update bit_simps)
qed

lemma bit_set_clear:
  assumes "k div 8 < length bm"
  shows "bit_set (bm[k div 8 := bm ! (k div 8) AND NOT (push_bit (k mod 8) 1)]) j \<longleftrightarrow>
           j \<noteq> k \<and> bit_set bm j"
proof -
  have "j = k \<longleftrightarrow> j div 8 = k div 8 \<and> j mod 8 = k mod 8"
    by (metis div_mod_decomp)
  with assms show ?thesis
    by (auto simp: bit_set_def nth_list_update bit_simps)
qed

text \<open>The search returns the least clear bit, and nothing when all bits are set.\<close>

lemma pool_scan_correct:
  assumes "n \<le> 8 * length bm" "i \<le> n"
  shows "(\<forall>j. i \<le> j \<and> j < n \<longrightarrow> bit_set bm j) \<and> pool_scan bm i n = Some NULL \<or>
         (\<exists>k. i \<le> k \<and> k < n \<and> \<not> bit_set bm k \<and> (\<forall>j. i \<le> j \<and> j < k \<longrightarrow> bit_set bm j) \<and>
              pool_scan bm i n =
                Some (Some (k, bm[k div 8 := bm ! (k div 8) OR push_bit (k mod 8) 1])))"
  using assms
proof (induction bm i n rule: pool_scan.induct)
  case (1 bm i n)
  show ?case
  proof (cases "i < n")
    case False
    with 1 show ?thesis by (subst (1 2) pool_scan.simps) auto
  next
    case True
    with "1.prems" have idx: "i div 8 < length bm" by auto
    show ?thesis
    proof (cases "bit_set bm i")
      case False
      with idx True have "pool_scan bm i n =
          Some (Some (i, bm[i div 8 := bm ! (i div 8) OR push_bit (i mod 8) 1]))"
        by (subst pool_scan.simps) (simp add: rd_in wr_in and_bit_zero_iff bit_set_def Let_def)
      with True False show ?thesis by auto
    next
      case set: True
      with idx True have step: "pool_scan bm i n = pool_scan bm (Suc i) n"
        by (subst pool_scan.simps) (simp add: rd_in wr_in and_bit_zero_iff bit_set_def Let_def)
      have IH: "(\<forall>j. Suc i \<le> j \<and> j < n \<longrightarrow> bit_set bm j) \<and> pool_scan bm (Suc i) n = Some NULL \<or>
         (\<exists>k. Suc i \<le> k \<and> k < n \<and> \<not> bit_set bm k \<and> (\<forall>j. Suc i \<le> j \<and> j < k \<longrightarrow> bit_set bm j) \<and>
              pool_scan bm (Suc i) n =
                Some (Some (k, bm[k div 8 := bm ! (k div 8) OR push_bit (k mod 8) 1])))"
        by (rule "1.IH" [of "i div 8" "i mod 8" "bm ! (i div 8)"])
          (use True set idx "1.prems" in \<open>auto simp: rd_in and_bit_zero_iff bit_set_def\<close>)
      have from_i: "(i \<le> j \<and> j < b \<longrightarrow> bit_set bm j) \<longleftrightarrow> (Suc i \<le> j \<and> j < b \<longrightarrow> bit_set bm j)" for j b
        using set by (cases "j = i") auto
      show ?thesis
        unfolding step from_i using IH by (meson Suc_leD)
    qed
  qed
qed

section \<open>The contract of a slot allocator\<close>

text \<open>
  A client of the pool sees numbered slots: an allocation hands out a slot that is not in
  use, or NULL when all are, and freeing a slot's pointer makes it available again.
\<close>

locale slot_store =
  fixes alloc :: "'s \<Rightarrow> ('p ptr \<times> 's) option"
    and free :: "'p \<Rightarrow> 's \<Rightarrow> 's option"
    and inv :: "'s \<Rightarrow> bool"
    and slots :: "'s \<Rightarrow> nat set"
    and cap :: "'s \<Rightarrow> nat"
    and ptr_of :: "'s \<Rightarrow> nat \<Rightarrow> 'p"
  assumes slots_bounded: "inv s \<Longrightarrow> slots s \<subseteq> {..<cap s}"
    and ptr_inj: "inv s \<Longrightarrow> ptr_of s i = ptr_of s j \<Longrightarrow> i = j"
    and alloc_full: "inv s \<Longrightarrow> slots s = {..<cap s} \<Longrightarrow> alloc s = Some (NULL, s)"
    and alloc_free_slot: "inv s \<Longrightarrow> slots s \<noteq> {..<cap s} \<Longrightarrow>
        \<exists>i s'. alloc s = Some (Some (ptr_of s i), s') \<and> i < cap s \<and> i \<notin> slots s \<and> inv s' \<and>
               slots s' = insert i (slots s) \<and> cap s' = cap s \<and> ptr_of s' = ptr_of s"
    and free_slot: "inv s \<Longrightarrow> i \<in> slots s \<Longrightarrow>
        \<exists>s'. free (ptr_of s i) s = Some s' \<and> inv s' \<and> slots s' = slots s - {i} \<and>
             cap s' = cap s \<and> ptr_of s' = ptr_of s"

text \<open>\<open>n\<close> allocations in a row, collecting the pointers.\<close>

fun alloc_many :: "('s \<Rightarrow> ('p ptr \<times> 's) option) \<Rightarrow> nat \<Rightarrow> 's \<Rightarrow> ('p ptr list \<times> 's) option" where
  "alloc_many alloc 0 s = Some ([], s)"
| "alloc_many alloc (Suc n) s = do {
     (p, s) \<leftarrow> alloc s;
     (ps, s) \<leftarrow> alloc_many alloc n s;
     Some (p # ps, s) }"

context slot_store begin

lemma finite_slots: "inv s \<Longrightarrow> finite (slots s)"
  using slots_bounded finite_subset by blast

lemma card_slots_le: "inv s \<Longrightarrow> card (slots s) \<le> cap s"
  using slots_bounded [of s] by (metis card_lessThan card_mono finite_lessThan)

lemma alloc_many_distinct:
  assumes "inv s" "card (slots s) + n \<le> cap s"
  shows "\<exists>is s'. alloc_many alloc n s = Some (map (\<lambda>i. Some (ptr_of s i)) is, s') \<and> inv s' \<and>
           distinct is \<and> set is \<inter> slots s = {} \<and> slots s' = set is \<union> slots s \<and>
           length is = n \<and> cap s' = cap s \<and> ptr_of s' = ptr_of s"
  using assms
proof (induction n arbitrary: s)
  case 0
  then show ?case by simp
next
  case (Suc n)
  have "slots s \<noteq> {..<cap s}"
  proof
    assume "slots s = {..<cap s}"
    then have "card (slots s) = cap s" by simp
    with Suc.prems show False by simp
  qed
  then obtain i t where t: "alloc s = Some (Some (ptr_of s i), t)" "i \<notin> slots s" "inv t"
    "slots t = insert i (slots s)" "cap t = cap s" "ptr_of t = ptr_of s"
    using alloc_free_slot [OF Suc.prems(1)] by blast
  have "card (slots t) + n \<le> cap t"
    using t Suc.prems finite_slots by simp
  with Suc.IH [OF t(3)] obtain "is" s' where "is": "alloc_many alloc n t = Some (map (\<lambda>i. Some (ptr_of t i)) is, s')"
    "inv s'" "distinct is" "set is \<inter> slots t = {}" "slots s' = set is \<union> slots t" "length is = n"
    "cap s' = cap t" "ptr_of s' = ptr_of t"
    by blast
  show ?case
    by (rule exI [of _ "i # is"], rule exI [of _ s']) (use t "is" in simp)
qed

lemma exhausts:
  assumes "inv s"
  shows "\<exists>ps s'. alloc_many alloc (cap s - card (slots s)) s = Some (map Some ps, s') \<and>
           distinct ps \<and> length ps = cap s - card (slots s) \<and> alloc s' = Some (NULL, s')"
proof -
  obtain "is" s' where "is": "alloc_many alloc (cap s - card (slots s)) s = Some (map (\<lambda>i. Some (ptr_of s i)) is, s')"
    "inv s'" "distinct is" "set is \<inter> slots s = {}" "slots s' = set is \<union> slots s"
    "length is = cap s - card (slots s)" "cap s' = cap s"
    using alloc_many_distinct [OF assms, of "cap s - card (slots s)"] card_slots_le [OF assms]
    by (metis le_add_diff_inverse order_refl)
  have "card (slots s') = cap s'"
    using "is" card_slots_le [OF assms] finite_slots [OF assms]
    by (simp add: card_Un_disjoint distinct_card)
  then have "slots s' = {..<cap s'}"
    using slots_bounded [OF \<open>inv s'\<close>] by (metis card_lessThan card_subset_eq finite_lessThan)
  with "is" have "alloc s' = Some (NULL, s')"
    using alloc_full by blast
  moreover have "distinct (map (ptr_of s) is)"
    using "is"(3) ptr_inj [OF assms] by (simp add: distinct_map inj_on_def)
  ultimately show ?thesis
    using "is" by (intro exI [of _ "map (ptr_of s) is"] exI [of _ s']) simp
qed

lemma free_then_alloc:
  assumes "inv s" "i \<in> slots s"
  shows "\<exists>s1 j s2. free (ptr_of s i) s = Some s1 \<and> alloc s1 = Some (Some (ptr_of s j), s2) \<and>
           (j = i \<or> j \<notin> slots s) \<and> inv s2"
proof -
  obtain s1 where s1: "free (ptr_of s i) s = Some s1" "inv s1" "slots s1 = slots s - {i}"
    "cap s1 = cap s" "ptr_of s1 = ptr_of s"
    using free_slot [OF assms] by blast
  have "i \<in> {..<cap s1} - slots s1"
    using slots_bounded [OF assms(1)] assms(2) s1 by auto
  then have "slots s1 \<noteq> {..<cap s1}" by auto
  from alloc_free_slot [OF s1(2) this] s1 show ?thesis by auto
qed

end

section \<open>The code keeps the contract\<close>

type_synonym pool_state = "memory_pool \<times> heap"

definition pst_alloc :: "pool_state \<Rightarrow> ((nat \<times> nat) ptr \<times> pool_state) option" where
  "pst_alloc s = do {
     (p, pool, h) \<leftarrow> memory_pool_alloc (Some (fst s)) (snd s);
     pool \<leftarrow> pool;
     Some (p, pool, h) }"

definition pst_free :: "nat \<times> nat \<Rightarrow> pool_state \<Rightarrow> pool_state option" where
  "pst_free p s = do {
     (pool, h) \<leftarrow> memory_pool_free (Some (fst s)) (Some p) (snd s);
     pool \<leftarrow> pool;
     Some (pool, h) }"

definition pst_ptr :: "pool_state \<Rightarrow> nat \<Rightarrow> nat \<times> nat" where
  "pst_ptr s i = (the (pmemory (fst s)), i * pblock_size (fst s))"

abbreviation pst_ok :: "pool_state \<Rightarrow> bool" where
  "pst_ok s \<equiv> pool_ok (fst s) (snd s)"

abbreviation pst_slots :: "pool_state \<Rightarrow> nat set" where
  "pst_slots s \<equiv> allocated (fst s) (snd s)"

abbreviation pst_cap :: "pool_state \<Rightarrow> nat" where
  "pst_cap s \<equiv> num_blocks (fst s)"

lemma pool_okE:
  assumes "pool_ok pool h"
  obtains m a mem bm where
    "pmemory pool = Some m" "bitmap pool = Some a" "m \<noteq> a" "blocks h m = Some mem"
    "blocks h a = Some bm" "length mem = total_size pool" "total_size pool < 2 ^ 63"
    "0 < pblock_size pool" "0 < num_blocks pool" "length bm = bitmap_size pool"
    "bitmap_size pool = (num_blocks pool + 7) div 8"
    "allocated pool h = {i. i < num_blocks pool \<and> bit_set bm i}"
    "pused pool = pblock_size pool * card (allocated pool h)"
    "num_blocks pool \<le> 8 * length bm" "pblock_size pool * num_blocks pool \<le> total_size pool"
proof -
  from assms obtain m a mem bm where *:
    "pmemory pool = Some m" "bitmap pool = Some a" "m \<noteq> a" "blocks h m = Some mem"
    "blocks h a = Some bm" "length mem = total_size pool" "total_size pool < 2 ^ 63"
    "0 < pblock_size pool" "0 < num_blocks pool" "length bm = bitmap_size pool"
    "bitmap_size pool = (num_blocks pool + 7) div 8"
    "pused pool = pblock_size pool * card {i. i < num_blocks pool \<and> bit_set bm i}"
    unfolding pool_ok_def by blast
  moreover from * have "allocated pool h = {i. i < num_blocks pool \<and> bit_set bm i}"
    by (simp add: allocated_def)
  moreover from * have "num_blocks pool \<le> 8 * length bm" by linarith
  moreover have "pblock_size pool * num_blocks pool \<le> total_size pool"
    by (simp add: num_blocks_def)
  ultimately show ?thesis using that by auto
qed

lemma pool_used_less:
  assumes "pool_ok pool h" "allocated pool h \<noteq> {..<num_blocks pool}"
  shows "pused pool + pblock_size pool \<le> total_size pool" "pused pool < total_size pool"
proof -
  from assms(1) obtain bm where a: "allocated pool h = {i. i < num_blocks pool \<and> bit_set bm i}"
    and u: "pused pool = pblock_size pool * card (allocated pool h)"
    and b: "pblock_size pool * num_blocks pool \<le> total_size pool" "0 < pblock_size pool"
    by (rule pool_okE) blast
  have "allocated pool h \<subset> {..<num_blocks pool}"
    using a assms(2) by auto
  then have "Suc (card (allocated pool h)) \<le> num_blocks pool"
    by (metis Suc_leI card_lessThan finite_lessThan psubset_card_mono)
  then have "pblock_size pool * Suc (card (allocated pool h)) \<le> total_size pool"
    using b by (meson le_trans mult_le_mono2)
  with u b show "pused pool + pblock_size pool \<le> total_size pool" "pused pool < total_size pool"
    by auto
qed

lemma pool_used_le:
  assumes "pool_ok pool h"
  shows "pused pool \<le> total_size pool"
proof (cases "allocated pool h = {..<num_blocks pool}")
  case True
  have "pused pool = pblock_size pool * card (allocated pool h)"
    "pblock_size pool * num_blocks pool \<le> total_size pool"
    using assms by (rule pool_okE, simp)+
  with True show ?thesis by simp
next
  case False
  with pool_used_less(1) [OF assms] show ?thesis by simp
qed

lemma memory_pool_alloc_free_slot:
  assumes ok: "pool_ok pool h" and free: "allocated pool h \<noteq> {..<num_blocks pool}"
  shows "\<exists>i pool' h'. memory_pool_alloc (Some pool) h =
             Some (Some (the (pmemory pool), i * pblock_size pool), Some pool', h') \<and>
           i < num_blocks pool \<and> i \<notin> allocated pool h \<and> (\<forall>j < i. j \<in> allocated pool h) \<and>
           pool_ok pool' h' \<and> allocated pool' h' = insert i (allocated pool h) \<and>
           pool' = pool\<lparr>pused := pused pool + pblock_size pool\<rparr> \<and> pool_mem pool' h' = pool_mem pool h"
proof -
  from ok show ?thesis
  proof (rule pool_okE)
    fix m a mem bm
    assume p: "pmemory pool = Some m" "bitmap pool = Some a" "m \<noteq> a" "blocks h m = Some mem"
      "blocks h a = Some bm" "length mem = total_size pool" "total_size pool < 2 ^ 63"
      "0 < pblock_size pool" "0 < num_blocks pool" "length bm = bitmap_size pool"
      "bitmap_size pool = (num_blocks pool + 7) div 8"
      "allocated pool h = {i. i < num_blocks pool \<and> bit_set bm i}"
      "pused pool = pblock_size pool * card (allocated pool h)" "num_blocks pool \<le> 8 * length bm"
    let ?bm = "\<lambda>k. bm[k div 8 := bm ! (k div 8) OR push_bit (k mod 8) 1]"
    from pool_scan_correct [OF p(14), of 0] free p(12) obtain k where
      k: "k < num_blocks pool" "\<not> bit_set bm k" "\<forall>j < k. bit_set bm j"
         "pool_scan bm 0 (num_blocks pool) = Some (Some (k, ?bm k))"
      by auto
    let ?pool = "pool\<lparr>pused := pused pool + pblock_size pool\<rparr>"
    let ?h = "h\<lparr>blocks := (blocks h)(a \<mapsto> ?bm k)\<rparr>"
    have "k div 8 < length bm" using k p(14) by auto
    note bits = bit_set_mark [OF this]
    have alloc: "memory_pool_alloc (Some pool) h = Some (Some (m, k * pblock_size pool), Some ?pool, ?h)"
      using p k pool_used_less [OF ok free]
      by (simp add: memory_pool_alloc_def flip: num_blocks_def)
    have set: "{i. i < num_blocks pool \<and> bit_set (?bm k) i} = insert k (allocated pool h)"
      using k p(12) bits by auto
    have nb: "num_blocks ?pool = num_blocks pool" by (simp add: num_blocks_def)
    have "allocated ?pool ?h = insert k (allocated pool h)"
      using set p(2) nb by (simp add: allocated_def)
    moreover have "pool_ok ?pool ?h"
      unfolding pool_ok_def using p k set nb by (auto simp: p(12))
    moreover have "pool_mem ?pool ?h = pool_mem pool h"
      using p by (simp add: pool_mem_def)
    ultimately show ?thesis
      using alloc k p by (intro exI [of _ k] exI [of _ ?pool] exI [of _ ?h]) auto
  qed
qed

lemma memory_pool_alloc_full:
  assumes "pool_ok pool h" "allocated pool h = {..<num_blocks pool}"
  shows "memory_pool_alloc (Some pool) h = Some (NULL, Some pool, h)"
  using assms(1)
proof (rule pool_okE)
  fix m a mem bm
  assume p: "pmemory pool = Some m" "bitmap pool = Some a" "blocks h a = Some bm"
    "0 < pblock_size pool" "0 < num_blocks pool" "num_blocks pool \<le> 8 * length bm"
    "allocated pool h = {i. i < num_blocks pool \<and> bit_set bm i}"
  have "pool_scan bm 0 (num_blocks pool) = Some NULL"
    using pool_scan_correct [OF p(6), of 0] assms(2) p(7) by auto
  with p show ?thesis
    by (simp add: memory_pool_alloc_def num_blocks_def)
qed

lemma memory_pool_free_run:
  assumes "pmemory pool = Some m" "bitmap pool = Some a" "m \<noteq> a" "blocks h m = Some mem" "blocks h a = Some bm"
    and "length mem = total_size pool" "total_size pool < 2 ^ 63" "0 < pblock_size pool" "i div 8 < length bm" "bit_set bm i"
    and "i * pblock_size pool + pblock_size pool \<le> total_size pool" "pblock_size pool \<le> pused pool" "pused pool \<le> total_size pool"
  shows "memory_pool_free (Some pool) (Some (the (pmemory pool), i * pblock_size pool)) h =
    Some (Some (pool\<lparr>pused := pused pool - pblock_size pool\<rparr>),
      h\<lparr>blocks := (blocks h)(a \<mapsto> bm[i div 8 := bm ! (i div 8) AND NOT (push_bit (i mod 8) 1)],
        m \<mapsto> take (i * pblock_size pool) mem @ replicate (pblock_size pool) 0 @ drop (i * pblock_size pool + pblock_size pool) mem)\<rparr>)"
proof -
  have "size_sub (pused pool) (pblock_size pool) = pused pool - pblock_size pool"
    by (rule size_sub_id) (use assms(12) in simp, rule size_bound(1) [OF assms(13,7)])
  moreover have "i * pblock_size pool < total_size pool" using assms(8,11) by linarith
  moreover have "wr_bytes mem (i * pblock_size pool) (replicate (pblock_size pool) 0) =
      Some (take (i * pblock_size pool) mem @ replicate (pblock_size pool) 0 @ drop (i * pblock_size pool + pblock_size pool) mem)"
    using assms(6,11) by (simp add: wr_bytes_in)
  moreover have "bit (bm ! (i div 8)) (i mod 8)" using assms(10) by (simp add: bit_set_def)
  ultimately show ?thesis
    using assms(1-5,8,9) by (simp add: memory_pool_free_def rd_in wr_in and_bit_zero_iff Let_def)
qed

lemma memory_pool_free_slot:
  assumes ok: "pool_ok pool h" and i: "i \<in> allocated pool h"
  shows "\<exists>pool' h'. memory_pool_free (Some pool) (Some (the (pmemory pool), i * pblock_size pool)) h =
             Some (Some pool', h') \<and> pool_ok pool' h' \<and> allocated pool' h' = allocated pool h - {i} \<and>
           pool' = pool\<lparr>pused := pused pool - pblock_size pool\<rparr> \<and>
           pool_mem pool' h' = take (i * pblock_size pool) (pool_mem pool h) @
             replicate (pblock_size pool) 0 @ drop (i * pblock_size pool + pblock_size pool) (pool_mem pool h)"
  using ok
proof (rule pool_okE)
  fix m a mem bm
  assume p: "pmemory pool = Some m" "bitmap pool = Some a" "m \<noteq> a" "blocks h m = Some mem"
    "blocks h a = Some bm" "length mem = total_size pool" "total_size pool < 2 ^ 63"
    "0 < pblock_size pool" "0 < num_blocks pool" "length bm = bitmap_size pool"
    "bitmap_size pool = (num_blocks pool + 7) div 8"
    "allocated pool h = {i. i < num_blocks pool \<and> bit_set bm i}"
    "pused pool = pblock_size pool * card (allocated pool h)" "num_blocks pool \<le> 8 * length bm"
    "pblock_size pool * num_blocks pool \<le> total_size pool"
  let ?bs = "pblock_size pool"
  have ib: "i < num_blocks pool" "bit_set bm i" using i p(12) by auto
  then have idx: "i div 8 < length bm" using p(14) by auto
  have "?bs * Suc i \<le> ?bs * num_blocks pool" using ib by (intro mult_le_mono2) simp
  then have fits: "i * ?bs + ?bs \<le> total_size pool"
    using p(15) by (simp add: mult.commute)
  have fin: "finite (allocated pool h)" using p(12) by simp
  then have "card (allocated pool h) = Suc (card (allocated pool h - {i}))"
    using i by (rule card.remove)
  then have used: "pused pool = ?bs + ?bs * card (allocated pool h - {i})"
    using p(13) by simp
  let ?bm = "bm[i div 8 := bm ! (i div 8) AND NOT (push_bit (i mod 8) 1)]"
  let ?mem = "take (i * ?bs) mem @ replicate ?bs 0 @ drop (i * ?bs + ?bs) mem"
  let ?pool = "pool\<lparr>pused := pused pool - ?bs\<rparr>"
  let ?h = "h\<lparr>blocks := (blocks h)(a \<mapsto> ?bm, m \<mapsto> ?mem)\<rparr>"
  have run: "memory_pool_free (Some pool) (Some (the (pmemory pool), i * ?bs)) h = Some (Some ?pool, ?h)"
    by (rule memory_pool_free_run [OF p(1-8) idx ib(2) fits _ pool_used_le [OF ok]]) (use used in simp)
  have nb: "num_blocks ?pool = num_blocks pool" by (simp add: num_blocks_def)
  have set: "{j. j < num_blocks pool \<and> bit_set ?bm j} = allocated pool h - {i}"
    using p(12) bit_set_clear [OF idx] by auto
  have all: "allocated ?pool ?h = allocated pool h - {i}"
    using set nb p(2,3) by (simp add: allocated_def)
  have "pool_ok ?pool ?h"
    unfolding pool_ok_def nb
    by (rule exI [of _ m], rule exI [of _ a], rule exI [of _ ?mem], rule exI [of _ ?bm])
       (use p set used fits in \<open>simp add: mult.commute\<close>)
  with run all p show ?thesis
    by (intro exI [of _ ?pool] exI [of _ ?h]) (simp add: pool_mem_def)
qed

interpretation pool: slot_store pst_alloc pst_free pst_ok pst_slots pst_cap pst_ptr
proof unfold_locales
  fix s :: pool_state
  assume ok: "pst_ok s"
  then show "pst_slots s \<subseteq> {..<pst_cap s}"
    by (rule pool_okE) auto
  show "i = j" if "pst_ptr s i = pst_ptr s j" for i j
    using that ok by (auto simp: pst_ptr_def elim: pool_okE)
  show "pst_alloc s = Some (NULL, s)" if "pst_slots s = {..<pst_cap s}"
    using memory_pool_alloc_full [OF ok that] by (simp add: pst_alloc_def)
  show "\<exists>i s'. pst_alloc s = Some (Some (pst_ptr s i), s') \<and> i < pst_cap s \<and> i \<notin> pst_slots s \<and>
          pst_ok s' \<and> pst_slots s' = insert i (pst_slots s) \<and> pst_cap s' = pst_cap s \<and> pst_ptr s' = pst_ptr s"
    if "pst_slots s \<noteq> {..<pst_cap s}"
    using memory_pool_alloc_free_slot [OF ok that]
    by (fastforce simp: pst_alloc_def pst_ptr_def num_blocks_def)
  show "\<exists>s'. pst_free (pst_ptr s i) s = Some s' \<and> pst_ok s' \<and> pst_slots s' = pst_slots s - {i} \<and>
          pst_cap s' = pst_cap s \<and> pst_ptr s' = pst_ptr s"
    if "i \<in> pst_slots s" for i
    using memory_pool_free_slot [OF ok that]
    by (fastforce simp: pst_free_def pst_ptr_def num_blocks_def)
qed

section \<open>Initialisation and properties\<close>

lemma bit_set_zero: "\<not> bit_set (replicate n 0) i"
  by (simp add: bit_set_def)

lemma memory_pool_init_ok:
  assumes "heap_ok h" "0 < bs" "bs \<le> sz" "sz < 2 ^ 63"
    and "\<not> mfail h (next_addr h)" "\<not> mfail h (Suc (next_addr h))"
  shows "\<exists>pool' h'. memory_pool_init (Some pool) sz bs h = Some (0, Some pool', h') \<and>
           pool_ok pool' h' \<and> allocated pool' h' = {} \<and> num_blocks pool' = sz div bs \<and>
           total_size pool' = sz \<and> pblock_size pool' = bs"
proof -
  let ?n = "next_addr h" and ?nb = "sz div bs"
  have nb: "0 < ?nb" using assms(2,3) by (simp add: div_greater_zero_iff)
  have "?nb \<le> sz" by simp
  then have add: "size_add ?nb 7 = ?nb + 7" by (intro size_add_id size_bound(2) [OF _ assms(4)])
  let ?bl = "(?nb + 7) div 8"
  have bl: "0 < ?bl" using nb by linarith
  let ?pool = "pool\<lparr>total_size := sz, pblock_size := bs, pused := 0, pmemory := Some ?n,
                 bitmap_size := ?bl, bitmap := Some (Suc ?n)\<rparr>"
  let ?h = "h\<lparr>blocks := (blocks h)(?n \<mapsto> replicate sz 0, Suc ?n \<mapsto> replicate ?bl 0),
               next_addr := Suc (Suc ?n), locked := insert (Suc ?n) (insert ?n (locked h))\<rparr>"
  have run: "memory_pool_init (Some pool) sz bs h = Some (0, Some ?pool, ?h)"
    using assms nb bl add
    by (simp add: memory_pool_init_def secure_alloc_def Let_def wr_bytes_in fun_upd_idem_iff)
  have "num_blocks ?pool = ?nb" by (simp add: num_blocks_def)
  moreover have "allocated ?pool ?h = {}"
    by (simp add: allocated_def bit_set_zero)
  moreover have "pool_ok ?pool ?h"
    unfolding pool_ok_def
    by (rule exI [of _ ?n], rule exI [of _ "Suc ?n"])
       (use assms nb in \<open>simp add: num_blocks_def bit_set_zero\<close>)
  ultimately show ?thesis
    using run by (intro exI [of _ ?pool] exI [of _ ?h]) simp
qed

text \<open>
  A pool freshly initialised with \<open>sz\<close> bytes in blocks of \<open>bs\<close> serves exactly
  \<open>sz div bs\<close> allocations: all of them succeed with pairwise different pointers, and the
  next one returns NULL and changes nothing.
\<close>

theorem memory_pool_capacity:
  assumes "heap_ok h" "0 < bs" "bs \<le> sz" "sz < 2 ^ 63"
    and "\<not> mfail h (next_addr h)" "\<not> mfail h (Suc (next_addr h))"
  shows "\<exists>pool' h' ps s'. memory_pool_init (Some pool) sz bs h = Some (0, Some pool', h') \<and>
           alloc_many pst_alloc (sz div bs) (pool', h') = Some (map Some ps, s') \<and>
           distinct ps \<and> length ps = sz div bs \<and> pst_alloc s' = Some (NULL, s')"
proof -
  obtain pool' h' where i: "memory_pool_init (Some pool) sz bs h = Some (0, Some pool', h')"
    "pool_ok pool' h'" "allocated pool' h' = {}" "num_blocks pool' = sz div bs"
    using memory_pool_init_ok [OF assms] by blast
  then show ?thesis
    using pool.exhausts [of "(pool', h')"] by auto
qed

lemma memory_pool_capacity_witness:
  "\<exists>pool' h' ps s'. memory_pool_init (Some pool_zero) 10 4 (empty_heap (\<lambda>_. False)) = Some (0, Some pool', h') \<and>
     alloc_many pst_alloc 2 (pool', h') = Some (map Some ps, s') \<and>
     distinct ps \<and> length ps = 2 \<and> pst_alloc s' = Some (NULL, s')"
  using memory_pool_capacity [of "empty_heap (\<lambda>_. False)" 4 10 pool_zero, OF heap_ok_empty]
  by (simp add: empty_heap_def)

text \<open>
  C26. Allocation refines "take the least unused slot": it hands out the first block that is
  not in use, counts its bytes as used, and touches neither the other blocks nor the
  contents of the pool; when every block is in use it returns NULL.
\<close>

theorem memory_pool_alloc_refines:
  assumes "pool_ok pool h"
  shows "if allocated pool h = {..<num_blocks pool}
         then memory_pool_alloc (Some pool) h = Some (NULL, Some pool, h)
         else \<exists>pool' h'. let i = (LEAST j. j \<notin> allocated pool h) in
           memory_pool_alloc (Some pool) h =
             Some (Some (the (pmemory pool), i * pblock_size pool), Some pool', h') \<and>
           pool_ok pool' h' \<and> allocated pool' h' = insert i (allocated pool h) \<and>
           pused pool' = pused pool + pblock_size pool \<and> pool_mem pool' h' = pool_mem pool h"
proof (cases "allocated pool h = {..<num_blocks pool}")
  case True
  with memory_pool_alloc_full [OF assms] show ?thesis by simp
next
  case False
  from memory_pool_alloc_free_slot [OF assms False] obtain i pool' h' where
    a: "memory_pool_alloc (Some pool) h = Some (Some (the (pmemory pool), i * pblock_size pool), Some pool', h')"
    "i \<notin> allocated pool h" "\<forall>j < i. j \<in> allocated pool h" "pool_ok pool' h'"
    "allocated pool' h' = insert i (allocated pool h)"
    "pool' = pool\<lparr>pused := pused pool + pblock_size pool\<rparr>" "pool_mem pool' h' = pool_mem pool h"
    by blast
  then have "(LEAST j. j \<notin> allocated pool h) = i"
    by (intro Least_equality) (auto simp: not_less [symmetric])
  with a False show ?thesis
    by (simp add: Let_def)
qed

lemma small_pool:
  obtains pool h where
    "memory_pool_init (Some pool_zero) 10 4 (empty_heap (\<lambda>_. False)) = Some (0, Some pool, h)"
    "pool_ok pool h" "allocated pool h = {}" "num_blocks pool = 2" "pblock_size pool = 4"
    "allocated pool h \<noteq> {..<num_blocks pool}"
proof -
  obtain pool h where
    p: "memory_pool_init (Some pool_zero) 10 4 (empty_heap (\<lambda>_. False)) = Some (0, Some pool, h)"
    "pool_ok pool h" "allocated pool h = {}" "num_blocks pool = 2" "pblock_size pool = 4"
    using memory_pool_init_ok [of "empty_heap (\<lambda>_. False)" 4 10 pool_zero, OF heap_ok_empty]
    by (auto simp: empty_heap_def)
  have "(0 :: nat) \<in> {..<2}" by simp
  with p have "allocated pool h \<noteq> {..<num_blocks pool}" by (metis empty_iff)
  with p show ?thesis by (rule that)
qed

lemma memory_pool_alloc_refines_witness:
  "\<exists>pool h pool' h'. pool_ok pool h \<and> memory_pool_alloc (Some pool) h =
     Some (Some (the (pmemory pool), 0), Some pool', h') \<and> pool_ok pool' h' \<and> allocated pool' h' = {0}"
proof -
  obtain pool h where p: "pool_ok pool h" "allocated pool h = {}"
    "allocated pool h \<noteq> {..<num_blocks pool}"
    by (rule small_pool)
  have "(LEAST j. j \<notin> allocated pool h) = 0" using p(2) by simp
  with memory_pool_alloc_refines [OF p(1)] p(3) have
    "\<exists>pool' h'. memory_pool_alloc (Some pool) h =
       Some (Some (the (pmemory pool), 0), Some pool', h') \<and> pool_ok pool' h' \<and>
       allocated pool' h' = insert 0 (allocated pool h)"
    by (auto simp: Let_def)
  with p(1,2) show ?thesis by auto
qed

text \<open>
  C27. Freeing a pointer that the pool handed out makes exactly that block available again,
  subtracts its bytes and wipes its contents with zeroes, leaving all other bytes.
\<close>

theorem memory_pool_free_refines:
  assumes "pool_ok pool h" and "i \<in> allocated pool h"
  shows "\<exists>pool' h'. memory_pool_free (Some pool) (Some (the (pmemory pool), i * pblock_size pool)) h =
             Some (Some pool', h') \<and> pool_ok pool' h' \<and> allocated pool' h' = allocated pool h - {i} \<and>
           memory_pool_available (Some pool') = memory_pool_available (Some pool) + pblock_size pool \<and>
           pool_mem pool' h' = take (i * pblock_size pool) (pool_mem pool h) @
             replicate (pblock_size pool) 0 @ drop (i * pblock_size pool + pblock_size pool) (pool_mem pool h)"
proof -
  from memory_pool_free_slot [OF assms] obtain pool' h' where
    f: "memory_pool_free (Some pool) (Some (the (pmemory pool), i * pblock_size pool)) h = Some (Some pool', h')"
    "pool_ok pool' h'" "allocated pool' h' = allocated pool h - {i}"
    "pool' = pool\<lparr>pused := pused pool - pblock_size pool\<rparr>"
    "pool_mem pool' h' = take (i * pblock_size pool) (pool_mem pool h) @
       replicate (pblock_size pool) 0 @ drop (i * pblock_size pool + pblock_size pool) (pool_mem pool h)"
    by blast
  have used: "pused pool = pblock_size pool * card (allocated pool h)" "finite (allocated pool h)"
    "total_size pool < 2 ^ 63"
    using assms(1) by (rule pool_okE, simp)+
  then have "1 \<le> card (allocated pool h)"
    using assms(2) by (metis One_nat_def Suc_leI card_gt_0_iff empty_iff)
  with used have "pblock_size pool \<le> pused pool" by simp
  moreover have "pused pool \<le> total_size pool" by (rule pool_used_le [OF assms(1)])
  moreover have "total_size pool < 2 ^ 64" by (rule size_bound(1) [OF order_refl used(3)])
  ultimately have "memory_pool_available (Some pool') = memory_pool_available (Some pool) + pblock_size pool"
    by (simp add: memory_pool_available_def f(4))
  with f show ?thesis by blast
qed

lemma memory_pool_free_refines_witness:
  "\<exists>pool h pool' h'. pool_ok pool h \<and> 0 \<in> allocated pool h \<and>
     memory_pool_free (Some pool) (Some (the (pmemory pool), 0 * pblock_size pool)) h = Some (Some pool', h') \<and>
     allocated pool' h' = {}"
proof -
  obtain pool h where p: "pool_ok pool h" "allocated pool h = {}"
    "allocated pool h \<noteq> {..<num_blocks pool}"
    by (rule small_pool)
  from memory_pool_alloc_free_slot [OF p(1,3)] obtain i pool1 h1 where
    "pool_ok pool1 h1" "allocated pool1 h1 = {i}" "i \<notin> allocated pool h" "\<forall>j < i. j \<in> allocated pool h"
    using p(2) by auto
  with p(2) have q: "pool_ok pool1 h1" "allocated pool1 h1 = {0}" by auto
  with memory_pool_free_refines [of pool1 h1 0] show ?thesis by auto
qed

text \<open>
  When the pool is smaller than one block, \<open>memory_pool_init\<close> fails after it has
  released the pool's memory but keeps the stale pointer, so that the \<open>memory_pool_destroy\<close>
  that a caller would use for cleaning up frees the block a second time.
\<close>

theorem memory_pool_init_dangling:
  assumes "0 < sz" "sz < bs" "\<not> mfail h (next_addr h)"
  shows "\<exists>pool' h'. memory_pool_init (Some pool) sz bs h = Some (-1, Some pool', h') \<and>
           pmemory pool' = Some (next_addr h) \<and> blocks h' (next_addr h) = None \<and>
           memory_pool_destroy (Some pool') h' = None"
proof -
  let ?n = "next_addr h"
  let ?pool = "pool\<lparr>total_size := sz, pblock_size := bs, pused := 0, pmemory := Some ?n,
                 bitmap_size := 0, bitmap := NULL\<rparr>"
  let ?h = "h\<lparr>blocks := (blocks h)(?n := None), next_addr := Suc ?n,
              locked := locked h - {?n}, released := replicate sz 0 # released h\<rparr>"
  have "memory_pool_init (Some pool) sz bs h = Some (-1, Some ?pool, ?h)"
    using assms by (simp add: memory_pool_init_def secure_alloc_def Let_def size_add_def
        secure_free_live [where b = "replicate sz 0"])
  moreover have "memory_pool_destroy (Some ?pool) ?h = None"
    using assms by (simp add: memory_pool_destroy_def secure_free_def)
  ultimately show ?thesis
    by (intro exI [of _ ?pool] exI [of _ ?h]) simp
qed

lemma memory_pool_init_dangling_witness:
  "\<exists>pool' h'. memory_pool_init (Some pool_zero) 4 8 (empty_heap (\<lambda>_. False)) = Some (-1, Some pool', h') \<and>
     memory_pool_destroy (Some pool') h' = None"
  using memory_pool_init_dangling [of 4 8 "empty_heap (\<lambda>_. False)" pool_zero]
  by (auto simp: empty_heap_def)

end
