(* ===== verification/Axon_Context.thy ===== *)
theory Axon_Context
  imports Axon_Prelude
begin

text \<open>
  The connection context of \<open>core/include/context.h\<close> and \<open>core/source/context.c\<close>, and the protocol
  constants of \<open>core/include/constants.h\<close>. The struct is a record whose array fields are
  lists; \<open>context_ok\<close> states their lengths. The messages of the handshake are collected in a
  fixed buffer; \<open>transcript\<close> is its used part.
\<close>

section \<open>Protocol constants\<close>

definition TLS_VERSION_MAJOR :: byte where "TLS_VERSION_MAJOR = 0x03"
definition TLS_VERSION_MINOR :: byte where "TLS_VERSION_MINOR = 0x04"

definition TLS_HANDSHAKE_CLIENT_HELLO :: byte where "TLS_HANDSHAKE_CLIENT_HELLO = 0x01"
definition TLS_HANDSHAKE_SERVER_HELLO :: byte where "TLS_HANDSHAKE_SERVER_HELLO = 0x02"
definition TLS_HANDSHAKE_ENCRYPTED_EXTENSIONS :: byte where "TLS_HANDSHAKE_ENCRYPTED_EXTENSIONS = 0x08"
definition TLS_HANDSHAKE_CERTIFICATE :: byte where "TLS_HANDSHAKE_CERTIFICATE = 0x0B"
definition TLS_HANDSHAKE_CERTIFICATE_VERIFY :: byte where "TLS_HANDSHAKE_CERTIFICATE_VERIFY = 0x0F"
definition TLS_HANDSHAKE_FINISHED :: byte where "TLS_HANDSHAKE_FINISHED = 0x14"

definition TLS_CONTENT_ALERT :: byte where "TLS_CONTENT_ALERT = 0x15"
definition TLS_CONTENT_HANDSHAKE :: byte where "TLS_CONTENT_HANDSHAKE = 0x16"
definition TLS_CONTENT_APPLICATION_DATA :: byte where "TLS_CONTENT_APPLICATION_DATA = 0x17"

definition TLS_ALERT_LEVEL_FATAL :: byte where "TLS_ALERT_LEVEL_FATAL = 0x02"

definition TLS_EXTENSION_KEY_SHARE :: u16 where "TLS_EXTENSION_KEY_SHARE = 0x0022"

definition TLS_CIPHER_AES_128_GCM_SHA256 :: u16 where "TLS_CIPHER_AES_128_GCM_SHA256 = 0x1301"
definition TLS_CIPHER_AES_256_GCM_SHA384 :: u16 where "TLS_CIPHER_AES_256_GCM_SHA384 = 0x1302"
definition TLS_CIPHER_CHACHA20_POLY1305 :: u16 where "TLS_CIPHER_CHACHA20_POLY1305 = 0x1303"

lemmas message_type_defs =
  TLS_HANDSHAKE_CLIENT_HELLO_def TLS_HANDSHAKE_SERVER_HELLO_def
  TLS_HANDSHAKE_ENCRYPTED_EXTENSIONS_def TLS_HANDSHAKE_CERTIFICATE_def
  TLS_HANDSHAKE_CERTIFICATE_VERIFY_def TLS_HANDSHAKE_FINISHED_def

lemmas content_type_defs =
  TLS_CONTENT_ALERT_def TLS_CONTENT_HANDSHAKE_def TLS_CONTENT_APPLICATION_DATA_def

lemmas cipher_defs =
  TLS_CIPHER_AES_128_GCM_SHA256_def TLS_CIPHER_AES_256_GCM_SHA384_def TLS_CIPHER_CHACHA20_POLY1305_def

section \<open>The context\<close>

record axon_context =
  client_random :: "byte list"
  server_random :: "byte list"
  session_id :: "byte list"
  master_secret :: "byte list"
  handshake_hash :: "byte list"
  client_pubkey :: "byte list"
  server_privkey :: "byte list"
  server_public_key :: "byte list"
  shared_secret :: "byte list"
  write_key :: "byte list"
  read_key :: "byte list"
  write_iv :: "byte list"
  read_iv :: "byte list"
  sequence_number :: u64
  handshake_buffer :: "byte list"
  buffer_offset :: nat
  messages_received :: u32
  handshake_done :: byte
  alert_triggered :: byte
  cipher_suite :: u16
  key_phase :: byte

text \<open>The struct after its bytes have been set to zero.\<close>

definition zero_context :: axon_context where
  "zero_context =
     \<lparr>client_random = replicate 32 0, server_random = replicate 32 0, session_id = replicate 32 0,
      master_secret = replicate 48 0, handshake_hash = replicate 32 0, client_pubkey = replicate 32 0,
      server_privkey = replicate 32 0, server_public_key = replicate 32 0,
      shared_secret = replicate 32 0, write_key = replicate 32 0, read_key = replicate 32 0,
      write_iv = replicate 12 0, read_iv = replicate 12 0, sequence_number = 0,
      handshake_buffer = replicate 8192 0, buffer_offset = 0, messages_received = 0,
      handshake_done = 0, alert_triggered = 0, cipher_suite = 0, key_phase = 0\<rparr>"

definition axon_context_init :: "axon_context \<Rightarrow> axon_context" where
  "axon_context_init ctx = zero_context\<lparr>cipher_suite := TLS_CIPHER_AES_128_GCM_SHA256\<rparr>"

definition axon_context_wipe :: "axon_context ptr \<Rightarrow> axon_context ptr" where
  "axon_context_wipe ctxp = (case ctxp of None \<Rightarrow> NULL | Some ctx \<Rightarrow> Some zero_context)"

definition axon_context_update_hash ::
  "axon_context ptr \<Rightarrow> byte list ptr \<Rightarrow> nat \<Rightarrow> axon_context ptr option" where
  "axon_context_update_hash ctxp datap len =
     (case (ctxp, datap) of
        (Some ctx, Some data) \<Rightarrow>
          if len = 0 then Some ctxp
          else if size_add (buffer_offset ctx) len \<le> 8192 then do {
            d \<leftarrow> rd_bytes data 0 len;
            buf \<leftarrow> wr_bytes (handshake_buffer ctx) (buffer_offset ctx) d;
            Some (Some (ctx\<lparr>handshake_buffer := buf, buffer_offset := buffer_offset ctx + len\<rparr>)) }
          else Some ctxp
      | _ \<Rightarrow> Some ctxp)"

section \<open>Well-formed contexts\<close>

definition context_ok :: "axon_context \<Rightarrow> bool" where
  "context_ok ctx \<longleftrightarrow>
     length (client_random ctx) = 32 \<and> length (server_random ctx) = 32 \<and>
     length (session_id ctx) = 32 \<and> length (master_secret ctx) = 48 \<and>
     length (handshake_hash ctx) = 32 \<and> length (client_pubkey ctx) = 32 \<and>
     length (server_privkey ctx) = 32 \<and> length (server_public_key ctx) = 32 \<and>
     length (shared_secret ctx) = 32 \<and>
     length (write_key ctx) = 32 \<and> length (read_key ctx) = 32 \<and>
     length (write_iv ctx) = 12 \<and> length (read_iv ctx) = 12 \<and>
     length (handshake_buffer ctx) = 8192 \<and> buffer_offset ctx \<le> 8192"

lemma context_ok_zero [simp]: "context_ok zero_context"
  by (simp add: context_ok_def zero_context_def)

lemma zero_context_simps [simp]:
  "client_random zero_context = replicate 32 0" "server_random zero_context = replicate 32 0"
  "server_privkey zero_context = replicate 32 0" "session_id zero_context = replicate 32 0"
  "master_secret zero_context = replicate 48 0" "handshake_hash zero_context = replicate 32 0"
  "client_pubkey zero_context = replicate 32 0" "server_public_key zero_context = replicate 32 0"
  "shared_secret zero_context = replicate 32 0" "messages_received zero_context = 0"
  "write_key zero_context = replicate 32 0" "read_key zero_context = replicate 32 0"
  "write_iv zero_context = replicate 12 0" "read_iv zero_context = replicate 12 0"
  "sequence_number zero_context = 0" "buffer_offset zero_context = 0"
  "handshake_buffer zero_context = replicate 8192 0"
  by (simp_all add: zero_context_def)

lemma context_ok_init [simp]: "context_ok (axon_context_init ctx)"
  by (simp add: context_ok_def zero_context_def axon_context_init_def)

definition transcript :: "axon_context \<Rightarrow> byte list" where
  "transcript ctx = take (buffer_offset ctx) (handshake_buffer ctx)"

lemma length_transcript [simp]: "context_ok ctx \<Longrightarrow> length (transcript ctx) = buffer_offset ctx"
  by (simp add: transcript_def context_ok_def)

section \<open>The transcript is a bounded log\<close>

text \<open>
  The contract of a log with a capacity: an entry that fits is appended, an entry that
  does not fit leaves the log as it is.
\<close>

locale bounded_log =
  fixes add :: "'s \<Rightarrow> byte list \<Rightarrow> 's"
    and contents :: "'s \<Rightarrow> byte list"
    and ok :: "'s \<Rightarrow> bool"
    and cap :: nat
  assumes ok_add: "ok s \<Longrightarrow> ok (add s d)"
    and add_fits: "ok s \<Longrightarrow> length (contents s) + length d \<le> cap \<Longrightarrow> contents (add s d) = contents s @ d"
    and add_full: "ok s \<Longrightarrow> cap < length (contents s) + length d \<Longrightarrow> add s d = s"
    and cap_bound: "ok s \<Longrightarrow> length (contents s) \<le> cap"
begin

lemma ok_adds: "ok s \<Longrightarrow> ok (foldl add s ds)"
  by (induction ds arbitrary: s) (simp_all add: ok_add)

lemma adds_fit:
  "ok s \<Longrightarrow> length (contents s) + length (concat ds) \<le> cap \<Longrightarrow>
    contents (foldl add s ds) = contents s @ concat ds"
  by (induction ds arbitrary: s) (simp_all add: ok_add add_fits)

text \<open>Entries are dropped whole: the log always holds the concatenation of some of them, in order.\<close>

lemma adds_subseq:
  "ok s \<Longrightarrow> \<exists>es. set es \<subseteq> set ds \<and> length es \<le> length ds \<and> contents (foldl add s ds) = contents s @ concat es"
proof (induction ds arbitrary: s)
  case Nil
  then show ?case by (intro exI [of _ "[]"]) simp
next
  case (Cons d ds)
  from Cons.IH [OF ok_add [OF Cons.prems, of d]]
  obtain es where es: "set es \<subseteq> set ds" "length es \<le> length ds"
    "contents (foldl add (add s d) ds) = contents (add s d) @ concat es" by blast
  show ?case
  proof (cases "length (contents s) + length d \<le> cap")
    case True
    with es Cons.prems show ?thesis by (intro exI [of _ "d # es"]) (auto simp: add_fits)
  next
    case False
    with es Cons.prems show ?thesis by (intro exI [of _ es]) (auto simp: add_full)
  qed
qed

end

definition log_add :: "axon_context \<Rightarrow> byte list \<Rightarrow> axon_context" where
  "log_add ctx d =
     (if buffer_offset ctx + length d \<le> 8192
      then ctx\<lparr>handshake_buffer := take (buffer_offset ctx) (handshake_buffer ctx) @ d @
                 drop (buffer_offset ctx + length d) (handshake_buffer ctx),
               buffer_offset := buffer_offset ctx + length d\<rparr>
      else ctx)"

lemma update_hash_eq:
  assumes "context_ok ctx" "len \<le> length data" "len < 2 ^ 63"
  shows "axon_context_update_hash (Some ctx) (Some data) len = Some (Some (log_add ctx (take len data)))"
proof -
  have "(8192 :: nat) + 2 ^ 63 < 2 ^ 64" by simp
  then have "size_add (buffer_offset ctx) len = buffer_offset ctx + len"
    using assms by (intro size_add_id) (auto simp: context_ok_def)
  with assms show ?thesis
    by (simp add: axon_context_update_hash_def log_add_def access_simps context_ok_def min_absorb2)
qed

interpretation tlog: bounded_log log_add transcript context_ok 8192
proof unfold_locales
  show "context_ok (log_add ctx d)" if "context_ok ctx" for ctx d
    using that by (simp add: context_ok_def log_add_def)
  show "transcript (log_add ctx d) = transcript ctx @ d"
    if "context_ok ctx" "length (transcript ctx) + length d \<le> 8192" for ctx d
    using that by (simp add: transcript_def log_add_def context_ok_def)
  show "log_add ctx d = ctx" if "context_ok ctx" "8192 < length (transcript ctx) + length d" for ctx d
    using that by (simp add: log_add_def)
  show "length (transcript ctx) \<le> 8192" if "context_ok ctx" for ctx
    using that by (simp add: context_ok_def transcript_def)
qed

text \<open>Everything except the log is untouched.\<close>

lemma log_add_fields [simp]:
  "client_random (log_add ctx d) = client_random ctx"
  "server_random (log_add ctx d) = server_random ctx"
  "session_id (log_add ctx d) = session_id ctx"
  "master_secret (log_add ctx d) = master_secret ctx"
  "client_pubkey (log_add ctx d) = client_pubkey ctx"
  "server_privkey (log_add ctx d) = server_privkey ctx"
  "server_public_key (log_add ctx d) = server_public_key ctx"
  "shared_secret (log_add ctx d) = shared_secret ctx"
  "write_key (log_add ctx d) = write_key ctx" "read_key (log_add ctx d) = read_key ctx"
  "write_iv (log_add ctx d) = write_iv ctx" "read_iv (log_add ctx d) = read_iv ctx"
  "sequence_number (log_add ctx d) = sequence_number ctx"
  "messages_received (log_add ctx d) = messages_received ctx"
  "handshake_done (log_add ctx d) = handshake_done ctx"
  "cipher_suite (log_add ctx d) = cipher_suite ctx"
  by (simp_all add: log_add_def)

text \<open>
  A message that fits into the 8192-byte buffer is recorded behind the transcript so far, and
  a message that does not fit is silently left out whole: a hash of the transcript
  then does not cover it.
\<close>

theorem transcript_update:
  assumes "context_ok ctx" "length m < 2 ^ 63"
  shows "\<exists>ctx'. axon_context_update_hash (Some ctx) (Some m) (length m) = Some (Some ctx') \<and> context_ok ctx' \<and>
           transcript ctx' =
             (if length (transcript ctx) + length m \<le> 8192 then transcript ctx @ m else transcript ctx)"
  using assms update_hash_eq [OF assms(1) order_refl assms(2)] tlog.ok_add [OF assms(1)]
    tlog.add_fits [OF assms(1)] tlog.add_full [OF assms(1)]
  by (auto simp: not_le)

lemma transcript_zero [simp]: "transcript zero_context = []"
  by (simp add: transcript_def zero_context_def)

lemma transcript_update_witness:
  "\<exists>ctx'. axon_context_update_hash (Some zero_context) (Some (replicate 9000 1)) 9000 = Some (Some ctx') \<and>
     context_ok ctx' \<and> transcript ctx' = []"
  using transcript_update [of zero_context "replicate 9000 1"] by simp

end
