(* ===== verification/Axon_State.thy ===== *)
theory Axon_State
  imports Axon_Context
begin

text \<open>
  The protocol states of \<open>core/include/state.h\<close> and \<open>core/source/state.c\<close>: the transition function,
  the table of transitions that the code calls valid, and the names of the states. The machine
  looks at the context pointer only to see whether it is NULL.
\<close>

section \<open>The code\<close>

datatype axon_state =
    STATE_INIT
  | STATE_WAITING_CLIENT_HELLO
  | STATE_SENT_SERVER_HELLO
  | STATE_SENT_ENCRYPTED_EXTENSIONS
  | STATE_SENT_CERTIFICATE
  | STATE_SENT_CERTIFICATE_VERIFY
  | STATE_SENT_FINISHED
  | STATE_WAITING_FINISHED
  | STATE_HANDSHAKE_COMPLETE
  | STATE_ALERT_SENT
  | STATE_ERROR

fun axon_state_step :: "axon_state \<Rightarrow> byte \<Rightarrow> axon_state" where
  "axon_state_step STATE_INIT m =
     (if m = TLS_HANDSHAKE_CLIENT_HELLO then STATE_WAITING_CLIENT_HELLO else STATE_ALERT_SENT)"
| "axon_state_step STATE_WAITING_CLIENT_HELLO m =
     (if m = TLS_HANDSHAKE_SERVER_HELLO then STATE_SENT_SERVER_HELLO else STATE_ALERT_SENT)"
| "axon_state_step STATE_SENT_SERVER_HELLO m =
     (if m = TLS_HANDSHAKE_ENCRYPTED_EXTENSIONS then STATE_SENT_ENCRYPTED_EXTENSIONS else STATE_ALERT_SENT)"
| "axon_state_step STATE_SENT_ENCRYPTED_EXTENSIONS m =
     (if m = TLS_HANDSHAKE_CERTIFICATE then STATE_SENT_CERTIFICATE else STATE_ALERT_SENT)"
| "axon_state_step STATE_SENT_CERTIFICATE m =
     (if m = TLS_HANDSHAKE_CERTIFICATE_VERIFY then STATE_SENT_CERTIFICATE_VERIFY else STATE_ALERT_SENT)"
| "axon_state_step STATE_SENT_CERTIFICATE_VERIFY m =
     (if m = TLS_HANDSHAKE_FINISHED then STATE_SENT_FINISHED else STATE_ALERT_SENT)"
| "axon_state_step STATE_SENT_FINISHED m =
     (if m = TLS_HANDSHAKE_FINISHED then STATE_HANDSHAKE_COMPLETE else STATE_ALERT_SENT)"
| "axon_state_step STATE_HANDSHAKE_COMPLETE m =
     (if m = TLS_CONTENT_APPLICATION_DATA then STATE_HANDSHAKE_COMPLETE else STATE_ALERT_SENT)"
| "axon_state_step STATE_WAITING_FINISHED m = STATE_ERROR"
| "axon_state_step STATE_ALERT_SENT m = STATE_ERROR"
| "axon_state_step STATE_ERROR m = STATE_ERROR"

definition axon_state_machine :: "axon_context ptr \<Rightarrow> axon_state \<Rightarrow> byte \<Rightarrow> axon_state" where
  "axon_state_machine ctx current message_type =
     (case ctx of None \<Rightarrow> STATE_ERROR | Some _ \<Rightarrow> axon_state_step current message_type)"

fun axon_state_to_string :: "axon_state \<Rightarrow> string" where
  "axon_state_to_string STATE_INIT = ''INIT''"
| "axon_state_to_string STATE_WAITING_CLIENT_HELLO = ''WAITING_CLIENT_HELLO''"
| "axon_state_to_string STATE_SENT_SERVER_HELLO = ''SENT_SERVER_HELLO''"
| "axon_state_to_string STATE_SENT_ENCRYPTED_EXTENSIONS = ''SENT_ENCRYPTED_EXTENSIONS''"
| "axon_state_to_string STATE_SENT_CERTIFICATE = ''SENT_CERTIFICATE''"
| "axon_state_to_string STATE_SENT_CERTIFICATE_VERIFY = ''SENT_CERTIFICATE_VERIFY''"
| "axon_state_to_string STATE_SENT_FINISHED = ''SENT_FINISHED''"
| "axon_state_to_string STATE_HANDSHAKE_COMPLETE = ''HANDSHAKE_COMPLETE''"
| "axon_state_to_string STATE_ALERT_SENT = ''ALERT_SENT''"
| "axon_state_to_string STATE_ERROR = ''ERROR''"
| "axon_state_to_string STATE_WAITING_FINISHED = ''UNKNOWN''"

fun axon_state_is_valid_transition :: "axon_state \<Rightarrow> axon_state \<Rightarrow> bool" where
  "axon_state_is_valid_transition STATE_INIT to = (to = STATE_WAITING_CLIENT_HELLO)"
| "axon_state_is_valid_transition STATE_WAITING_CLIENT_HELLO to =
     (to = STATE_SENT_SERVER_HELLO \<or> to = STATE_ALERT_SENT)"
| "axon_state_is_valid_transition STATE_SENT_SERVER_HELLO to =
     (to = STATE_SENT_ENCRYPTED_EXTENSIONS \<or> to = STATE_ALERT_SENT)"
| "axon_state_is_valid_transition STATE_SENT_ENCRYPTED_EXTENSIONS to =
     (to = STATE_SENT_CERTIFICATE \<or> to = STATE_ALERT_SENT)"
| "axon_state_is_valid_transition STATE_SENT_CERTIFICATE to =
     (to = STATE_SENT_CERTIFICATE_VERIFY \<or> to = STATE_ALERT_SENT)"
| "axon_state_is_valid_transition STATE_SENT_CERTIFICATE_VERIFY to =
     (to = STATE_SENT_FINISHED \<or> to = STATE_ALERT_SENT)"
| "axon_state_is_valid_transition STATE_SENT_FINISHED to =
     (to = STATE_HANDSHAKE_COMPLETE \<or> to = STATE_ALERT_SENT)"
| "axon_state_is_valid_transition STATE_HANDSHAKE_COMPLETE to =
     (to = STATE_HANDSHAKE_COMPLETE \<or> to = STATE_ALERT_SENT)"
| "axon_state_is_valid_transition STATE_WAITING_FINISHED to = False"
| "axon_state_is_valid_transition STATE_ALERT_SENT to = False"
| "axon_state_is_valid_transition STATE_ERROR to = False"

section \<open>Machines that follow a script\<close>

text \<open>
  The contract of a protocol machine: in each state it needs a list of further messages to complete (None when it cannot any more), a needed
  message is consumed, any other makes completion impossible, and once nothing is needed
  only the messages of \<open>keep\<close> leave it complete.
\<close>

locale scripted_machine =
  fixes step :: "'s \<Rightarrow> byte \<Rightarrow> 's"
    and need :: "'s \<Rightarrow> byte list option"
    and keep :: "byte \<Rightarrow> bool"
  assumes need_step: "need (step s m) =
     (case need s of
        None \<Rightarrow> None
      | Some [] \<Rightarrow> if keep m then Some [] else None
      | Some (e # es) \<Rightarrow> if m = e then Some es else None)"
begin

lemma dead_run: "need s = None \<Longrightarrow> need (foldl step s ms) = None"
  by (induction ms arbitrary: s) (simp_all add: need_step)

lemma done_run: "need s = Some [] \<Longrightarrow> need (foldl step s ms) = (if list_all keep ms then Some [] else None)"
proof (induction ms arbitrary: s)
  case (Cons m ms)
  then show ?case by (cases "keep m") (simp_all add: need_step dead_run)
qed simp

text \<open>A run completes exactly when it starts with what is needed and goes on with messages that may follow.\<close>

lemma run_complete:
  "need s = Some es \<Longrightarrow>
    need (foldl step s ms) = Some [] \<longleftrightarrow> (\<exists>ks. ms = es @ ks \<and> list_all keep ks)"
proof (induction es arbitrary: s ms)
  case Nil
  then show ?case by (simp add: done_run)
next
  case (Cons e es)
  show ?case
  proof (cases ms)
    case Nil
    with Cons.prems show ?thesis by simp
  next
    case (Cons m ms')
    show ?thesis
    proof (cases "m = e")
      case True
      with \<open>need s = Some (e # es)\<close> have "need (step s m) = Some es" by (simp add: need_step)
      from Cons.IH [OF this, of ms'] show ?thesis using Cons True by simp
    next
      case False
      with \<open>need s = Some (e # es)\<close> have "need (step s m) = None" by (simp add: need_step)
      from dead_run [OF this, of ms'] show ?thesis using Cons False by simp
    qed
  qed
qed

end

section \<open>Runs of the machine\<close>

lemma machine_Some [simp]: "axon_state_machine (Some ctx) s m = axon_state_step s m"
  by (simp add: axon_state_machine_def)

text \<open>The messages of a full handshake, in the order of the protocol.\<close>

definition handshake_order :: "byte list" where
  "handshake_order =
     [TLS_HANDSHAKE_CLIENT_HELLO, TLS_HANDSHAKE_SERVER_HELLO, TLS_HANDSHAKE_ENCRYPTED_EXTENSIONS,
      TLS_HANDSHAKE_CERTIFICATE, TLS_HANDSHAKE_CERTIFICATE_VERIFY, TLS_HANDSHAKE_FINISHED,
      TLS_HANDSHAKE_FINISHED]"

text \<open>What is still needed in each state to complete the handshake; None where it is impossible.\<close>

fun remaining :: "axon_state \<Rightarrow> byte list option" where
  "remaining STATE_INIT = Some handshake_order"
| "remaining STATE_WAITING_CLIENT_HELLO = Some (drop 1 handshake_order)"
| "remaining STATE_SENT_SERVER_HELLO = Some (drop 2 handshake_order)"
| "remaining STATE_SENT_ENCRYPTED_EXTENSIONS = Some (drop 3 handshake_order)"
| "remaining STATE_SENT_CERTIFICATE = Some (drop 4 handshake_order)"
| "remaining STATE_SENT_CERTIFICATE_VERIFY = Some (drop 5 handshake_order)"
| "remaining STATE_SENT_FINISHED = Some (drop 6 handshake_order)"
| "remaining STATE_HANDSHAKE_COMPLETE = Some []"
| "remaining STATE_WAITING_FINISHED = None"
| "remaining STATE_ALERT_SENT = None"
| "remaining STATE_ERROR = None"

interpretation axon: scripted_machine axon_state_step remaining "\<lambda>m. m = TLS_CONTENT_APPLICATION_DATA"
proof unfold_locales
  fix s m
  show "remaining (axon_state_step s m) =
     (case remaining s of
        None \<Rightarrow> None
      | Some [] \<Rightarrow> if m = TLS_CONTENT_APPLICATION_DATA then Some [] else None
      | Some (e # es) \<Rightarrow> if m = e then Some es else None)"
    by (cases s) (simp_all add: handshake_order_def)
qed

lemma remaining_complete: "remaining s = Some [] \<longleftrightarrow> s = STATE_HANDSHAKE_COMPLETE"
  by (cases s) (simp_all add: handshake_order_def)

lemma foldl_machine [simp]: "foldl (axon_state_machine (Some ctx)) s ms = foldl axon_state_step s ms"
  by (induction ms arbitrary: s) simp_all

lemma list_all_eq: "list_all (\<lambda>x. x = a) xs \<longleftrightarrow> (\<exists>n. xs = replicate n a)"
proof (induction xs)
  case (Cons x xs)
  have "(\<exists>n. x # xs = replicate n a) \<longleftrightarrow> x = a \<and> (\<exists>n. xs = replicate n a)"
    by (metis list.inject replicate_Suc replicate_empty not0_implies_Suc list.distinct(1))
  with Cons show ?case by simp
qed simp

lemma machine_completes:
  "foldl axon_state_step STATE_INIT ms = STATE_HANDSHAKE_COMPLETE \<longleftrightarrow>
     (\<exists>n. ms = handshake_order @ replicate n TLS_CONTENT_APPLICATION_DATA)"
  using axon.run_complete [of STATE_INIT handshake_order ms] by (auto simp: remaining_complete list_all_eq)

text \<open>
  C28. Starting from \<open>STATE_INIT\<close>, the machine is in \<open>STATE_HANDSHAKE_COMPLETE\<close> after a sequence of
  messages exactly when that sequence is the whole handshake in the order of the protocol
  followed by application data only. No message can be skipped, repeated or reordered, and
  nothing leads back after an alert.
\<close>

theorem state_machine_complete_iff:
  "foldl (axon_state_machine (Some ctx)) STATE_INIT ms = STATE_HANDSHAKE_COMPLETE \<longleftrightarrow>
     (\<exists>n. ms = [TLS_HANDSHAKE_CLIENT_HELLO, TLS_HANDSHAKE_SERVER_HELLO,
                TLS_HANDSHAKE_ENCRYPTED_EXTENSIONS, TLS_HANDSHAKE_CERTIFICATE,
                TLS_HANDSHAKE_CERTIFICATE_VERIFY, TLS_HANDSHAKE_FINISHED, TLS_HANDSHAKE_FINISHED]
               @ replicate n TLS_CONTENT_APPLICATION_DATA)"
  by (simp add: machine_completes handshake_order_def)

text \<open>
  The table of valid transitions against the machine: a transition that the machine can make
  from a non-NULL context is in the table, except the alert in \<open>STATE_INIT\<close> and the
  fall into \<open>STATE_ERROR\<close>; and every transition of the table is made for some message.
\<close>

theorem state_machine_table:
  "(\<exists>m. axon_state_machine (Some ctx) s m = t) \<longleftrightarrow>
     axon_state_is_valid_transition s t \<or>
     s = STATE_INIT \<and> t = STATE_ALERT_SENT \<or>
     s \<in> {STATE_WAITING_FINISHED, STATE_ALERT_SENT, STATE_ERROR} \<and> t = STATE_ERROR"
proof -
  have other: "\<exists>m :: byte. m \<noteq> k" for k
    by (rule exI [of _ "k + 1"]) simp
  show ?thesis
    by (cases s) (auto simp: other split: if_splits)
qed

end
