(* ===== verification/Axon_Cipher.thy ===== *)
theory Axon_Cipher
  imports Axon_Prelude
begin

text \<open>
  The two interfaces the ciphers are used through: a stream cipher, which XORs its input
  with a keystream that depends only on key material and position, and authenticated
  encryption, which the record layer frames as ciphertext followed by a 16-byte tag.
\<close>

section \<open>Stream ciphers\<close>

text \<open>Key and nonce, brought to the lengths the code reads.\<close>

definition pad_to :: "nat \<Rightarrow> byte list \<Rightarrow> byte list" where
  "pad_to n xs = take n (xs @ replicate n 0)"

lemma length_pad_to [simp]: "length (pad_to n xs) = n"
  by (simp add: pad_to_def)

lemma pad_to_id: "length xs = n \<Longrightarrow> pad_to n xs = xs"
  by (simp add: pad_to_def)

locale keystream_cipher =
  fixes crypt :: "'k \<Rightarrow> byte list \<Rightarrow> byte list"
    and stream :: "'k \<Rightarrow> nat \<Rightarrow> byte list"
  assumes crypt_stream: "crypt k xs = xor_bytes xs (stream k (length xs))"
    and stream_length: "length (stream k n) = n"
    and stream_prefix: "m \<le> n \<Longrightarrow> take m (stream k n) = stream k m"
begin

lemma crypt_length: "length (crypt k xs) = length xs"
  by (simp add: crypt_stream stream_length)

lemma crypt_involution: "crypt k (crypt k xs) = xs"
  by (simp add: crypt_stream stream_length)

lemma crypt_take: "take m (crypt k xs) = crypt k (take m xs)"
  by (cases "m \<le> length xs")
    (simp_all add: crypt_stream take_xor_bytes stream_prefix stream_length)

lemma crypt_inj: "length xs = length ys \<Longrightarrow> crypt k xs = crypt k ys \<longleftrightarrow> xs = ys"
  by (metis crypt_involution)

text \<open>Two messages under the same key material reveal their difference.\<close>

lemma crypt_reuse:
  assumes "length xs = length ys"
  shows "xor_bytes (crypt k xs) (crypt k ys) = xor_bytes xs ys"
proof -
  have "xor_bytes (xor_bytes xs s) (xor_bytes ys s) = xor_bytes xs ys" if "length s = length ys" for s
    using assms that
    by (intro nth_equalityI) (auto simp: ac_simps)
  then show ?thesis
    using assms by (simp add: crypt_stream stream_length)
qed

lemma known_plaintext: "xor_bytes xs (crypt k xs) = stream k (length xs)"
  by (simp add: crypt_stream stream_length)

end

section \<open>Authenticated encryption\<close>

text \<open>
  \<open>open_ct k n c t\<close> returns the status and the plaintext that was written. The key and the
  nonce range over the lengths that \<open>valid\<close> admits.
\<close>

locale aead =
  fixes seal :: "byte list \<Rightarrow> byte list \<Rightarrow> byte list \<Rightarrow> byte list \<times> byte list"
    and open_ct :: "byte list \<Rightarrow> byte list \<Rightarrow> byte list \<Rightarrow> byte list \<Rightarrow> int \<times> byte list"
    and valid :: "byte list \<Rightarrow> byte list \<Rightarrow> bool"
  assumes seal_length: "valid k n \<Longrightarrow> seal k n p = (c, t) \<Longrightarrow> length c = length p \<and> length t = 16"
    and open_seal: "valid k n \<Longrightarrow> seal k n p = (c, t) \<Longrightarrow> open_ct k n c t = (0, p)"
begin

text \<open>A fragment is the ciphertext followed by the tag; the receiver splits it again.\<close>

lemma frame_roundtrip:
  assumes "valid k n" "seal k n p = (c, t)" "frag = c @ t"
  shows "open_ct k n (take (length frag - 16) frag) (drop (length frag - 16) frag) = (0, p)"
    and "length frag = length p + 16"
  using seal_length [OF assms(1,2)] open_seal [OF assms(1,2)] assms(3) by simp_all

lemma seal_inj:
  assumes "valid k n" "seal k n p = seal k n q"
  shows "p = q"
  using open_seal [OF assms(1)] assms(2) by (metis prod.exhaust snd_conv)

end

end
