(* ===== verification/Axon_AesGcm.thy ===== *)
theory Axon_AesGcm
  imports Axon_Cipher
begin

text \<open>
  \<open>crypto/source/aes_gcm.c\<close>. The file has the structure of AES-GCM (counter mode, a hash
  over the ciphertext and the lengths, a tag masked with a block for the nonce), but its
  block cipher is XOR with the key and its field multiplication is XOR. The model follows
  the code; what that means for secrecy and authenticity is stated as theorems.

  Keys have at least 16 bytes and nonces 12; a message is the list of its bytes.
\<close>

section \<open>The code\<close>

definition aes_encrypt_block :: "byte list \<Rightarrow> byte list \<Rightarrow> byte list" where
  "aes_encrypt_block key input = xor_bytes (take 16 key) (take 16 input)"

definition gcm_multiply :: "byte list \<Rightarrow> byte list \<Rightarrow> byte list" where
  "gcm_multiply x y = xor_bytes (take 16 x) (take 16 y)"

text \<open>
  The loop of \<open>gcm_ghash\<close>: \<open>temp\<close> is not cleared between blocks, so a short last block is
  completed with the bytes of the block before it.
\<close>

function ghash_loop :: "byte list \<Rightarrow> byte list \<Rightarrow> byte list \<Rightarrow> byte list" where
  "ghash_loop temp hash data =
     (if data = [] then hash
      else let temp = take 16 data @ drop (length (take 16 data)) temp
           in ghash_loop temp (gcm_multiply hash temp) (drop 16 data))"
  by pat_completeness auto
termination
  by (relation "measure (\<lambda>(temp, hash, data). length data)") auto

declare ghash_loop.simps [simp del]

definition gcm_ghash :: "byte list \<Rightarrow> byte list \<Rightarrow> byte list \<Rightarrow> byte list" where
  "gcm_ghash hash h data = ghash_loop (replicate 16 0) hash data"

definition gcm_inc32 :: "byte list \<Rightarrow> byte list" where
  "gcm_inc32 counter =
     (let c = be32 (counter ! 12) (counter ! 13) (counter ! 14) (counter ! 15);
          c = c + 1
      in counter[12 := byte_at 24 c, 13 := byte_at 16 c, 14 := byte_at 8 c, 15 := byte_at 0 c])"

text \<open>The loop of \<open>aes_gcm_encrypt\<close> over the blocks of the plaintext.\<close>

function gcm_encrypt_loop :: "byte list \<Rightarrow> byte list \<Rightarrow> byte list \<Rightarrow> byte list" where
  "gcm_encrypt_loop key counter pt =
     (if pt = [] then []
      else let mask = aes_encrypt_block key counter
           in xor_bytes (take 16 pt) mask @ gcm_encrypt_loop key (gcm_inc32 counter) (drop 16 pt))"
  by pat_completeness auto
termination
  by (relation "measure (\<lambda>(key, counter, pt). length pt)") auto

declare gcm_encrypt_loop.simps [simp del]

text \<open>
  The loop of \<open>aes_gcm_decrypt\<close>: \<open>blk\<close> is \<open>i / 16\<close>. It reloads the nonce and sets only the
  last counter byte in each turn; bytes 12 to 14 are what \<open>gcm_inc32\<close> left there.
\<close>

function gcm_decrypt_loop ::
  "byte list \<Rightarrow> byte list \<Rightarrow> byte list \<Rightarrow> nat \<Rightarrow> byte list \<Rightarrow> byte list" where
  "gcm_decrypt_loop key iv counter blk ct =
     (if ct = [] then []
      else let counter = take 12 iv @ drop 12 counter;
               counter = counter[15 := of_nat (blk + 1)];
               mask = aes_encrypt_block key counter
           in xor_bytes (take 16 ct) mask @
              gcm_decrypt_loop key iv (gcm_inc32 counter) (Suc blk) (drop 16 ct))"
  by pat_completeness auto
termination
  by (relation "measure (\<lambda>(key, iv, counter, blk, ct). length ct)") auto

declare gcm_decrypt_loop.simps [simp del]

text \<open>
  The tag, which both functions compute with the same statements: hash of the first (at
  most 16) bytes of the associated data, of the ciphertext and of the two bit lengths,
  masked with the encrypted nonce. \<open>aad\<close> may be NULL with any \<open>aad_len\<close>.
\<close>

definition len_bytes :: "nat \<Rightarrow> byte list" where
  "len_bytes n = [of_nat (n * 8 div 2 ^ 24), of_nat (n * 8 div 2 ^ 16),
                  of_nat (n * 8 div 2 ^ 8), of_nat (n * 8)]"

definition gcm_tag ::
  "byte list \<Rightarrow> byte list \<Rightarrow> byte list ptr \<Rightarrow> nat \<Rightarrow> byte list \<Rightarrow> byte list option" where
  "gcm_tag key iv aad aad_len ct = do {
     let h = aes_encrypt_block key (replicate 16 0);
     let hash = replicate 16 0;
     hash \<leftarrow> (case aad of
                None \<Rightarrow> Some hash
              | Some a \<Rightarrow>
                  if aad_len > 0 then do {
                    a16 \<leftarrow> rd_bytes a 0 (if aad_len < 16 then aad_len else 16);
                    Some (gcm_ghash hash h (a16 @ drop (length a16) (replicate 16 0))) }
                  else Some hash);
     let hash = gcm_ghash hash h ct;
     let len_block = len_bytes aad_len @ len_bytes (length ct) @ replicate 8 0;
     let hash = gcm_ghash hash h len_block;
     let auth_key = take 12 iv @ replicate 4 0;
     let auth_key = auth_key[15 := 0];
     let auth_key = aes_encrypt_block key auth_key;
     Some (xor_bytes hash auth_key) }"

definition aes_gcm_encrypt ::
  "byte list ptr \<Rightarrow> byte list ptr \<Rightarrow> byte list ptr \<Rightarrow> byte list ptr \<Rightarrow> nat \<Rightarrow>
   byte list ptr \<Rightarrow> nat ptr \<Rightarrow> byte list ptr \<Rightarrow>
   (int \<times> byte list ptr \<times> nat ptr \<times> byte list ptr) option" where
  "aes_gcm_encrypt keyp ivp plaintextp aad aad_len ciphertextp ct_lenp tagp =
     (case (keyp, ivp, plaintextp, ciphertextp, ct_lenp, tagp) of
        (Some key, Some iv, Some plaintext, Some ciphertext, Some ct_len, Some tag) \<Rightarrow> do {
          let counter = (take 12 iv @ replicate 4 0)[15 := 1];
          let ct = gcm_encrypt_loop key counter plaintext;
          ciphertext \<leftarrow> wr_bytes ciphertext 0 ct;
          t \<leftarrow> gcm_tag key iv aad aad_len (take (length plaintext) ciphertext);
          tag \<leftarrow> wr_bytes tag 0 t;
          Some (0, Some ciphertext, Some (length plaintext), Some tag) }
      | _ \<Rightarrow> Some (-1, ciphertextp, ct_lenp, tagp))"

definition aes_gcm_decrypt ::
  "byte list ptr \<Rightarrow> byte list ptr \<Rightarrow> byte list ptr \<Rightarrow> byte list ptr \<Rightarrow> nat \<Rightarrow>
   byte list ptr \<Rightarrow> nat ptr \<Rightarrow> byte list ptr \<Rightarrow>
   (int \<times> byte list ptr \<times> nat ptr) option" where
  "aes_gcm_decrypt keyp ivp ciphertextp aad aad_len plaintextp pt_lenp tagp =
     (case (keyp, ivp, ciphertextp, plaintextp, pt_lenp, tagp) of
        (Some key, Some iv, Some ciphertext, Some plaintext, Some pt_len, Some tag) \<Rightarrow> do {
          let pt = gcm_decrypt_loop key iv (replicate 16 0) 0 ciphertext;
          plaintext \<leftarrow> wr_bytes plaintext 0 pt;
          computed_tag \<leftarrow> gcm_tag key iv aad aad_len ciphertext;
          t \<leftarrow> rd_bytes tag 0 16;
          Some (if t \<noteq> take 16 computed_tag then -1 else 0,
                Some plaintext, Some (length ciphertext)) }
      | _ \<Rightarrow> Some (-1, plaintextp, pt_lenp))"

section \<open>Counter blocks\<close>

definition word_bytes :: "u32 \<Rightarrow> byte list" where
  "word_bytes c = [byte_at 24 c, byte_at 16 c, byte_at 8 c, byte_at 0 c]"

definition ctr_block :: "byte list \<Rightarrow> nat \<Rightarrow> byte list" where
  "ctr_block iv n = take 12 iv @ word_bytes (of_nat n)"

lemma length_word_bytes [simp]: "length (word_bytes c) = 4"
  by (simp add: word_bytes_def)

lemma be32_bytes: "be32 (byte_at 24 v) (byte_at 16 v) (byte_at 8 v) (byte_at 0 v) = v"
  by (rule bit_word_eqI)
     (simp only: be32_def bit_or_iff bit_push_byte bit_low_byte, auto)

lemma ctr_block_length [simp]: "length iv = 12 \<Longrightarrow> length (ctr_block iv n) = 16"
  by (simp add: ctr_block_def)

lemma inc32_ctr_block:
  assumes "length iv = 12"
  shows "gcm_inc32 (ctr_block iv n) = ctr_block iv (Suc n)"
  using assms
  by (simp add: gcm_inc32_def ctr_block_def word_bytes_def Let_def nth_append be32_bytes
      list_update_append add.commute)

lemma byte_at_0_of_nat: "byte_at 0 (of_nat n :: u32) = of_nat n"
proof (rule bit_word_eqI)
  fix i assume "i < LENGTH(8)"
  then show "bit (byte_at 0 (of_nat n :: u32)) i \<longleftrightarrow> bit (of_nat n :: byte) i"
    by (simp add: bit_byte_at bit_of_nat_iff)
qed

lemma init_ctr_block:
  assumes "length iv = 12"
  shows "(take 12 iv @ replicate 4 0)[15 := 1] = ctr_block iv 1"
  using assms by (simp add: ctr_block_def word_bytes_def list_update_append numeral_eq_Suc byte_at_def)

section \<open>The keystream\<close>

function gcm_stream :: "byte list \<Rightarrow> byte list \<Rightarrow> nat \<Rightarrow> nat \<Rightarrow> byte list" where
  "gcm_stream key iv c n =
     (if n = 0 then []
      else take n (aes_encrypt_block key (ctr_block iv c)) @ gcm_stream key iv (Suc c) (n - 16))"
  by pat_completeness auto
termination
  by (relation "measure (\<lambda>(key, iv, c, n). n)") auto

declare gcm_stream.simps [simp del]

lemma length_aes_block [simp]:
  "16 \<le> length key \<Longrightarrow> length iv = 12 \<Longrightarrow> length (aes_encrypt_block key (ctr_block iv c)) = 16"
  by (simp add: aes_encrypt_block_def)

lemma length_gcm_stream:
  assumes "16 \<le> length key" "length iv = 12"
  shows "length (gcm_stream key iv c n) = n"
  using assms by (induction key iv c n rule: gcm_stream.induct) (subst gcm_stream.simps, auto)

lemma take_gcm_stream:
  assumes "16 \<le> length key" "length iv = 12" "m \<le> n"
  shows "take m (gcm_stream key iv c n) = gcm_stream key iv c m"
  using assms
proof (induction key iv c n arbitrary: m rule: gcm_stream.induct)
  case (1 key iv c n)
  show ?case
  proof (cases "m = 0 \<or> n = 0")
    case True
    with 1 show ?thesis by (auto simp: gcm_stream.simps [of _ _ _ 0])
  next
    case False
    have "take (m - 16) (gcm_stream key iv (Suc c) (n - 16)) = gcm_stream key iv (Suc c) (m - 16)"
      by (rule "1.IH") (use False "1.prems" in auto)
    with False "1.prems" show ?thesis
      by (subst (1 2) gcm_stream.simps) (auto simp: min_def)
  qed
qed

lemma xor_first_block:
  assumes "length b = 16"
  shows "xor_bytes (take 16 xs) b @ xor_bytes (drop 16 xs) ys = xor_bytes xs (take (length xs) b @ ys)"
proof -
  have "xor_bytes xs (take (length xs) b @ ys) =
      xor_bytes (take 16 xs @ drop 16 xs) (take (length xs) b @ ys)" by simp
  also have "\<dots> = xor_bytes (take 16 xs) (take (length xs) b) @ xor_bytes (drop 16 xs) ys"
    by (rule xor_bytes_append) (use assms in simp)
  also have "xor_bytes (take 16 xs) (take (length xs) b) = xor_bytes (take 16 xs) b"
    using assms by (intro nth_equalityI) auto
  finally show ?thesis by simp
qed

lemma gcm_encrypt_loop_stream:
  assumes "16 \<le> length key" "length iv = 12"
  shows "gcm_encrypt_loop key (ctr_block iv c) pt = xor_bytes pt (gcm_stream key iv c (length pt))"
proof (induction "length pt" arbitrary: c pt rule: less_induct)
  case less
  show ?case
  proof (cases "pt = []")
    case True
    then show ?thesis by (simp add: gcm_encrypt_loop.simps)
  next
    case False
    with less [of "drop 16 pt" "Suc c"] assms show ?thesis
      by (subst gcm_encrypt_loop.simps, subst gcm_stream.simps)
         (simp add: Let_def inc32_ctr_block xor_first_block)
  qed
qed

text \<open>
  The decryption loop sees the same counter blocks: when bytes 12 to 14 are those of the
  counter value, setting byte 15 completes it, and \<open>gcm_inc32\<close> prepares the next ones.
\<close>

definition ctr_high :: "nat \<Rightarrow> byte list \<Rightarrow> bool" where
  "ctr_high n counter \<longleftrightarrow> length counter = 16 \<and>
     take 3 (drop 12 counter) = take 3 (word_bytes (of_nat n))"

lemma length_4_cases: "length xs = 4 \<Longrightarrow> \<exists>a b c d. xs = [a, b, c, d]"
  by (auto simp: numeral_eq_Suc length_Suc_conv)

lemma reload_ctr_block:
  assumes "ctr_high n counter" "length iv = 12"
  shows "(take 12 iv @ drop 12 counter)[15 := of_nat n] = ctr_block iv n"
proof -
  have "length (drop 12 counter) = 4" using assms by (simp add: ctr_high_def)
  then obtain a b c d where "drop 12 counter = [a, b, c, d]"
    using length_4_cases by blast
  with assms show ?thesis
    by (simp add: ctr_high_def ctr_block_def word_bytes_def byte_at_0_of_nat list_update_append numeral_eq_Suc)
qed

lemma ctr_high_block: "length iv = 12 \<Longrightarrow> ctr_high n (ctr_block iv n)"
  by (simp add: ctr_high_def ctr_block_def)

lemma gcm_decrypt_loop_eq:
  assumes "length iv = 12" "ctr_high (Suc blk) counter"
  shows "gcm_decrypt_loop key iv counter blk ct = gcm_encrypt_loop key (ctr_block iv (Suc blk)) ct"
  using assms(2)
proof (induction "length ct" arbitrary: counter blk ct rule: less_induct)
  case less
  show ?case
  proof (cases "ct = []")
    case True
    then show ?thesis by (simp add: gcm_encrypt_loop.simps gcm_decrypt_loop.simps)
  next
    case False
    have next_high: "ctr_high (Suc (Suc blk)) (gcm_inc32 (ctr_block iv (Suc blk)))"
      using assms(1) by (simp add: inc32_ctr_block ctr_high_block)
    have "gcm_decrypt_loop key iv (gcm_inc32 (ctr_block iv (Suc blk))) (Suc blk) (drop 16 ct) =
        gcm_encrypt_loop key (ctr_block iv (Suc (Suc blk))) (drop 16 ct)"
      by (rule less.hyps) (use False next_high in auto)
    moreover have "(take 12 iv @ drop 12 counter)[15 := of_nat (blk + 1)] = ctr_block iv (Suc blk)"
      using reload_ctr_block [OF less.prems assms(1)] by simp
    ultimately show ?thesis
      using False assms(1)
      by (subst gcm_encrypt_loop.simps, subst gcm_decrypt_loop.simps)
         (simp only: Let_def inc32_ctr_block if_False)
  qed
qed

lemma ctr_high_zero: "ctr_high (Suc 0) (replicate 16 0)"
  by (simp add: ctr_high_def word_bytes_def numeral_eq_Suc byte_at_def)

section \<open>The counter mode is a stream cipher\<close>

type_synonym gcm_key = "byte list \<times> byte list"

definition gcm_crypt :: "gcm_key \<Rightarrow> byte list \<Rightarrow> byte list" where
  "gcm_crypt k pt = gcm_encrypt_loop (pad_to 32 (fst k)) (ctr_block (pad_to 12 (snd k)) 1) pt"

definition gcm_keystream :: "gcm_key \<Rightarrow> nat \<Rightarrow> byte list" where
  "gcm_keystream k n = gcm_stream (pad_to 32 (fst k)) (pad_to 12 (snd k)) 1 n"

interpretation gcm_ctr: keystream_cipher gcm_crypt gcm_keystream
  by unfold_locales
     (simp_all add: gcm_crypt_def gcm_keystream_def gcm_encrypt_loop_stream
        length_gcm_stream take_gcm_stream)

section \<open>The hash is the XOR of the blocks\<close>

lemma length_gcm_multiply [simp]: "length (gcm_multiply x y) = min (min 16 (length x)) (min 16 (length y))"
  by (simp add: gcm_multiply_def min.commute)

lemma length_ghash_loop:
  "length temp = 16 \<Longrightarrow> length hash = 16 \<Longrightarrow> length (ghash_loop temp hash data) = 16"
proof (induction temp hash data rule: ghash_loop.induct)
  case (1 temp hash data)
  then show ?case
    by (subst ghash_loop.simps) (auto simp: Let_def)
qed

lemma length_gcm_ghash [simp]: "length hash = 16 \<Longrightarrow> length (gcm_ghash hash h data) = 16"
  by (simp add: gcm_ghash_def length_ghash_loop)

lemma ghash_loop_block:
  assumes "length b = 16" "length hash = 16" "length temp = 16"
  shows "ghash_loop temp hash (b @ rest) = ghash_loop b (xor_bytes hash b) rest"
proof -
  have "b \<noteq> []" using assms(1) by auto
  with assms show ?thesis
    by (subst ghash_loop.simps) (simp add: Let_def gcm_multiply_def)
qed

text \<open>With whole blocks, the value of \<open>temp\<close> that is carried along does not matter.\<close>

lemma ghash_loop_temp:
  assumes "16 dvd length data" "length hash = 16" "length t1 = 16" "length t2 = 16"
  shows "ghash_loop t1 hash data = ghash_loop t2 hash data"
proof (cases "data = []")
  case True
  then show ?thesis by (simp add: ghash_loop.simps)
next
  case False
  with assms have "16 \<le> length data" by (auto dest: dvd_imp_le)
  then have "data = take 16 data @ drop 16 data" "length (take 16 data) = 16" by simp_all
  with assms(2-4) show ?thesis by (metis ghash_loop_block)
qed

lemma ghash_swap:
  assumes "length a = 16" "length b = 16" "16 dvd length rest" "length hash = 16" "length t = 16"
  shows "ghash_loop t hash (a @ b @ rest) = ghash_loop t hash (b @ a @ rest)"
proof -
  have "xor_bytes (xor_bytes hash a) b = xor_bytes (xor_bytes hash b) a"
    by (simp add: xor_bytes_assoc xor_bytes_commute [of a b])
  then show ?thesis
    using assms by (simp add: ghash_loop_block ghash_loop_temp [of rest _ b a])
qed

lemma ghash_loop_prefix:
  assumes "16 dvd length pre" "length hash = 16" "length t = 16"
  shows "\<exists>t' hash'. length t' = 16 \<and> length hash' = 16 \<and>
           (\<forall>data. ghash_loop t hash (pre @ data) = ghash_loop t' hash' data)"
  using assms
proof (induction "length pre" arbitrary: pre hash t rule: less_induct)
  case less
  show ?case
  proof (cases "pre = []")
    case True
    with less.prems show ?thesis by auto
  next
    case False
    with less.prems have ge: "16 \<le> length pre" by (auto dest: dvd_imp_le)
    let ?b = "take 16 pre"
    have b: "length ?b = 16" "pre = ?b @ drop 16 pre" using ge by simp_all
    have dvd: "16 dvd length (drop 16 pre)" using less.prems(1) by simp
    have "length (xor_bytes hash ?b) = 16" using less.prems(2) ge by simp
    moreover have "length (drop 16 pre) < length pre" using ge by simp
    ultimately obtain t' hash' where "length t' = 16" "length hash' = 16"
      "\<forall>data. ghash_loop ?b (xor_bytes hash ?b) (drop 16 pre @ data) = ghash_loop t' hash' data"
      using less.hyps [OF _ dvd _ b(1), of "xor_bytes hash ?b"] by blast
    moreover have "ghash_loop t hash (pre @ data) = ghash_loop ?b (xor_bytes hash ?b) (drop 16 pre @ data)" for data
      using ghash_loop_block [OF b(1) less.prems(2,3), of "drop 16 pre @ data"] b(2)
      by (metis append_assoc)
    ultimately show ?thesis by auto
  qed
qed

section \<open>The tag\<close>

text \<open>What \<open>gcm_ghash\<close> computes over the padded associated data, the ciphertext and the lengths. No key enters it.\<close>

definition aad_block :: "byte list ptr \<Rightarrow> nat \<Rightarrow> byte list" where
  "aad_block aad aad_len =
     (case aad of None \<Rightarrow> [] | Some a \<Rightarrow> if aad_len = 0 then [] else pad_to 16 (take (min aad_len 16) a))"

definition aad_readable :: "byte list ptr \<Rightarrow> nat \<Rightarrow> bool" where
  "aad_readable aad aad_len \<longleftrightarrow> (case aad of None \<Rightarrow> True | Some a \<Rightarrow> min aad_len 16 \<le> length a)"

definition keyless_hash :: "byte list ptr \<Rightarrow> nat \<Rightarrow> byte list \<Rightarrow> byte list" where
  "keyless_hash aad aad_len ct =
     gcm_ghash
       (gcm_ghash (gcm_ghash (replicate 16 0) [] (aad_block aad aad_len)) [] ct) []
       (len_bytes aad_len @ len_bytes (length ct) @ replicate 8 0)"

lemma gcm_ghash_h: "gcm_ghash hash h data = gcm_ghash hash [] data"
  by (simp add: gcm_ghash_def)

lemma gcm_ghash_Nil [simp]: "gcm_ghash hash h [] = hash"
  by (simp add: gcm_ghash_def ghash_loop.simps)

lemma length_keyless_hash [simp]: "length (keyless_hash aad aad_len ct) = 16"
  by (simp add: keyless_hash_def)

definition nonce_block :: "byte list \<Rightarrow> byte list" where
  "nonce_block iv = take 12 iv @ replicate 4 0"

lemma length_nonce_block [simp]: "length iv = 12 \<Longrightarrow> length (nonce_block iv) = 16"
  by (simp add: nonce_block_def)

lemma gcm_tag_eq:
  assumes "16 \<le> length key" "length iv = 12" "aad_readable aad aad_len"
  shows "gcm_tag key iv aad aad_len ct =
    Some (xor_bytes (keyless_hash aad aad_len ct) (xor_bytes (take 16 key) (nonce_block iv)))"
proof -
  have nonce: "(take 12 iv @ replicate 4 0)[15 := 0] = nonce_block iv"
    using assms(2) by (simp add: nonce_block_def list_update_append numeral_eq_Suc)
  have pad: "take n a @ drop (length (take n a)) (replicate 16 0) = pad_to 16 (take n a)"
    if "n \<le> 16" for n and a :: "byte list"
    using that by (simp add: pad_to_def)
  show ?thesis
  proof (cases aad)
    case None
    then show ?thesis
      using nonce assms by (simp add: gcm_tag_def keyless_hash_def aad_block_def Let_def gcm_ghash_h [of _ "take 16 key"]
          aes_encrypt_block_def)
  next
    case (Some a)
    have "rd_bytes a 0 (if aad_len < 16 then aad_len else 16) = Some (take (min aad_len 16) a)"
      using assms(3) Some by (auto simp: aad_readable_def rd_bytes_def min_def)
    with Some show ?thesis
      using nonce assms pad [of "min aad_len 16" a]
      by (simp add: gcm_tag_def keyless_hash_def aad_block_def Let_def gcm_ghash_h [of _ "take 16 key"]
          aes_encrypt_block_def)
  qed
qed

definition gcm_tag_of :: "byte list \<Rightarrow> byte list \<Rightarrow> byte list ptr \<Rightarrow> nat \<Rightarrow> byte list \<Rightarrow> byte list" where
  "gcm_tag_of key iv aad aad_len ct =
     xor_bytes (keyless_hash aad aad_len ct) (xor_bytes (take 16 key) (nonce_block iv))"

lemma length_gcm_tag_of [simp]:
  "16 \<le> length key \<Longrightarrow> length iv = 12 \<Longrightarrow> length (gcm_tag_of key iv aad aad_len ct) = 16"
  by (simp add: gcm_tag_of_def)

lemma gcm_tag_of_key: "16 \<le> length key \<Longrightarrow> length iv = 12 \<Longrightarrow>
    xor_bytes (gcm_tag_of key iv aad aad_len ct) (xor_bytes (keyless_hash aad aad_len ct) (nonce_block iv)) = take 16 key"
  by (rule nth_equalityI) (auto simp: gcm_tag_of_def ac_simps)

lemma gcm_tag_of_nonce:
  assumes "16 \<le> length key" "length iv = 12" "length iv' = 12"
    "gcm_tag_of key iv aad aad_len ct = gcm_tag_of key iv' aad aad_len ct"
  shows "iv = iv'"
proof -
  let ?h = "keyless_hash aad aad_len ct"
  have "xor_bytes (xor_bytes (take 16 key) (nonce_block iv)) ?h = xor_bytes (xor_bytes (take 16 key) (nonce_block iv')) ?h"
    using assms(4) by (simp add: gcm_tag_of_def xor_bytes_commute [of ?h])
  then have "xor_bytes (nonce_block iv) (take 16 key) = xor_bytes (nonce_block iv') (take 16 key)"
    using assms(1-3) by (subst (asm) xor_bytes_inj) (simp_all add: xor_bytes_commute [of "take 16 key"])
  then have "nonce_block iv = nonce_block iv'"
    using assms(1-3) by (subst (asm) xor_bytes_inj) simp_all
  then show ?thesis using assms(2,3) by (simp add: nonce_block_def)
qed

section \<open>What the two entry points return\<close>

definition gcm_ct :: "byte list \<Rightarrow> byte list \<Rightarrow> byte list \<Rightarrow> byte list" where
  "gcm_ct key iv pt = gcm_encrypt_loop key (ctr_block iv 1) pt"

lemma gcm_ct_fold: "gcm_encrypt_loop key (ctr_block iv (Suc 0)) pt = gcm_ct key iv pt"
  by (simp add: gcm_ct_def)

lemma length_gcm_ct [simp]:
  "16 \<le> length key \<Longrightarrow> length iv = 12 \<Longrightarrow> length (gcm_ct key iv pt) = length pt"
  by (simp add: gcm_ct_def gcm_encrypt_loop_stream length_gcm_stream)

lemma gcm_ct_involution:
  "16 \<le> length key \<Longrightarrow> length iv = 12 \<Longrightarrow> gcm_ct key iv (gcm_ct key iv pt) = pt"
  by (simp add: gcm_ct_def gcm_encrypt_loop_stream length_gcm_stream)

lemma aes_gcm_encrypt_eq:
  assumes "16 \<le> length key" "length iv = 12" "aad_readable aad aad_len"
    "length pt \<le> length out" "16 \<le> length tag"
  shows "aes_gcm_encrypt (Some key) (Some iv) (Some pt) aad aad_len (Some out) (Some n) (Some tag) =
    Some (0, Some (gcm_ct key iv pt @ drop (length pt) out), Some (length pt),
          Some (gcm_tag_of key iv aad aad_len (gcm_ct key iv pt) @ drop 16 tag))"
proof -
  have "(take 12 iv @ replicate 4 0)[15 := 1] = ctr_block iv 1"
    using assms(2) by (rule init_ctr_block)
  then show ?thesis
    using assms gcm_tag_eq [OF assms(1-3)] length_gcm_tag_of [OF assms(1,2)] length_gcm_ct [OF assms(1,2)]
    by (simp add: aes_gcm_encrypt_def access_simps gcm_ct_fold gcm_tag_of_def [symmetric])
qed

lemma gcm_decrypt_ct: "length iv = 12 \<Longrightarrow> gcm_decrypt_loop key iv (replicate 16 0) 0 ct = gcm_ct key iv ct"
  using gcm_decrypt_loop_eq [OF _ ctr_high_zero] by (simp add: gcm_ct_def)

lemma aes_gcm_decrypt_eq:
  assumes "16 \<le> length key" "length iv = 12" "aad_readable aad aad_len"
    "length ct \<le> length out" "16 \<le> length tag"
  shows "aes_gcm_decrypt (Some key) (Some iv) (Some ct) aad aad_len (Some out) (Some n) (Some tag) =
    Some (if take 16 tag = gcm_tag_of key iv aad aad_len ct then 0 else -1,
          Some (gcm_ct key iv ct @ drop (length ct) out), Some (length ct))"
  using assms gcm_tag_eq [OF assms(1-3)] length_gcm_tag_of [OF assms(1,2), of aad aad_len ct] length_gcm_ct [OF assms(1,2)]
  by (simp add: aes_gcm_decrypt_def access_simps gcm_decrypt_ct gcm_tag_of_def [symmetric])

section \<open>As authenticated encryption for the record layer\<close>

text \<open>The calls of \<open>record.c\<close>: no associated data, output buffers of the right size.\<close>

definition gcm_seal :: "byte list \<Rightarrow> byte list \<Rightarrow> byte list \<Rightarrow> byte list \<times> byte list" where
  "gcm_seal key iv pt =
     (case aes_gcm_encrypt (Some key) (Some iv) (Some pt) NULL 0
             (Some (replicate (length pt) 0)) (Some 0) (Some (replicate 16 0)) of
        Some (_, Some ct, _, Some tag) \<Rightarrow> (ct, tag) | _ \<Rightarrow> ([], []))"

definition gcm_open :: "byte list \<Rightarrow> byte list \<Rightarrow> byte list \<Rightarrow> byte list \<Rightarrow> int \<times> byte list" where
  "gcm_open key iv ct tag =
     (case aes_gcm_decrypt (Some key) (Some iv) (Some ct) NULL 0
             (Some (replicate (length ct) 0)) (Some 0) (Some tag) of
        Some (st, Some pt, _) \<Rightarrow> (st, pt) | _ \<Rightarrow> (-1, []))"

lemma aad_readable_NULL [simp]: "aad_readable NULL n"
  by (simp add: aad_readable_def)

lemma gcm_seal_eq:
  "16 \<le> length key \<Longrightarrow> length iv = 12 \<Longrightarrow>
    gcm_seal key iv pt = (gcm_ct key iv pt, gcm_tag_of key iv NULL 0 (gcm_ct key iv pt))"
  by (simp add: gcm_seal_def aes_gcm_encrypt_eq)

lemma gcm_open_eq:
  "16 \<le> length key \<Longrightarrow> length iv = 12 \<Longrightarrow> 16 \<le> length tag \<Longrightarrow>
    gcm_open key iv ct tag = (if take 16 tag = gcm_tag_of key iv NULL 0 ct then 0 else -1, gcm_ct key iv ct)"
  by (simp add: gcm_open_def aes_gcm_decrypt_eq)

interpretation gcm: aead gcm_seal gcm_open "\<lambda>key iv. 16 \<le> length key \<and> length iv = 12"
  by unfold_locales (auto simp: gcm_seal_eq gcm_open_eq gcm_ct_involution)

text \<open>A tag made under one nonce never verifies under another.\<close>

lemma gcm_wrong_nonce:
  assumes "16 \<le> length key" "length iv = 12" "length iv' = 12" "iv \<noteq> iv'"
    "gcm_seal key iv pt = (ct, tag)"
  shows "fst (gcm_open key iv' ct tag) = -1"
  using assms gcm_tag_of_nonce [of key iv iv' NULL 0 ct] by (auto simp: gcm_seal_eq gcm_open_eq)

text \<open>Only the first half of the key is looked at.\<close>

lemma first_half_block: "16 \<le> length key \<Longrightarrow> aes_encrypt_block (take 16 key @ rest) b = aes_encrypt_block key b"
  by (simp add: aes_encrypt_block_def)

lemma first_half_gcm:
  assumes "16 \<le> length key"
  shows "gcm_encrypt_loop (take 16 key @ rest) c p = gcm_encrypt_loop key c p"
    and "gcm_decrypt_loop (take 16 key @ rest) iv c blk p = gcm_decrypt_loop key iv c blk p"
    and "gcm_tag (take 16 key @ rest) = gcm_tag key"
proof -
  show "gcm_encrypt_loop (take 16 key @ rest) c p = gcm_encrypt_loop key c p"
  proof (induction "length p" arbitrary: c p rule: less_induct)
    case less
    then show ?case
      by (subst (1 2) gcm_encrypt_loop.simps) (simp add: first_half_block [OF assms] Let_def)
  qed
  show "gcm_decrypt_loop (take 16 key @ rest) iv c blk p = gcm_decrypt_loop key iv c blk p"
  proof (induction "length p" arbitrary: c blk p rule: less_induct)
    case less
    then show ?case
      by (subst (1 2) gcm_decrypt_loop.simps) (simp add: first_half_block [OF assms] Let_def)
  qed
  show "gcm_tag (take 16 key @ rest) = gcm_tag key"
    by (rule ext)+ (simp only: gcm_tag_def first_half_block [OF assms])
qed

text \<open>A ciphertext opened under another nonce: the key cancels, and the plaintext comes out XORed with the difference of the nonces.\<close>

lemma gcm_stream_nth:
  assumes "16 \<le> length key" "length iv = 12" "i < n"
  shows "gcm_stream key iv c n ! i = key ! (i mod 16) XOR ctr_block iv (c + i div 16) ! (i mod 16)"
  using assms(3)
proof (induction n arbitrary: c i rule: less_induct)
  case (less n)
  show ?case
  proof (cases "i < 16")
    case True
    with assms(1,2) less.prems show ?thesis
      by (subst gcm_stream.simps) (simp add: nth_append aes_encrypt_block_def)
  next
    case False
    then have "gcm_stream key iv (Suc c) (n - 16) ! (i - 16) =
        key ! ((i - 16) mod 16) XOR ctr_block iv (Suc c + (i - 16) div 16) ! ((i - 16) mod 16)"
      using less by simp
    with False assms(1,2) less.prems show ?thesis
      by (subst gcm_stream.simps) (simp add: nth_append le_mod_geq le_div_geq not_less)
  qed
qed

lemma gcm_ct_other_nonce:
  assumes "16 \<le> length key" "length iv = 12" "length iv' = 12"
  shows "gcm_ct key iv' (gcm_ct key iv p) =
    map (\<lambda>i. p ! i XOR (if i mod 16 < 12 then iv ! (i mod 16) XOR iv' ! (i mod 16) else 0)) [0..<length p]"
proof (rule nth_equalityI)
  have nth_ct: "gcm_ct key v q ! i = q ! i XOR key ! (i mod 16) XOR ctr_block v (1 + i div 16) ! (i mod 16)"
    if "length v = 12" "i < length q" for v q i
    using that assms(1) unfolding gcm_ct_def gcm_encrypt_loop_stream [OF assms(1) that(1)]
    by (simp add: length_gcm_stream gcm_stream_nth ac_simps)
  fix i assume "i < length (gcm_ct key iv' (gcm_ct key iv p))"
  then have i: "i < length p" using assms by simp
  then show "gcm_ct key iv' (gcm_ct key iv p) ! i =
      map (\<lambda>i. p ! i XOR (if i mod 16 < 12 then iv ! (i mod 16) XOR iv' ! (i mod 16) else 0)) [0..<length p] ! i"
    using assms nth_ct by (auto simp: ctr_block_def nth_append ac_simps)
qed (use assms in simp)

section \<open>Properties\<close>

text \<open>
  C16. Encryption followed by decryption under the same key, nonce and associated data
  succeeds: both return 0 without touching memory outside the buffers, the ciphertext is as
  long as the plaintext, and the decryption writes the plaintext and its length, although the
  two functions advance the counter block in different ways.
\<close>

theorem aes_gcm_roundtrip:
  assumes "16 \<le> length key" "length iv = 12"
    "case aad of None \<Rightarrow> True | Some a \<Rightarrow> min aad_len 16 \<le> length a"
    "length pt \<le> length ctbuf" "16 \<le> length tagbuf" "length pt \<le> length ptbuf"
  shows "\<exists>ct tag.
     aes_gcm_encrypt (Some key) (Some iv) (Some pt) aad aad_len (Some ctbuf) (Some n) (Some tagbuf) =
       Some (0, Some (ct @ drop (length pt) ctbuf), Some (length pt), Some (tag @ drop 16 tagbuf)) \<and>
     length ct = length pt \<and> length tag = 16 \<and>
     aes_gcm_decrypt (Some key) (Some iv) (Some ct) aad aad_len (Some ptbuf) (Some m) (Some tag) =
       Some (0, Some (pt @ drop (length pt) ptbuf), Some (length pt))"
  by (rule exI [of _ "gcm_ct key iv pt"], rule exI [of _ "gcm_tag_of key iv aad aad_len (gcm_ct key iv pt)"])
     (use assms in \<open>simp add: aes_gcm_encrypt_eq aes_gcm_decrypt_eq aad_readable_def gcm_ct_involution\<close>)

lemma aes_gcm_roundtrip_witness:
  "\<exists>ct tag.
     aes_gcm_encrypt (Some (replicate 16 7)) (Some (replicate 12 1)) (Some (replicate 20 5)) NULL 0
       (Some (replicate 20 0)) (Some 0) (Some (replicate 16 0)) =
       Some (0, Some ct, Some 20, Some tag) \<and>
     length ct = 20 \<and> length tag = 16 \<and>
     aes_gcm_decrypt (Some (replicate 16 7)) (Some (replicate 12 1)) (Some ct) NULL 0
       (Some (replicate 20 0)) (Some 0) (Some tag) =
       Some (0, Some (replicate 20 5), Some 20)"
  using aes_gcm_roundtrip [of "replicate 16 7" "replicate 12 1" 0 NULL "replicate 20 5" "replicate 20 0"
      "replicate 16 0" "replicate 20 0" 0 0]
  by simp

text \<open>
  C15. \<open>aes_gcm_decrypt\<close> on every input it can read: the plaintext buffer and \<open>pt_len\<close> receive
  the decryption first, and only the status depends on the tag. It is 0 exactly when all 16 bytes of
  the tag are those the encryption would produce for this ciphertext, and -1 otherwise, so a
  caller that ignores the status holds unauthenticated plaintext.
\<close>

theorem aes_gcm_decrypt_verifies:
  assumes "16 \<le> length key" "length iv = 12"
    "case aad of None \<Rightarrow> True | Some a \<Rightarrow> min aad_len 16 \<le> length a"
    "length ct \<le> length ptbuf" "length tag = 16"
  shows "\<exists>pt. length pt = length ct \<and>
     (\<exists>tag' . aes_gcm_encrypt (Some key) (Some iv) (Some pt) aad aad_len (Some ct) (Some m) (Some tag) =
         Some (0, Some ct, Some (length ct), Some tag') \<and>
       aes_gcm_decrypt (Some key) (Some iv) (Some ct) aad aad_len (Some ptbuf) (Some n) (Some tag) =
         Some (if tag = tag' then 0 else -1, Some (pt @ drop (length ct) ptbuf), Some (length ct)))"
proof (rule exI [of _ "gcm_ct key iv ct"], intro conjI exI)
  show "length (gcm_ct key iv ct) = length ct" using assms by simp
  show "aes_gcm_encrypt (Some key) (Some iv) (Some (gcm_ct key iv ct)) aad aad_len (Some ct) (Some m) (Some tag) =
      Some (0, Some ct, Some (length ct), Some (gcm_tag_of key iv aad aad_len ct))"
    using assms by (simp add: aes_gcm_encrypt_eq aad_readable_def gcm_ct_involution)
  show "aes_gcm_decrypt (Some key) (Some iv) (Some ct) aad aad_len (Some ptbuf) (Some n) (Some tag) =
      Some (if tag = gcm_tag_of key iv aad aad_len ct then 0 else -1, Some (gcm_ct key iv ct @ drop (length ct) ptbuf),
        Some (length ct))"
    using assms by (simp add: aes_gcm_decrypt_eq aad_readable_def)
qed

lemma aes_gcm_decrypt_verifies_witness:
  "\<exists>pt. length pt = 20 \<and>
     (\<exists>tag'. aes_gcm_encrypt (Some (replicate 16 7)) (Some (replicate 12 1)) (Some pt) NULL 0
         (Some (replicate 20 5)) (Some 0) (Some (replicate 16 9)) =
         Some (0, Some (replicate 20 5), Some 20, Some tag') \<and>
       aes_gcm_decrypt (Some (replicate 16 7)) (Some (replicate 12 1)) (Some (replicate 20 5)) NULL 0
         (Some (replicate 20 0)) (Some 0) (Some (replicate 16 9)) =
         Some (if replicate 16 9 = tag' then 0 else -1, Some pt, Some 20))"
  using aes_gcm_decrypt_verifies [of "replicate 16 7" "replicate 12 1" 0 NULL "replicate 20 5"
      "replicate 20 0" "replicate 16 9" 0 0]
  by (simp split del: if_split)

text \<open>
  C38. The block cipher is XOR with the key and the hash does not use the key, so one message sealed
  without additional data (\<open>aad\<close> NULL, as in \<open>record.c\<close>) gives the key away: the tag XORed with the
  hash of the public values and the nonce is the first half of the key. The other half is never used,
  whence any key with that first half encrypts and decrypts like the original, on every input.
\<close>

theorem aes_gcm_tag_reveals_key:
  assumes "16 \<le> length key" "length iv = 12"
    "length pt \<le> length ctbuf" "16 \<le> length tagbuf"
    "aes_gcm_encrypt (Some key) (Some iv) (Some pt) NULL aad_len (Some ctbuf) (Some n) (Some tagbuf) =
       Some (0, Some ct, Some ct_len, Some tag)"
  shows "xor_bytes (take 16 tag)
           (xor_bytes
             (gcm_ghash (gcm_ghash (replicate 16 0) [] (take ct_len ct)) []
               (len_bytes aad_len @ len_bytes ct_len @ replicate 8 0))
             (iv @ replicate 4 0)) = take 16 key \<and>
    (\<forall>rest iv' pt' aad aad_len cbuf m tbuf.
           aes_gcm_encrypt (Some (take 16 key @ rest)) iv' pt' aad aad_len cbuf m tbuf =
           aes_gcm_encrypt (Some key) iv' pt' aad aad_len cbuf m tbuf) \<and>
    (\<forall>rest iv' ct' aad aad_len pbuf m tbuf.
           aes_gcm_decrypt (Some (take 16 key @ rest)) iv' ct' aad aad_len pbuf m tbuf =
           aes_gcm_decrypt (Some key) iv' ct' aad aad_len pbuf m tbuf)"
proof (intro conjI)
  have ct: "take ct_len ct = gcm_ct key iv pt" "ct_len = length pt"
    "take 16 tag = gcm_tag_of key iv NULL aad_len (gcm_ct key iv pt)"
    using assms(5) aes_gcm_encrypt_eq [OF assms(1,2) _ assms(3,4), of NULL aad_len n] assms(1,2) by auto
  show "xor_bytes (take 16 tag)
           (xor_bytes
             (gcm_ghash (gcm_ghash (replicate 16 0) [] (take ct_len ct)) []
               (len_bytes aad_len @ len_bytes ct_len @ replicate 8 0))
             (iv @ replicate 4 0)) = take 16 key"
    using gcm_tag_of_key [OF assms(1,2), of NULL aad_len "gcm_ct key iv pt"] assms(1,2) ct
    by (simp add: keyless_hash_def aad_block_def nonce_block_def)
  show "\<forall>rest iv' pt' aad aad_len cbuf m tbuf.
           aes_gcm_encrypt (Some (take 16 key @ rest)) iv' pt' aad aad_len cbuf m tbuf =
           aes_gcm_encrypt (Some key) iv' pt' aad aad_len cbuf m tbuf"
    by (simp only: aes_gcm_encrypt_def first_half_gcm [OF assms(1)] option.case prod.case simp_thms)
  show "\<forall>rest iv' ct' aad aad_len pbuf m tbuf.
           aes_gcm_decrypt (Some (take 16 key @ rest)) iv' ct' aad aad_len pbuf m tbuf =
           aes_gcm_decrypt (Some key) iv' ct' aad aad_len pbuf m tbuf"
    by (simp only: aes_gcm_decrypt_def first_half_gcm [OF assms(1)] option.case prod.case simp_thms)
qed

lemma aes_gcm_tag_reveals_key_witness:
  "xor_bytes (gcm_tag_of (replicate 16 7) (replicate 12 1) NULL 0 (gcm_ct (replicate 16 7) (replicate 12 1) [1, 2, 3]))
      (xor_bytes
         (gcm_ghash (gcm_ghash (replicate 16 0) [] (gcm_ct (replicate 16 7) (replicate 12 1) [1, 2, 3])) []
            (len_bytes 0 @ len_bytes 3 @ replicate 8 0))
         (replicate 12 1 @ replicate 4 0)) = replicate 16 7"
  using aes_gcm_tag_reveals_key [of "replicate 16 7" "replicate 12 1" "[1, 2, 3]" "[0, 0, 0]" "replicate 16 0" 0 0
      "gcm_ct (replicate 16 7) (replicate 12 1) [1, 2, 3]" 3
      "gcm_tag_of (replicate 16 7) (replicate 12 1) NULL 0 (gcm_ct (replicate 16 7) (replicate 12 1) [1, 2, 3])"]
  by (auto simp: aes_gcm_encrypt_eq)

end
