(* ===== verification/Axon_Record.thy ===== *)
theory Axon_Record
  imports Axon_Context Axon_Secure Axon_AesGcm
begin

text \<open>
  The record layer, \<open>core/source/record.c\<close>: framing and parsing of records, the nonce of a protected
  record, encryption and decryption. A record that has been read holds its fragment in a
  heap block of the secure allocator; the functions thread the heap.
\<close>

section \<open>The code\<close>

record axon_record =
  content_type :: byte
  version :: u16
  rec_length :: u16
  fragment :: "nat ptr"

definition axon_record_read ::
  "axon_context ptr \<Rightarrow> byte list ptr \<Rightarrow> nat \<Rightarrow> axon_record ptr \<Rightarrow> heap \<Rightarrow>
   (int \<times> axon_record ptr \<times> heap) option" where
  "axon_record_read ctxp datap len recordp h =
     (case (ctxp, datap, recordp) of
        (Some ctx, Some data, Some r) \<Rightarrow>
          if len < 5 then Some (-1, recordp, h)
          else do {
            d0 \<leftarrow> rd data 0;
            d1 \<leftarrow> rd data 1; d2 \<leftarrow> rd data 2;
            d3 \<leftarrow> rd data 3; d4 \<leftarrow> rd data 4;
            let r = r\<lparr>content_type := d0, version := be16 d1 d2, rec_length := be16 d3 d4\<rparr>;
            if size_sub len 5 < unat (rec_length r) then Some (-1, Some r, h)
            else if content_type r = TLS_CONTENT_ALERT then
              (if 2 \<le> unat (rec_length r) then do {
                 level \<leftarrow> rd data 5;
                 desc \<leftarrow> rd data 6;
                 if level = TLS_ALERT_LEVEL_FATAL then Some (-1, Some r, h) else Some (-1, Some r, h) }
               else Some (-1, Some r, h))
            else if version r \<noteq> 0x0304 \<and> version r \<noteq> 0x0303 then Some (-1, Some r, h)
            else (case secure_alloc (unat (rec_length r)) h of
                    (None, h) \<Rightarrow> Some (-1, Some (r\<lparr>fragment := NULL\<rparr>), h)
                  | (Some a, h) \<Rightarrow> do {
                      payload \<leftarrow> rd_bytes data 5 (unat (rec_length r));
                      b \<leftarrow> blocks h a;
                      b \<leftarrow> wr_bytes b 0 payload;
                      Some (0, Some (r\<lparr>fragment := Some a\<rparr>), h\<lparr>blocks := (blocks h)(a \<mapsto> b)\<rparr>) }) }
      | _ \<Rightarrow> Some (-1, recordp, h))"

definition axon_record_write ::
  "axon_context ptr \<Rightarrow> byte \<Rightarrow> byte list ptr \<Rightarrow> nat \<Rightarrow> byte list ptr \<Rightarrow> nat ptr \<Rightarrow>
   (int \<times> byte list ptr \<times> nat ptr) option" where
  "axon_record_write ctxp ctype payloadp payload_len outp out_lenp =
     (case (ctxp, outp, out_lenp) of
        (Some ctx, Some out, Some out_len) \<Rightarrow>
          if payload_len > 16384 then Some (-1, outp, out_lenp)
          else do {
            out \<leftarrow> wr out 0 ctype;
            out \<leftarrow> wr out 1 0x03;
            out \<leftarrow> wr out 2 0x04;
            out \<leftarrow> wr out 3 (of_nat (payload_len div 2 ^ 8));
            out \<leftarrow> wr out 4 (of_nat payload_len);
            out \<leftarrow> (case payloadp of
                      Some payload \<Rightarrow>
                        if payload_len > 0 then do {
                          p \<leftarrow> rd_bytes payload 0 payload_len; wr_bytes out 5 p }
                        else Some out
                    | None \<Rightarrow> Some out);
            Some (0, Some out, Some (5 + payload_len)) }
      | _ \<Rightarrow> Some (-1, outp, out_lenp))"

definition build_nonce :: "byte list \<Rightarrow> u64 \<Rightarrow> byte list option" where
  "build_nonce iv seq_num = do {
     nonce \<leftarrow> for_upto 0 12 (\<lambda>i nonce. do { b \<leftarrow> rd iv i; wr nonce i b }) (replicate 12 0);
     for_upto 0 8 (\<lambda>i nonce. do {
         let seq_byte = byte_at ((7 - i) * 8) seq_num;
         b \<leftarrow> rd nonce (4 + i);
         wr nonce (4 + i) (b XOR seq_byte) }) nonce }"

definition axon_record_decrypt ::
  "axon_context ptr \<Rightarrow> axon_record ptr \<Rightarrow> byte list ptr \<Rightarrow> nat ptr \<Rightarrow> heap \<Rightarrow>
   (int \<times> axon_context ptr \<times> axon_record ptr \<times> byte list ptr \<times> nat ptr \<times> heap) option" where
  "axon_record_decrypt ctxp recordp plaintextp out_lenp h =
     (case (ctxp, recordp, plaintextp, out_lenp) of
        (Some ctx, Some r, Some plaintext, Some out_len) \<Rightarrow>
          if content_type r \<noteq> TLS_CONTENT_APPLICATION_DATA
          then Some (-1, ctxp, recordp, plaintextp, out_lenp, h)
          else if unat (rec_length r) < 16 then Some (-1, ctxp, recordp, plaintextp, out_lenp, h)
          else do {
            nonce \<leftarrow> build_nonce (read_iv ctx) (sequence_number ctx);
            let ctx = ctx\<lparr>sequence_number := sequence_number ctx + 1\<rparr>;
            key \<leftarrow> rd_bytes (read_key ctx) 0 32;
            let ciphertext_len = unat (rec_length r) - 16;
            a \<leftarrow> fragment r;
            frag \<leftarrow> blocks h a;
            tag \<leftarrow> rd_bytes frag ciphertext_len 16;
            ct \<leftarrow> rd_bytes frag 0 ciphertext_len;
            (ret, pt, out_len) \<leftarrow> aes_gcm_decrypt (Some key) (Some nonce) (Some ct) NULL 0
                                  (Some plaintext) (Some out_len) (Some tag);
            h \<leftarrow> secure_free (fragment r) (unat (rec_length r)) h;
            Some (ret, Some ctx, Some (r\<lparr>fragment := NULL\<rparr>), pt, out_len, h) }
      | _ \<Rightarrow> Some (-1, ctxp, recordp, plaintextp, out_lenp, h))"

definition axon_record_encrypt ::
  "axon_context ptr \<Rightarrow> byte \<Rightarrow> byte list ptr \<Rightarrow> nat \<Rightarrow> byte list ptr \<Rightarrow> nat ptr \<Rightarrow>
   (int \<times> axon_context ptr \<times> byte list ptr \<times> nat ptr) option" where
  "axon_record_encrypt ctxp ctype plaintextp len outp out_lenp =
     (case (ctxp, outp, out_lenp) of
        (Some ctx, Some out, Some out_len) \<Rightarrow>
          if len > 16384 then Some (-1, ctxp, outp, out_lenp)
          else do {
            key \<leftarrow> rd_bytes (write_key ctx) 0 32;
            nonce \<leftarrow> build_nonce (write_iv ctx) (sequence_number ctx);
            let ctx = ctx\<lparr>sequence_number := sequence_number ctx + 1\<rparr>;
            pt \<leftarrow> (case plaintextp of None \<Rightarrow> Some NULL | Some p \<Rightarrow> map_option Some (rd_bytes p 0 len));
            (ret, ctp, ct_lenp, tagp) \<leftarrow> aes_gcm_encrypt (Some key) (Some nonce) pt NULL 0
                (Some (replicate 16384 0)) (Some 0) (Some (replicate 16 0));
            if ret < 0 then Some (-1, Some ctx, outp, out_lenp)
            else do {
              ciphertext \<leftarrow> ctp; ciphertext_len \<leftarrow> ct_lenp; tag \<leftarrow> tagp;
              out \<leftarrow> wr out 0 ctype;
              out \<leftarrow> wr out 1 0x03;
              out \<leftarrow> wr out 2 0x04;
              out \<leftarrow> wr out 3 (of_nat ((ciphertext_len + 16) div 2 ^ 8));
              out \<leftarrow> wr out 4 (of_nat (ciphertext_len + 16));
              ct \<leftarrow> rd_bytes ciphertext 0 ciphertext_len;
              out \<leftarrow> wr_bytes out 5 ct;
              out \<leftarrow> wr_bytes out (5 + ciphertext_len) tag;
              Some (0, Some ctx, Some out, Some (5 + ciphertext_len + 16)) } }
      | _ \<Rightarrow> Some (-1, ctxp, outp, out_lenp))"

section \<open>Headers\<close>

definition record_header :: "byte \<Rightarrow> nat \<Rightarrow> byte list" where
  "record_header ctype n = [ctype, 0x03, 0x04, of_nat (n div 2 ^ 8), of_nat n]"

lemma length_record_header [simp]: "length (record_header c n) = 5"
  by (simp add: record_header_def)

lemma wr5:
  assumes "5 \<le> length out"
  shows "do { out \<leftarrow> wr out 0 a; out \<leftarrow> wr out 1 b; out \<leftarrow> wr out 2 c; out \<leftarrow> wr out 3 d; out \<leftarrow> wr out 4 e; k out }
    = k ([a, b, c, d, e] @ drop 5 out)"
proof -
  obtain v w x y z rest where "out = v # w # x # y # z # rest"
    using assms by (auto simp: Suc_le_length_iff numeral_eq_Suc)
  then show ?thesis by (simp add: wr_def)
qed

lemma wr_header:
  assumes "5 \<le> length out"
  shows "do { out \<leftarrow> wr out 0 ctype; out \<leftarrow> wr out 1 0x03; out \<leftarrow> wr out 2 0x04;
              out \<leftarrow> wr out 3 (of_nat (n div 2 ^ 8)); out \<leftarrow> wr out 4 (of_nat n); k out }
    = k (record_header ctype n @ drop 5 out)"
  unfolding record_header_def by (rule wr5 [OF assms])

section \<open>Reading\<close>

definition frame_len :: "byte list \<Rightarrow> nat" where
  "frame_len data = unat (be16 (data ! 3) (data ! 4))"

definition well_framed :: "byte list \<Rightarrow> nat \<Rightarrow> bool" where
  "well_framed data len \<longleftrightarrow> 5 \<le> len \<and> 5 + frame_len data \<le> len \<and> data ! 0 \<noteq> 0x15 \<and>
     be16 (data ! 1) (data ! 2) \<in> {0x0304, 0x0303} \<and> 0 < frame_len data"

definition read_header :: "byte list \<Rightarrow> axon_record \<Rightarrow> axon_record" where
  "read_header data r = r\<lparr>content_type := data ! 0, version := be16 (data ! 1) (data ! 2),
     rec_length := be16 (data ! 3) (data ! 4)\<rparr>"

lemma rd_header:
  assumes "5 \<le> length data"
  shows "rd data 0 = Some (data ! 0)" "rd data 1 = Some (data ! 1)" "rd data 2 = Some (data ! 2)"
    "rd data 3 = Some (data ! 3)" "rd data 4 = Some (data ! 4)"
  using assms by (auto simp: rd_def)

lemma record_read_reject:
  assumes "len \<le> length data" "len < 2 ^ 64" "\<not> well_framed data len"
  shows "\<exists>r'. axon_record_read (Some ctx) (Some data) len (Some r) h = Some (-1, Some r', h)"
proof (cases "len < 5")
  case True
  then show ?thesis by (simp add: axon_record_read_def)
next
  case False
  have zero: "secure_alloc 0 h = (NULL, h)" by (simp add: secure_alloc_def)
  have "5 \<le> length data" using False assms by simp
  then show ?thesis
    using False assms by (auto simp: rd_header axon_record_read_def access_simps well_framed_def frame_len_def content_type_defs zero Let_def)
qed

lemma record_read_accept:
  assumes "len \<le> length data" "len < 2 ^ 64" "well_framed data len" "heap_ok h"
  shows "\<exists>h'. heap_ok h' \<and> (case fst (secure_alloc (frame_len data) h) of
      None \<Rightarrow> axon_record_read (Some ctx) (Some data) len (Some r) h =
                Some (-1, Some (read_header data r\<lparr>fragment := NULL\<rparr>), h') \<and> blocks h' = blocks h
    | Some a \<Rightarrow> axon_record_read (Some ctx) (Some data) len (Some r) h =
                Some (0, Some (read_header data r\<lparr>fragment := Some a\<rparr>), h') \<and>
                blocks h a = None \<and> blocks h' = (blocks h)(a \<mapsto> take (frame_len data) (drop 5 data)))"
proof -
  have fits: "5 + frame_len data \<le> length data" "5 \<le> length data"
    using assms by (auto simp: well_framed_def)
  have hd: "axon_record_read (Some ctx) (Some data) len (Some r) h =
      (case secure_alloc (frame_len data) h of
         (None, h) \<Rightarrow> Some (-1, Some (read_header data r\<lparr>fragment := NULL\<rparr>), h)
       | (Some a, h) \<Rightarrow> do {
           b \<leftarrow> blocks h a;
           b \<leftarrow> wr_bytes b 0 (take (frame_len data) (drop 5 data));
           Some (0, Some (read_header data r\<lparr>fragment := Some a\<rparr>), h\<lparr>blocks := (blocks h)(a \<mapsto> b)\<rparr>) })"
    using assms fits(1)
    by (auto simp: rd_header [OF fits(2)] axon_record_read_def access_simps well_framed_def frame_len_def read_header_def
        content_type_defs Let_def split: prod.split option.split)
  obtain p h1 where alloc: "secure_alloc (frame_len data) h = (p, h1)" by fastforce
  show ?thesis
  proof (cases p)
    case None
    with sec.alloc_none [OF assms(4)] alloc hd show ?thesis by auto
  next
    case (Some a)
    let ?h' = "h1\<lparr>blocks := (blocks h1)(a \<mapsto> take (frame_len data) (drop 5 data))\<rparr>"
    from Some alloc sec.alloc_some [OF assms(4)]
    have h1: "heap_ok h1" "blocks h a = None" "blocks h1 = (blocks h)(a \<mapsto> replicate (frame_len data) 0)"
      by blast+
    then have "heap_ok ?h'" by (auto simp: heap_ok_def)
    moreover have "wr_bytes (replicate (frame_len data) 0) 0 (take (frame_len data) (drop 5 data)) =
        Some (take (frame_len data) (drop 5 data))"
      using fits by (simp add: wr_bytes_def)
    ultimately show ?thesis
      using Some alloc hd h1 by (intro exI [of _ ?h']) simp
  qed
qed

text \<open>Whatever length the caller passes, a call that returns leaves one of two heaps.\<close>

lemma record_read_returns:
  assumes "axon_record_read (Some ctx) (Some data) len (Some r) h = Some (ret, p, h')" "heap_ok h"
  shows "heap_ok h' \<and> (\<exists>r'. p = Some r' \<and>
    (ret = -1 \<and> blocks h' = blocks h \<or>
     ret = 0 \<and> (\<exists>a frag. fragment r' = Some a \<and> blocks h a = None \<and> blocks h' = (blocks h)(a \<mapsto> frag) \<and>
       length frag = unat (rec_length r') \<and> frag \<noteq> [])))"
proof -
  obtain q h1 where alloc: "secure_alloc (unat (be16 (data ! 3) (data ! 4))) h = (q, h1)" by fastforce
  show ?thesis
  proof (cases q)
    case None
    from sec.alloc_none [OF assms(2)] alloc None assms show ?thesis
      by (auto simp: axon_record_read_def rd_Some_iff Let_def split: if_splits Option.bind_splits)
  next
    case (Some a)
    with sec.alloc_some [OF assms(2)] alloc
    have h1: "0 < unat (be16 (data ! 3) (data ! 4))" "heap_ok h1" "blocks h a = None"
      "blocks h1 = (blocks h)(a \<mapsto> replicate (unat (be16 (data ! 3) (data ! 4))) 0)" by blast+
    have ok: "heap_ok (h1\<lparr>blocks := (blocks h)(a \<mapsto> b)\<rparr>)" for b
      using h1 by (auto simp: heap_ok_def)
    have len: "\<exists>frag. (blocks h)(a \<mapsto> b) = (blocks h)(a \<mapsto> frag) \<and> length frag = n \<and> frag \<noteq> []"
      if "wr_bytes (replicate n 0) 0 xs = Some b" "0 < n" for b n xs
      using wr_bytes_length [OF that(1)] that(2) by auto
    show ?thesis
      using assms alloc Some h1 ok
      by (auto simp: axon_record_read_def rd_Some_iff Let_def intro: len split: if_splits Option.bind_splits)
  qed
qed

section \<open>Nonces\<close>

definition seq_bytes :: "u64 \<Rightarrow> byte list" where
  "seq_bytes n = map (\<lambda>i. byte_at ((7 - i) * 8) n) [0..<8]"

definition nonce_of :: "byte list \<Rightarrow> u64 \<Rightarrow> byte list" where
  "nonce_of iv n = xor_bytes iv (replicate 4 0 @ seq_bytes n)"

lemma length_seq_bytes [simp]: "length (seq_bytes n) = 8"
  by (simp add: seq_bytes_def)

lemma length_nonce_of [simp]: "length iv = 12 \<Longrightarrow> length (nonce_of iv n) = 12"
  by (simp add: nonce_of_def)

lemma seq_bytes_inj: "seq_bytes m = seq_bytes n \<longleftrightarrow> m = n"
proof
  assume eq: "seq_bytes m = seq_bytes n"
  show "m = n"
  proof (rule bit_word_eqI)
    fix i assume "i < LENGTH(64)"
    then have i: "7 - i div 8 < 8" "(7 - (7 - i div 8)) * 8 + i mod 8 = i" "i mod 8 < 8" by auto
    have "seq_bytes m ! (7 - i div 8) = seq_bytes n ! (7 - i div 8)" using eq by simp
    then have "byte_at ((7 - (7 - i div 8)) * 8) m = byte_at ((7 - (7 - i div 8)) * 8) n"
      using i(1) by (simp add: seq_bytes_def del: upt_rec_numeral)
    then have "bit (byte_at ((7 - (7 - i div 8)) * 8) m) (i mod 8) = bit (byte_at ((7 - (7 - i div 8)) * 8) n) (i mod 8)"
      by simp
    then show "bit m i = bit n i" by (simp only: bit_byte_at i simp_thms)
  qed
qed simp

lemma nonce_of_inj: "length iv = 12 \<Longrightarrow> nonce_of iv m = nonce_of iv n \<longleftrightarrow> m = n"
  using xor_bytes_inj [of "replicate 4 0 @ seq_bytes m" iv "replicate 4 0 @ seq_bytes n"]
  by (simp add: nonce_of_def xor_bytes_commute [of iv] seq_bytes_inj)

text \<open>What remains of two nonces under the same IV, as a stream over the blocks.\<close>

definition nonce_difference :: "u64 \<Rightarrow> u64 \<Rightarrow> nat \<Rightarrow> byte" where
  "nonce_difference m n i =
     (if 4 \<le> i mod 16 \<and> i mod 16 < 12 then byte_at (8 * (11 - i mod 16)) (m XOR n) else 0)"

lemma byte_at_xor: "byte_at k (a XOR b) = byte_at k a XOR byte_at k b"
  by (rule bit_word_eqI) (simp add: bit_byte_at bit_xor_iff)

lemma nonce_of_xor:
  assumes "length iv = 12" "k < 12"
  shows "nonce_of iv m ! k XOR nonce_of iv n ! k = (if 4 \<le> k then byte_at (8 * (11 - k)) (m XOR n) else 0)"
proof (cases "4 \<le> k")
  case True
  then have "k - 4 < 8" "8 * (7 - (k - 4)) = 8 * (11 - k)" using assms(2) by auto
  with True assms show ?thesis
    by (simp add: nonce_of_def seq_bytes_def nth_append byte_at_xor ac_simps del: upt_rec_numeral)
qed (use assms in \<open>simp add: nonce_of_def nth_append ac_simps\<close>)

lemma other_sequence:
  assumes "16 \<le> length key" "length iv = 12"
  shows "gcm_ct key (nonce_of iv n) (gcm_ct key (nonce_of iv m) p) =
    map (\<lambda>i. p ! i XOR nonce_difference m n i) [0..<length p]"
  using assms
  by (subst gcm_ct_other_nonce) (auto simp: nonce_of_xor nonce_difference_def)

lemma build_nonce_eq:
  assumes "length iv = 12"
  shows "build_nonce iv n = Some (nonce_of iv n)"
proof -
  have copy: "for_upto 0 12 (\<lambda>i nonce. do { b \<leftarrow> rd iv i; wr nonce i b }) (replicate 12 0) = Some iv"
  proof -
    have "for_upto 0 12 (\<lambda>i nonce. do { b \<leftarrow> rd iv i; wr nonce i b }) (replicate 12 0) =
        Some (map ((!) iv) [0..<12] @ drop 12 (replicate 12 0))"
      by (rule for_upto_fill) (use assms in \<open>simp_all add: rd_def\<close>)
    also have "map ((!) iv) [0..<12] = iv" using assms map_nth [of iv] by simp
    finally show ?thesis by simp
  qed
  let ?P = "\<lambda>i s. length s = 12 \<and>
     (\<forall>j < 12. s ! j = (if 4 \<le> j \<and> j < 4 + i then iv ! j XOR byte_at ((7 - (j - 4)) * 8) n else iv ! j))"
  have "\<exists>s. for_upto 0 8 (\<lambda>i nonce. do {
         let seq_byte = byte_at ((7 - i) * 8) n;
         b \<leftarrow> rd nonce (4 + i);
         wr nonce (4 + i) (b XOR seq_byte) }) iv = Some s \<and> ?P 8 s"
    by (rule for_upto_rule [where P = ?P])
       (use assms in \<open>auto simp: rd_def wr_def nth_list_update\<close>)
  then obtain s where s: "for_upto 0 8 (\<lambda>i nonce. do {
         let seq_byte = byte_at ((7 - i) * 8) n;
         b \<leftarrow> rd nonce (4 + i);
         wr nonce (4 + i) (b XOR seq_byte) }) iv = Some s" "?P 8 s" by blast
  have "s = nonce_of iv n"
    by (rule nth_equalityI)
       (use s(2) assms in \<open>auto simp: nonce_of_def nth_append seq_bytes_def simp del: upt_rec_numeral\<close>)
  with s(1) copy show ?thesis by (simp add: build_nonce_def)
qed

section \<open>Protecting records\<close>

definition sealed_record :: "byte \<Rightarrow> axon_context \<Rightarrow> byte list \<Rightarrow> byte list" where
  "sealed_record ctype ctx p =
     (case gcm_seal (write_key ctx) (nonce_of (write_iv ctx) (sequence_number ctx)) p of
        (ct, tag) \<Rightarrow> record_header ctype (length p + 16) @ ct @ tag)"

definition next_seq :: "axon_context \<Rightarrow> axon_context" where
  "next_seq ctx = ctx\<lparr>sequence_number := sequence_number ctx + 1\<rparr>"

lemma next_seq_ok [simp]: "context_ok (next_seq ctx) = context_ok ctx"
  by (simp add: next_seq_def context_ok_def)

lemma next_seq_simps [simp]:
  "write_key (next_seq ctx) = write_key ctx" "read_key (next_seq ctx) = read_key ctx"
  "write_iv (next_seq ctx) = write_iv ctx" "read_iv (next_seq ctx) = read_iv ctx"
  "sequence_number (next_seq ctx) = sequence_number ctx + 1"
  by (simp_all add: next_seq_def)

lemma length_sealed_record:
  "context_ok ctx \<Longrightarrow> length (sealed_record ctype ctx p) = length p + 21"
  by (simp add: sealed_record_def gcm_seal_eq context_ok_def)

lemma record_encrypt_eq:
  assumes "context_ok ctx" "length p \<le> 16384" "length p + 21 \<le> length out"
  shows "axon_record_encrypt (Some ctx) ctype (Some p) (length p) (Some out) (Some n) =
    Some (0, Some (next_seq ctx), Some (sealed_record ctype ctx p @ drop (length p + 21) out), Some (length p + 21))"
proof -
  let ?key = "write_key ctx" and ?iv = "nonce_of (write_iv ctx) (sequence_number ctx)"
  let ?ct = "gcm_ct ?key ?iv p" and ?tag = "gcm_tag_of ?key ?iv NULL 0 (gcm_ct ?key ?iv p)"
  have k: "16 \<le> length ?key" "length ?key = 32" "length ?iv = 12" "length (write_iv ctx) = 12"
    using assms(1) by (auto simp: context_ok_def)
  have enc: "aes_gcm_encrypt (Some ?key) (Some ?iv) (Some p) NULL 0 (Some (replicate 16384 0)) (Some 0) (Some (replicate 16 0)) =
     Some (0, Some (?ct @ drop (length p) (replicate 16384 0)), Some (length p), Some ?tag)"
    using aes_gcm_encrypt_eq [OF k(1,3), of NULL 0 p "replicate 16384 0" "replicate 16 0" 0] assms(2) by simp
  have "wr_bytes (record_header ctype (length p + 16) @ drop 5 out) 5 ?ct =
      Some (record_header ctype (length p + 16) @ ?ct @ drop (length p + 5) out)"
    using assms k by (subst wr_bytes_after) (auto simp: add.commute)
  moreover have "wr_bytes ((record_header ctype (length p + 16) @ ?ct) @ drop (length p + 5) out) (5 + length p) ?tag =
      Some ((record_header ctype (length p + 16) @ ?ct) @ ?tag @ drop (length p + 21) out)"
    using assms k by (subst wr_bytes_after) (auto simp: add.commute)
  moreover have "sealed_record ctype ctx p = record_header ctype (length p + 16) @ ?ct @ ?tag"
    using k by (simp add: sealed_record_def gcm_seal_eq)
  moreover have "rd_bytes ?key 0 32 = Some ?key" using k by (simp add: rd_bytes_def)
  moreover have "rd_bytes p 0 (length p) = Some p" by (simp add: rd_bytes_def)
  moreover have "rd_bytes (?ct @ drop (length p) (replicate 16384 0)) 0 (length p) = Some ?ct"
    using k by (simp add: rd_bytes_def)
  moreover have "5 \<le> length out" "\<not> 16384 < length p" using assms by auto
  ultimately show ?thesis
    using wr_header [of out ctype "length p + 16", where 'a = "int \<times> axon_context ptr \<times> byte list ptr \<times> nat ptr"]
    by (simp add: axon_record_encrypt_def build_nonce_eq [OF k(4)] enc Let_def next_seq_def)
qed

lemma record_decrypt_eq:
  assumes ctx: "context_ok ctx" and h: "heap_ok h" "fragment r = Some a" "blocks h a = Some frag"
    and r: "content_type r = TLS_CONTENT_APPLICATION_DATA" "unat (rec_length r) = length frag"
    "frag = ct @ tag" "length tag = 16" "length ct \<le> length buf"
  shows "\<exists>h'. axon_record_decrypt (Some ctx) (Some r) (Some buf) (Some n) h =
      (case gcm_open (read_key ctx) (nonce_of (read_iv ctx) (sequence_number ctx)) ct tag of
         (st, pt) \<Rightarrow> Some (st, Some (next_seq ctx), Some (r\<lparr>fragment := NULL\<rparr>),
                         Some (pt @ drop (length ct) buf), Some (length ct), h')) \<and>
     heap_ok h' \<and> blocks h' = (blocks h)(a := None)"
proof -
  let ?key = "read_key ctx" and ?iv = "nonce_of (read_iv ctx) (sequence_number ctx)"
  have k: "16 \<le> length ?key" "length ?key = 32" "length ?iv = 12" "length (read_iv ctx) = 12"
    using ctx by (auto simp: context_ok_def)
  have "frag \<noteq> []" using r by auto
  from sec.free_live [OF h(1,3) this] obtain h' where
    h': "secure_free (Some a) (length frag) h = Some h'" "heap_ok h'" "blocks h' = (blocks h)(a := None)" by blast
  have len: "unat (rec_length r) = length ct + 16" using r by simp
  have "rd_bytes frag (length ct) 16 = Some tag" "rd_bytes frag 0 (length ct) = Some ct"
    "rd_bytes ?key 0 32 = Some ?key"
    using r k by (simp_all add: rd_bytes_def)
  then show ?thesis
    using h h' r len k
    by (intro exI [of _ h'])
       (simp add: axon_record_decrypt_def build_nonce_eq [OF k(4)] aes_gcm_decrypt_eq gcm_open_eq Let_def next_seq_def)
qed

lemma well_framed_record:
  assumes "ctype \<noteq> 0x15" "0 < length body" "length body < 65536" "length body + 5 \<le> n"
  shows "well_framed (record_header ctype (length body) @ body @ rest) n"
    "frame_len (record_header ctype (length body) @ body @ rest) = length body"
    "take (length body) (drop 5 (record_header ctype (length body) @ body @ rest)) = body"
    "read_header (record_header ctype (length body) @ body @ rest) r =
       r\<lparr>content_type := ctype, version := 0x0304, rec_length := of_nat (length body)\<rparr>"
proof -
  have v: "be16 0x03 0x04 = 0x0304" by (simp add: be16_def)
  have "unat (of_nat (length body) :: u16) = length body"
    using assms(3) by (simp add: unat_of_nat take_bit_eq_mod)
  then show f: "frame_len (record_header ctype (length body) @ body @ rest) = length body"
    by (simp add: frame_len_def record_header_def be16_of_nat)
  show "well_framed (record_header ctype (length body) @ body @ rest) n"
    using assms by (simp add: well_framed_def f) (simp add: record_header_def v)
  show "take (length body) (drop 5 (record_header ctype (length body) @ body @ rest)) = body"
    by (simp add: drop_append [of 5 "record_header ctype (length body)"])
  show "read_header (record_header ctype (length body) @ body @ rest) r =
       r\<lparr>content_type := ctype, version := 0x0304, rec_length := of_nat (length body)\<rparr>"
    by (simp add: read_header_def record_header_def v be16_of_nat)
qed

text \<open>A framed body is read back, into a fresh block of the heap, when the allocation succeeds.\<close>

lemma record_read_framed:
  assumes "ctype \<noteq> 0x15" "0 < length body" "length body < 65536" "heap_ok h" "\<not> mfail h (next_addr h)"
    and "length body + 5 \<le> n" "n \<le> length body + 5 + length rest" "n < 2 ^ 64"
  shows "\<exists>a h'. axon_record_read (Some ctx) (Some (record_header ctype (length body) @ body @ rest)) n (Some r) h =
      Some (0, Some (r\<lparr>content_type := ctype, version := 0x0304, rec_length := of_nat (length body),
                       fragment := Some a\<rparr>), h') \<and>
      heap_ok h' \<and> blocks h a = None \<and> blocks h' = (blocks h)(a \<mapsto> body)"
proof -
  let ?data = "record_header ctype (length body) @ body @ rest"
  note w = well_framed_record [OF assms(1-3,6)]
  have "fst (secure_alloc (frame_len ?data) h) = Some (next_addr h)"
    using assms(2,5) w(2) by (simp add: secure_alloc_def Let_def)
  moreover have "n \<le> length ?data" using assms(7) by simp
  ultimately show ?thesis
    using record_read_accept [OF _ assms(8) w(1) [of rest] assms(4), of ctx r] w(2-4)
    by (intro exI [of _ "next_addr h"]) auto
qed

lemma secure_ops_mfail:
  "secure_alloc n h = (p, h') \<Longrightarrow> mfail h' = mfail h"
  "secure_free q n h = Some h' \<Longrightarrow> mfail h' = mfail h"
  by (auto simp: secure_alloc_def secure_free_def Let_def split: if_splits option.splits Option.bind_splits)

lemma record_ops_mfail:
  "axon_record_read c d n r h = Some (st, r', h') \<Longrightarrow> mfail h' = mfail h"
  "axon_record_decrypt c r' p m h = Some (st, c', r'', p', m', h') \<Longrightarrow> mfail h' = mfail h"
  by (auto simp: axon_record_read_def axon_record_decrypt_def Let_def dest: secure_ops_mfail
      split: if_splits option.splits Option.bind_splits prod.splits)

text \<open>Whatever the arguments are, protection and its removal only move the sequence number, and only remove the fragment's block.\<close>

lemma record_encrypt_returns:
  assumes "axon_record_encrypt (Some ctx) ctype p len out n = Some (ret, p', out', n')"
  shows "ret \<in> {0, -1} \<and> (p' = Some ctx \<or> p' = Some (next_seq ctx))"
  using assms
  by (auto simp: axon_record_encrypt_def next_seq_def Let_def split: if_splits option.splits Option.bind_splits)

lemma aes_gcm_decrypt_ret: "aes_gcm_decrypt k i c a l out n t = Some (ret, out', n') \<Longrightarrow> ret \<in> {0, -1}"
  by (auto simp: aes_gcm_decrypt_def Let_def split: if_splits option.splits Option.bind_splits)

lemma record_decrypt_returns:
  assumes "axon_record_decrypt (Some ctx) (Some r) pt n h = Some (ret, p', r', pt', n', h')"
    and "heap_ok h" "fragment r = Some a" "blocks h a = Some frag" "length frag = unat (rec_length r)" "frag \<noteq> []"
  shows "ret \<in> {0, -1} \<and> heap_ok h' \<and>
    (ret = -1 \<and> p' = Some ctx \<and> blocks h' = blocks h \<or> p' = Some (next_seq ctx) \<and> blocks h' = (blocks h)(a := None))"
proof -
  obtain h2 where h2: "secure_free (Some a) (unat (rec_length r)) h = Some h2" "heap_ok h2" "blocks h2 = (blocks h)(a := None)"
    using sec.free_live [OF assms(2,4,6)] assms(5) by auto
  show ?thesis
    using assms(1-3) h2
    by (auto simp: axon_record_decrypt_def next_seq_def Let_def split: if_splits option.splits Option.bind_splits
        dest: aes_gcm_decrypt_ret)
qed

lemma record_write_eq:
  assumes "length p \<le> 16384" "length p + 5 \<le> length out"
  shows "axon_record_write (Some ctx) ctype (Some p) (length p) (Some out) (Some n) =
    Some (0, Some (record_header ctype (length p) @ p @ drop (length p + 5) out), Some (length p + 5))"
proof -
  have "wr_bytes (record_header ctype (length p) @ drop 5 out) 5 p =
      Some (record_header ctype (length p) @ p @ drop (length p + 5) out)"
    using assms by (subst wr_bytes_after) (auto simp: add.commute)
  moreover have "rd_bytes p 0 (length p) = Some p" by (simp add: rd_bytes_def)
  ultimately show ?thesis
    using wr_header [of out ctype "length p", where 'a = "int \<times> byte list ptr \<times> nat ptr"] assms
    by (cases "p = []") (simp_all add: axon_record_write_def)
qed

text \<open>A sealed body at the head of what has arrived is parsed and opened.\<close>

lemma record_receive:
  assumes "context_ok r" "heap_ok h" "\<not> mfail h (next_addr h)"
    and len: "length tag = 16" "length ct \<le> 16384" "length ct \<le> length buf"
    and body: "body = ct @ tag" "length body + 5 \<le> n" "n \<le> length body + 5 + length rest" "n < 2 ^ 64"
  shows "\<exists>rec rec' h' h''.
     axon_record_read (Some r) (Some (record_header TLS_CONTENT_APPLICATION_DATA (length body) @ body @ rest)) n (Some rec0) h =
       Some (0, Some rec, h') \<and> unat (rec_length rec) = length body \<and>
     axon_record_decrypt (Some r) (Some rec) (Some buf) (Some m) h' =
       (case gcm_open (read_key r) (nonce_of (read_iv r) (sequence_number r)) ct tag of
          (st, pt) \<Rightarrow> Some (st, Some (next_seq r), Some rec', Some (pt @ drop (length ct) buf), Some (length ct), h'')) \<and>
     heap_ok h'' \<and> blocks h'' = blocks h \<and> mfail h'' = mfail h"
proof -
  have b: "0 < length body" "length body < 65536" using len body(1) by simp_all
  have "TLS_CONTENT_APPLICATION_DATA \<noteq> 0x15" by (simp add: content_type_defs)
  from record_read_framed [OF this b assms(2,3) body(2-4), of r rec0]
  obtain a h' where rd: "axon_record_read (Some r) (Some (record_header TLS_CONTENT_APPLICATION_DATA (length body) @ body @ rest))
        n (Some rec0) h = Some (0, Some (rec0\<lparr>content_type := TLS_CONTENT_APPLICATION_DATA,
          version := 0x0304, rec_length := of_nat (length body), fragment := Some a\<rparr>), h')"
      "heap_ok h'" "blocks h a = None" "blocks h' = (blocks h)(a \<mapsto> body)"
    by blast
  let ?rec = "rec0\<lparr>content_type := TLS_CONTENT_APPLICATION_DATA,
          version := 0x0304, rec_length := of_nat (length body), fragment := Some a\<rparr>"
  have n: "unat (rec_length ?rec) = length body" using b(2) by (simp add: unat_of_nat take_bit_eq_mod)
  with record_decrypt_eq [OF assms(1) rd(2), of ?rec a body ct tag buf m] rd(4) len body(1)
  obtain h'' where d: "axon_record_decrypt (Some r) (Some ?rec) (Some buf) (Some m) h' =
      (case gcm_open (read_key r) (nonce_of (read_iv r) (sequence_number r)) ct tag of
          (st, pt) \<Rightarrow> Some (st, Some (next_seq r), Some (?rec\<lparr>fragment := NULL\<rparr>),
            Some (pt @ drop (length ct) buf), Some (length ct), h''))"
    "heap_ok h''" "blocks h'' = (blocks h')(a := None)"
    by auto
  have "mfail h'' = mfail h"
    using record_ops_mfail(1) [OF rd(1)] d(1) by (auto split: prod.splits dest: record_ops_mfail(2))
  moreover have "blocks h'' = blocks h" using d(3) rd(3,4) by auto
  ultimately show ?thesis
    using rd(1) n d(1,2)
    by (intro exI [of _ ?rec] exI [of _ "?rec\<lparr>fragment := NULL\<rparr>"] exI [of _ h'] exI [of _ h'']) simp
qed

lemma sealed_body:
  assumes "context_ok s" "gcm_seal (write_key s) (nonce_of (write_iv s) (sequence_number s)) p = (ct, tag)"
  shows "sealed_record ctype s p = record_header ctype (length (ct @ tag)) @ (ct @ tag)"
    "length ct = length p" "length tag = 16"
proof -
  have "16 \<le> length (write_key s) \<and> length (nonce_of (write_iv s) (sequence_number s)) = 12"
    using assms(1) by (simp add: context_ok_def)
  from gcm.seal_length [OF this assms(2)] show "length ct = length p" "length tag = 16" by simp_all
  then show "sealed_record ctype s p = record_header ctype (length (ct @ tag)) @ (ct @ tag)"
    using assms(2) by (simp add: sealed_record_def)
qed

text \<open>Sealing, parsing and opening in a row, whatever the sequence numbers are.\<close>

lemma record_transport:
  assumes ok: "context_ok s" "context_ok r" and key: "write_key s = read_key r"
    and len: "length p \<le> 16384" "length p + 21 \<le> length out" "length p \<le> length buf"
    and h: "heap_ok h" "\<not> mfail h (next_addr h)"
    and seal: "gcm_seal (write_key s) (nonce_of (write_iv s) (sequence_number s)) p = (ct, tag)"
  shows "\<exists>out' rec rec' h' h''.
     axon_record_encrypt (Some s) TLS_CONTENT_APPLICATION_DATA (Some p) (length p) (Some out) (Some n) =
       Some (0, Some (next_seq s), Some out', Some (length p + 21)) \<and>
     axon_record_read (Some r) (Some out') (length p + 21) (Some rec0) h = Some (0, Some rec, h') \<and>
     axon_record_decrypt (Some r) (Some rec) (Some buf) (Some m) h' =
       (case gcm_open (read_key r) (nonce_of (read_iv r) (sequence_number r)) ct tag of
          (st, pt) \<Rightarrow> Some (st, Some (next_seq r), Some rec', Some (pt @ drop (length p) buf), Some (length p), h'')) \<and>
     blocks h'' = blocks h"
  using record_receive [OF ok(2) h, of tag ct buf "ct @ tag" "length p + 21" "drop (length p + 21) out" rec0 m]
    record_encrypt_eq [OF ok(1) len(1,2), of TLS_CONTENT_APPLICATION_DATA n] sealed_body [OF ok(1) seal] len
  by fastforce

section \<open>Properties\<close>

text \<open>
  C10. \<open>axon_record_read\<close> never reads behind the \<open>len\<close> bytes it was given. It returns 0 exactly for a
  record that is complete, not an alert, of version 3.3 or 3.4 and not empty, when the
  fragment can be allocated; the fragment is then a fresh block with the payload. In every
  other case it returns -1 and the heap keeps exactly the blocks it had, so nothing leaks.
\<close>

theorem record_read_correct:
  assumes "len \<le> length data" "len < 2 ^ 64" "heap_ok h"
  shows "\<exists>st r' h'. axon_record_read (Some ctx) (Some data) len (Some r) h = Some (st, Some r', h') \<and> heap_ok h' \<and>
     (if 5 \<le> len \<and> 5 + unat (be16 (data ! 3) (data ! 4)) \<le> len \<and> data ! 0 \<noteq> 0x15 \<and>
         be16 (data ! 1) (data ! 2) \<in> {0x0304, 0x0303} \<and> 0 < unat (be16 (data ! 3) (data ! 4)) \<and>
         \<not> mfail h (next_addr h)
      then st = 0 \<and> (\<exists>a. blocks h a = None \<and>
             blocks h' = (blocks h)(a \<mapsto> take (unat (rec_length r')) (drop 5 data)) \<and>
             r' = \<lparr>content_type = data ! 0, version = be16 (data ! 1) (data ! 2),
                   rec_length = be16 (data ! 3) (data ! 4), fragment = Some a\<rparr>)
      else st = -1 \<and> blocks h' = blocks h)"
proof (cases "well_framed data len")
  case False
  with record_read_reject [OF assms(1,2) False, of ctx r h] assms(3) show ?thesis
    by (auto simp: well_framed_def frame_len_def)
next
  case True
  then have alloc: "fst (secure_alloc (frame_len data) h) = (if mfail h (next_addr h) then None else Some (next_addr h))"
    by (simp add: secure_alloc_def well_framed_def Let_def)
  obtain h' where h': "heap_ok h'"
    "if mfail h (next_addr h)
     then axon_record_read (Some ctx) (Some data) len (Some r) h =
            Some (-1, Some (read_header data r\<lparr>fragment := NULL\<rparr>), h') \<and> blocks h' = blocks h
     else axon_record_read (Some ctx) (Some data) len (Some r) h =
            Some (0, Some (read_header data r\<lparr>fragment := Some (next_addr h)\<rparr>), h') \<and>
            blocks h (next_addr h) = None \<and>
            blocks h' = (blocks h)(next_addr h \<mapsto> take (frame_len data) (drop 5 data))"
    using record_read_accept [OF assms(1,2) True assms(3), of ctx r] unfolding alloc by (auto split: if_splits)
  have "read_header data r\<lparr>fragment := f\<rparr> = \<lparr>content_type = data ! 0, version = be16 (data ! 1) (data ! 2),
      rec_length = be16 (data ! 3) (data ! 4), fragment = f\<rparr>" for f
    by (cases r) (simp add: read_header_def)
  with h' True show ?thesis
    by (cases "mfail h (next_addr h)") (auto simp: well_framed_def frame_len_def)
qed

lemma record_read_correct_witness:
  "\<exists>st r' h'. axon_record_read (Some zero_context) (Some [0x16, 3, 4, 0, 2, 7, 9]) 7 (Some \<lparr>content_type = 0, version = 0,
       rec_length = 0, fragment = NULL\<rparr>) (empty_heap (\<lambda>_. False)) = Some (st, Some r', h') \<and> st = 0 \<and> heap_ok h'"
  using record_read_correct [of 7 "[0x16, 3, 4, 0, 2, 7, 9]" "empty_heap (\<lambda>_. False)" zero_context
      "\<lparr>content_type = 0, version = 0, rec_length = 0, fragment = NULL\<rparr>"]
  by (auto simp: heap_ok_empty be16_def)

text \<open>
  What \<open>axon_record_write\<close> frames, \<open>axon_record_read\<close> gives back: content type, version 0x0304,
  length and payload, for every payload of 1 to 16384 bytes and every type except alert.
\<close>

theorem record_write_read:
  assumes "ctype \<noteq> TLS_CONTENT_ALERT" "0 < length p" "length p \<le> 16384" "length p + 5 \<le> length out"
    "heap_ok h" "\<not> mfail h (next_addr h)"
  shows "\<exists>out'. axon_record_write (Some ctx) ctype (Some p) (length p) (Some out) (Some n) =
       Some (0, Some out', Some (length p + 5)) \<and> length out' = length out \<and>
     (\<exists>a h'. axon_record_read (Some ctx') (Some out') (length p + 5) (Some r) h =
        Some (0, Some (r\<lparr>content_type := ctype, version := 0x0304, rec_length := of_nat (length p),
                         fragment := Some a\<rparr>), h') \<and>
        blocks h a = None \<and> blocks h' = (blocks h)(a \<mapsto> p))"
proof -
  have "length p < 65536" "ctype \<noteq> 0x15" using assms by (auto simp: content_type_defs)
  with record_read_framed [of ctype p h "length p + 5" "drop (length p + 5) out" ctx' r] assms show ?thesis
    by (fastforce simp: record_write_eq)
qed

lemma record_write_read_witness:
  "\<exists>out'. axon_record_write (Some zero_context) 0x16 (Some (replicate 3 9)) 3 (Some (replicate 8 0)) (Some 0) =
       Some (0, Some out', Some 8) \<and> length out' = 8"
  using record_write_read [of "0x16" "replicate 3 9" "replicate 8 0" "empty_heap (\<lambda>_. False)" zero_context 0]
  by (auto simp: heap_ok_empty content_type_defs)

text \<open>
  A protected record comes back: when the receiver's read key and IV are the sender's write key and
  IV and both are at the same sequence number, a sealed plaintext of up to 16384 bytes is parsed and decrypted
  to the same bytes, both sequence numbers advance by one, and the fragment's block is freed again.
\<close>

theorem record_protect_roundtrip:
  assumes "context_ok s" "context_ok r" "write_key s = read_key r" "write_iv s = read_iv r"
    "sequence_number s = sequence_number r"
    "length p \<le> 16384" "length p + 21 \<le> length out" "length p \<le> length buf"
    "heap_ok h" "\<not> mfail h (next_addr h)"
  shows "\<exists>out' rec rec' h' h''.
     axon_record_encrypt (Some s) TLS_CONTENT_APPLICATION_DATA (Some p) (length p) (Some out) (Some n) =
       Some (0, Some (s\<lparr>sequence_number := sequence_number s + 1\<rparr>), Some out', Some (length p + 21)) \<and>
     axon_record_read (Some r) (Some out') (length p + 21) (Some rec0) h = Some (0, Some rec, h') \<and>
     axon_record_decrypt (Some r) (Some rec) (Some buf) (Some m) h' =
       Some (0, Some (r\<lparr>sequence_number := sequence_number r + 1\<rparr>), Some rec',
             Some (p @ drop (length p) buf), Some (length p), h'') \<and>
     blocks h'' = blocks h"
proof -
  obtain ct tag where seal: "gcm_seal (write_key s) (nonce_of (write_iv s) (sequence_number s)) p = (ct, tag)"
    by fastforce
  then have "gcm_open (read_key r) (nonce_of (read_iv r) (sequence_number r)) ct tag = (0, p)"
    using gcm.open_seal [OF _ seal] assms(1-5) by (simp add: context_ok_def)
  then show ?thesis
    using record_transport [OF assms(1-3,6-10) seal, of n rec0 m] by (simp add: next_seq_def)
qed

lemma record_protect_roundtrip_witness:
  "\<exists>out'. axon_record_encrypt (Some zero_context) TLS_CONTENT_APPLICATION_DATA (Some (replicate 20 7)) 20
      (Some (replicate 50 0)) (Some 0) = Some (0, Some (zero_context\<lparr>sequence_number := 1\<rparr>), Some out', Some 41)"
  using record_protect_roundtrip [of zero_context zero_context "replicate 20 7" "replicate 50 0" "replicate 20 0"
      "empty_heap (\<lambda>_. False)" 0]
  by (auto simp: heap_ok_empty)

text \<open>
  C33. Encryption and decryption share one sequence number, so the two directions disturb each other: if the
  receiver's counter is not the sender's -- after it has sent a record itself, say -- a genuine record is
  rejected with -1, its block is given back and the counter has moved on. By then a wrong plaintext and its length have
  been written: the sender's, with bytes 4 to 11 of every block of 16 XORed with the difference of the two counters,
  whatever the keys are.
\<close>

theorem record_desync_rejected:
  assumes "context_ok s" "context_ok r" "write_key s = read_key r" "write_iv s = read_iv r"
    "sequence_number s \<noteq> sequence_number r"
    "length p \<le> 16384" "length p + 21 \<le> length out" "length p \<le> length buf"
    "heap_ok h" "\<not> mfail h (next_addr h)"
  shows "\<exists>out' rec rec' h' h''.
     axon_record_encrypt (Some s) TLS_CONTENT_APPLICATION_DATA (Some p) (length p) (Some out) (Some n) =
       Some (0, Some (s\<lparr>sequence_number := sequence_number s + 1\<rparr>), Some out', Some (length p + 21)) \<and>
     axon_record_read (Some r) (Some out') (length p + 21) (Some rec0) h = Some (0, Some rec, h') \<and>
     axon_record_decrypt (Some r) (Some rec) (Some buf) (Some m) h' =
       Some (-1, Some (r\<lparr>sequence_number := sequence_number r + 1\<rparr>), Some rec',
         Some (map (\<lambda>i. p ! i XOR (if 4 \<le> i mod 16 \<and> i mod 16 < 12
             then byte_at (8 * (11 - i mod 16)) (sequence_number s XOR sequence_number r) else 0)) [0..<length p] @
           drop (length p) buf),
         Some (length p), h'') \<and>
     blocks h'' = blocks h"
proof -
  let ?iv = "nonce_of (write_iv s) (sequence_number s)" and ?iv' = "nonce_of (write_iv s) (sequence_number r)"
  have k: "16 \<le> length (read_key r)" "length (write_iv s) = 12" using assms(1,2) by (auto simp: context_ok_def)
  let ?ct = "gcm_ct (read_key r) ?iv p"
  let ?tag = "gcm_tag_of (read_key r) ?iv NULL 0 ?ct"
  have seal: "gcm_seal (write_key s) ?iv p = (?ct, ?tag)" using k assms(3) by (simp add: gcm_seal_eq)
  have "fst (gcm_open (read_key r) ?iv' ?ct ?tag) = -1"
    using gcm_wrong_nonce [OF _ _ _ _ seal] nonce_of_inj k assms(3,5) by simp
  then have "gcm_open (read_key r) (nonce_of (read_iv r) (sequence_number r)) ?ct ?tag =
    (-1, map (\<lambda>i. p ! i XOR nonce_difference (sequence_number s) (sequence_number r) i) [0..<length p])"
    using k by (simp add: assms(4) [symmetric] gcm_open_eq other_sequence split: if_splits)
  then show ?thesis
    using record_transport [OF assms(1-3,6-10) seal, of n rec0 m] by (simp add: next_seq_def nonce_difference_def)
qed

text \<open>The witness: two peers that have both just sent their first record.\<close>

lemma record_desync_rejected_witness:
  "\<exists>out'. axon_record_encrypt (Some zero_context) TLS_CONTENT_APPLICATION_DATA (Some (replicate 20 7)) 20
      (Some (replicate 50 0)) (Some 0) = Some (0, Some (zero_context\<lparr>sequence_number := 1\<rparr>), Some out', Some 41)"
  using record_desync_rejected [of zero_context "next_seq zero_context" "replicate 20 7" "replicate 50 0" "replicate 20 0"
      "empty_heap (\<lambda>_. False)" 0]
  by (auto simp: heap_ok_empty)

end
