(* ===== verification/Axon_Sha256.thy ===== *)
theory Axon_Sha256
  imports Axon_Prelude Complex_Main
begin

text \<open>
  SHA-256 as \<open>crypto/source/sha256.c\<close> computes it: an incremental context that absorbs a
  byte at a time and a final step that pads. The reference definition \<open>fips_sha256\<close> follows
  FIPS 180-4 (padding of the whole message, then one compression per 64-byte block) and shares nothing with the code: its
  constants are the fractions of the square and cube roots of the first primes that the standard names.

  \<open>sha256_final\<close> pads in an array of 64 bytes although the padding can need up to 72, so
  the model's result is None where \<open>memset\<close> would write behind that array.
\<close>

section \<open>The code\<close>

record sha256_ctx =
  sh :: "u32 list"
  scount :: u64
  sbuffer :: "byte list"

definition ROTR32 :: "u32 \<Rightarrow> nat \<Rightarrow> u32" where
  "ROTR32 x n = drop_bit n x OR push_bit (32 - n) x"

definition CH :: "u32 \<Rightarrow> u32 \<Rightarrow> u32 \<Rightarrow> u32" where
  "CH x y z = (x AND y) XOR (NOT x AND z)"

definition MAJ :: "u32 \<Rightarrow> u32 \<Rightarrow> u32 \<Rightarrow> u32" where
  "MAJ x y z = (x AND y) XOR (x AND z) XOR (y AND z)"

definition SIG0 :: "u32 \<Rightarrow> u32" where
  "SIG0 x = ROTR32 x 2 XOR ROTR32 x 13 XOR ROTR32 x 22"

definition SIG1 :: "u32 \<Rightarrow> u32" where
  "SIG1 x = ROTR32 x 6 XOR ROTR32 x 11 XOR ROTR32 x 25"

definition SIG2 :: "u32 \<Rightarrow> u32" where
  "SIG2 x = ROTR32 x 7 XOR ROTR32 x 18 XOR drop_bit 3 x"

definition SIG3 :: "u32 \<Rightarrow> u32" where
  "SIG3 x = ROTR32 x 17 XOR ROTR32 x 19 XOR drop_bit 10 x"

definition K_table :: "u32 list" where
  "K_table = [
    0x428A2F98, 0x71374491, 0xB5C0FBCF, 0xE9B5DBA5,
    0x3956C25B, 0x59F111F1, 0x923F82A4, 0xAB1C5ED5,
    0xD807AA98, 0x12835B01, 0x243185BE, 0x550C7DC3,
    0x72BE5D74, 0x80DEB1FE, 0x9BDC06A7, 0xC19BF174,
    0xE49B69C1, 0xEFBE4786, 0x0FC19DC6, 0x240CA1CC,
    0x2DE92C6F, 0x4A7484AA, 0x5CB0A9DC, 0x76F988DA,
    0x983E5152, 0xA831C66D, 0xB00327C8, 0xBF597FC7,
    0xC6E00BF3, 0xD5A79147, 0x06CA6351, 0x14292967,
    0x27B70A85, 0x2E1B2138, 0x4D2C6DFC, 0x53380D13,
    0x650A7354, 0x766A0ABB, 0x81C2C92E, 0x92722C85,
    0xA2BFE8A1, 0xA81A664B, 0xC24B8B70, 0xC76C51A3,
    0xD192E819, 0xD6990624, 0xF40E3585, 0x106AA070,
    0x19A4C116, 0x1E376C08, 0x2748774C, 0x34B0BCB5,
    0x391C0CB3, 0x4ED8AA4A, 0x5B9CCA4F, 0x682E6FF3,
    0x748F82EE, 0x78A5636F, 0x84C87814, 0x8CC70208,
    0x90BEFFFA, 0xA4506CEB, 0xBEF9A3F7, 0xC67178F2]"

definition sha256_init :: sha256_ctx where
  "sha256_init =
     \<lparr>sh = [0x6A09E667, 0xBB67AE85, 0x3C6EF372, 0xA54FF53A,
            0x510E527F, 0x9B05688C, 0x1F83D9AB, 0x5BE0CD19],
      scount = 0, sbuffer = replicate 64 0\<rparr>"

text \<open>The schedule \<open>w[64]\<close>: sixteen words from the buffer, then one per further index.\<close>

definition load_words :: "byte list \<Rightarrow> u32 list" where
  "load_words buf =
     map (\<lambda>i. be32 (buf ! (i * 4)) (buf ! (i * 4 + 1)) (buf ! (i * 4 + 2)) (buf ! (i * 4 + 3)))
       [0..<16]"

definition extend_words :: "u32 list \<Rightarrow> nat \<Rightarrow> u32 list" where
  "extend_words w i =
     w @ [SIG3 (w ! (i - 2)) + w ! (i - 7) + SIG2 (w ! (i - 15)) + w ! (i - 16)]"

definition schedule :: "byte list \<Rightarrow> u32 list" where
  "schedule buf = foldl extend_words (load_words buf) [16..<64]"

type_synonym sha_vars = "u32 \<times> u32 \<times> u32 \<times> u32 \<times> u32 \<times> u32 \<times> u32 \<times> u32"

fun sha_round :: "sha_vars \<Rightarrow> u32 \<times> u32 \<Rightarrow> sha_vars" where
  "sha_round (a, b, c, d, e, f, g, h) (k, w) =
     (let t1 = h + SIG1 e + CH e f g + k + w;
          t2 = SIG0 a + MAJ a b c
      in (t1 + t2, a, b, c, d + t1, e, f, g))"

fun add_vars :: "u32 list \<Rightarrow> sha_vars \<Rightarrow> u32 list" where
  "add_vars hs (a, b, c, d, e, f, g, h) = map2 (+) hs [a, b, c, d, e, f, g, h]"

definition load_vars :: "u32 list \<Rightarrow> sha_vars" where
  "load_vars hs = (hs ! 0, hs ! 1, hs ! 2, hs ! 3, hs ! 4, hs ! 5, hs ! 6, hs ! 7)"

definition sha256_transform :: "sha256_ctx \<Rightarrow> sha256_ctx" where
  "sha256_transform ctx =
     ctx\<lparr>sh := add_vars (sh ctx)
                (foldl sha_round (load_vars (sh ctx)) (zip K_table (schedule (sbuffer ctx))))\<rparr>"

text \<open>One turn of the loop of \<open>sha256_update\<close>.\<close>

definition sha256_byte :: "sha256_ctx \<Rightarrow> byte \<Rightarrow> sha256_ctx" where
  "sha256_byte ctx x =
     (let ctx = ctx\<lparr>sbuffer := (sbuffer ctx)[unat (scount ctx mod 64) := x]\<rparr>;
          ctx = ctx\<lparr>scount := scount ctx + 1\<rparr>
      in if scount ctx mod 64 = 0
         then (sha256_transform ctx)\<lparr>sbuffer := replicate 64 0\<rparr> else ctx)"

definition sha256_update :: "sha256_ctx \<Rightarrow> byte list ptr \<Rightarrow> sha256_ctx" where
  "sha256_update ctx p = (case p of None \<Rightarrow> ctx | Some data \<Rightarrow> foldl sha256_byte ctx data)"

definition store_words :: "u32 list \<Rightarrow> byte list" where
  "store_words hs = concat (map (\<lambda>v. [byte_at 24 v, byte_at 16 v, byte_at 8 v, byte_at 0 v]) hs)"

text \<open>The local array \<open>padding[64]\<close>: zeroed, first byte 0x80, bit count in the last eight.\<close>

definition final_padding :: "nat \<Rightarrow> u64 \<Rightarrow> byte list option" where
  "final_padding pad_len bit_count = do {
     padding \<leftarrow> wr_bytes (replicate 64 0) 0 (replicate pad_len 0);
     padding \<leftarrow> wr padding 0 0x80;
     for_upto 0 8
       (\<lambda>i padding. wr padding (pad_len - 8 + i) (byte_at ((7 - i) * 8) bit_count)) padding }"

definition sha256_final :: "sha256_ctx \<Rightarrow> (sha256_ctx \<times> byte list) option" where
  "sha256_final ctx =
     (let bit_count = scount ctx * 8;
          pad_len = 64 - unat (scount ctx mod 64);
          pad_len = (if pad_len < 9 then pad_len + 64 else pad_len)
      in do {
        padding \<leftarrow> final_padding pad_len bit_count;
        let ctx = sha256_update ctx (Some (take pad_len padding));
        Some (ctx, store_words (sh ctx)) })"

definition sha256 :: "byte list ptr \<Rightarrow> byte list option" where
  "sha256 p = map_option snd (sha256_final (sha256_update sha256_init p))"

section \<open>The standard\<close>

text \<open>
  The constants of the standard: the first 32 bits of the fractional parts of the cube roots of the first 64 primes, and, as the initial hash value, of the
  square roots of the first eight.
\<close>

definition first_primes :: "nat list" where
  "first_primes =
    [2, 3, 5, 7, 11, 13, 17, 19, 23, 29, 31, 37, 41, 43, 47, 53, 59, 61, 67, 71, 73, 79, 83, 89, 97, 101, 103, 107, 109, 113,
     127, 131, 137, 139, 149, 151, 157, 163, 167, 173, 179, 181, 191, 193, 197, 199, 211, 223, 227, 229, 233, 239, 241, 251,
     257, 263, 269, 271, 277, 281, 283, 293, 307, 311]"

definition fraction_bits :: "real \<Rightarrow> u32" where
  "fraction_bits x = word_of_int \<lfloor>x * 2 ^ 32\<rfloor>"

definition fips_K :: "u32 list" where
  "fips_K = map (\<lambda>p. fraction_bits (root 3 (real p))) first_primes"

definition fips_H0 :: "u32 list" where
  "fips_H0 = map (\<lambda>p. fraction_bits (sqrt (real p))) (take 8 first_primes)"

definition fips_Sigma0 :: "u32 \<Rightarrow> u32" where
  "fips_Sigma0 x = word_rotr 2 x XOR word_rotr 13 x XOR word_rotr 22 x"

definition fips_Sigma1 :: "u32 \<Rightarrow> u32" where
  "fips_Sigma1 x = word_rotr 6 x XOR word_rotr 11 x XOR word_rotr 25 x"

definition fips_sigma0 :: "u32 \<Rightarrow> u32" where
  "fips_sigma0 x = word_rotr 7 x XOR word_rotr 18 x XOR drop_bit 3 x"

definition fips_sigma1 :: "u32 \<Rightarrow> u32" where
  "fips_sigma1 x = word_rotr 17 x XOR word_rotr 19 x XOR drop_bit 10 x"

text \<open>The message schedule as the recurrence of the standard.\<close>

fun fips_W :: "byte list \<Rightarrow> nat \<Rightarrow> u32" where
  "fips_W blk t =
     (if t < 16
      then word_of_int (256 ^ 3 * uint (blk ! (4 * t)) + 256 ^ 2 * uint (blk ! (4 * t + 1)) +
                        256 * uint (blk ! (4 * t + 2)) + uint (blk ! (4 * t + 3)))
      else fips_sigma1 (fips_W blk (t - 2)) + fips_W blk (t - 7) +
           fips_sigma0 (fips_W blk (t - 15)) + fips_W blk (t - 16))"

declare fips_W.simps [simp del]

text \<open>The eight working variables after \<open>t\<close> rounds.\<close>

fun fips_vars :: "u32 list \<Rightarrow> byte list \<Rightarrow> nat \<Rightarrow> sha_vars" where
  "fips_vars hs blk 0 = (hs ! 0, hs ! 1, hs ! 2, hs ! 3, hs ! 4, hs ! 5, hs ! 6, hs ! 7)"
| "fips_vars hs blk (Suc t) =
     (case fips_vars hs blk t of (a, b, c, d, e, f, g, h) \<Rightarrow>
        let T1 = h + fips_Sigma1 e + ((e AND f) XOR (NOT e AND g)) + fips_K ! t + fips_W blk t;
            T2 = fips_Sigma0 a + ((a AND b) XOR (a AND c) XOR (b AND c))
        in (T1 + T2, a, b, c, d + T1, e, f, g))"

definition fips_compress :: "u32 list \<Rightarrow> byte list \<Rightarrow> u32 list" where
  "fips_compress hs blk =
     (case fips_vars hs blk 64 of (a, b, c, d, e, f, g, h) \<Rightarrow>
        [hs ! 0 + a, hs ! 1 + b, hs ! 2 + c, hs ! 3 + d,
         hs ! 4 + e, hs ! 5 + f, hs ! 6 + g, hs ! 7 + h])"

definition be64_bytes :: "nat \<Rightarrow> byte list" where
  "be64_bytes n = map (\<lambda>i. of_nat (n div 256 ^ (7 - i))) [0..<8]"

definition fips_pad :: "byte list \<Rightarrow> byte list" where
  "fips_pad m = m @ [0x80] @ replicate ((119 - length m mod 64) mod 64) 0 @ be64_bytes (8 * length m)"

definition full_blocks :: "byte list \<Rightarrow> byte list list" where
  "full_blocks m = map (\<lambda>i. take 64 (drop (64 * i) m)) [0..<length m div 64]"

text \<open>The bytes of the digest: every word from its most significant byte.\<close>

definition fips_bytes :: "u32 list \<Rightarrow> byte list" where
  "fips_bytes hs = concat (map (\<lambda>w. map (\<lambda>i. of_nat (unat w div 256 ^ i)) [3, 2, 1, 0]) hs)"

definition fips_sha256 :: "byte list \<Rightarrow> byte list" where
  "fips_sha256 m = fips_bytes (foldl fips_compress fips_H0 (full_blocks (fips_pad m)))"

section \<open>The constants\<close>

text \<open>\<open>w\<close> is the fraction of the root when, behind some whole part, its power is the next one below.\<close>

definition whole_root :: "nat \<Rightarrow> nat \<Rightarrow> u32 \<Rightarrow> bool" where
  "whole_root n p w \<longleftrightarrow> list_ex (\<lambda>c. let k = c * 2 ^ 32 + uint w in 0 \<le> c \<and> k ^ n \<le> int p * (2 ^ 32) ^ n \<and> int p * (2 ^ 32) ^ n < (k + 1) ^ n) [1, 2, 3, 4, 5, 6]"

lemma fraction_root:
  assumes "0 < n" "whole_root n p w"
  shows "fraction_bits (root n (real p)) = w"
proof -
  from assms(2) obtain c where c: "0 \<le> c * 2 ^ 32 + uint w" "(c * 2 ^ 32 + uint w) ^ n \<le> int p * (2 ^ 32) ^ n"
    "int p * (2 ^ 32) ^ n < (c * 2 ^ 32 + uint w + 1) ^ n"
    unfolding whole_root_def list_ex_iff Let_def by (metis add_nonneg_nonneg mult_nonneg_nonneg uint_ge_0 zero_le_numeral zero_le_power)
  let ?k = "c * 2 ^ 32 + uint w"
  have r: "(root n (real p) * 2 ^ 32) ^ n = of_int (int p * (2 ^ 32) ^ n)"
    using assms(1) by (simp add: power_mult_distrib)
  have "of_int ?k ^ n \<le> (root n (real p) * 2 ^ 32) ^ n" 
    unfolding r using c(2) by (simp only: of_int_power [symmetric] of_int_le_iff)
  then have "of_int ?k \<le> root n (real p) * 2 ^ 32"
    by (rule power_le_imp_le_base [of _ "n - 1", unfolded Suc_diff_1 [OF assms(1)]]) (use assms(1) in \<open>simp add: real_root_ge_zero\<close>)
  moreover have "(root n (real p) * 2 ^ 32) ^ n < of_int (?k + 1) ^ n"
    unfolding r using c(3) by (simp only: of_int_power [symmetric] of_int_less_iff)
  then have "root n (real p) * 2 ^ 32 < of_int (?k + 1)"
    by (rule power_less_imp_less_base) (use c(1) in linarith)
  ultimately have "\<lfloor>root n (real p) * 2 ^ 32\<rfloor> = ?k" by (intro floor_unique) simp_all
  moreover have "word_of_int ?k = (word_of_int (uint w) :: u32)"
    by (simp only: word_of_int_eq_iff take_bit_eq_mod) simp
  ultimately show ?thesis by (simp add: fraction_bits_def del: of_int_add)
qed

lemma fraction_roots: "0 < n \<Longrightarrow> list_all2 (whole_root n) ps ws \<Longrightarrow> map (\<lambda>p. fraction_bits (root n (real p))) ps = ws"
  by (rule list_all2_map1 [THEN iffD2, THEN list_all2_eq [THEN iffD2]]) (auto elim!: list_all2_mono simp: fraction_root)

lemma K_table_fips: "fips_K = K_table"
  unfolding fips_K_def by (rule fraction_roots) (simp, code_simp)

lemma fips_H0_eq: "fips_H0 = sh sha256_init"
  unfolding fips_H0_def sqrt_def sha256_init_def sha256_ctx.select_convs by (rule fraction_roots) (simp, code_simp)

lemma length_fips_H0 [simp]: "length fips_H0 = 8"
  by (simp add: fips_H0_def first_primes_def)

section \<open>Bytes\<close>

lemma byte_at_of_nat:
  assumes "8 * k + 8 \<le> LENGTH('a)"
  shows "byte_at (8 * k) (of_nat n :: 'a::len word) = of_nat (n div 256 ^ k)"
proof (rule bit_word_eqI)
  fix i assume "i < LENGTH(8)"
  then have "i < 8" by simp
  moreover have "n div 256 ^ k = drop_bit (8 * k) n" by (simp add: drop_bit_eq_div power_mult)
  ultimately show "bit (byte_at (8 * k) (of_nat n :: 'a word)) i \<longleftrightarrow> bit (of_nat (n div 256 ^ k) :: byte) i"
    using assms by (simp add: bit_byte_at bit_of_nat_iff bit_drop_bit_eq)
qed


lemma store_words_fips: "store_words hs = fips_bytes hs"
proof -
  have "byte_at (8 * k) w = of_nat (unat w div 256 ^ k)" if "k < 4" for k and w :: u32
    using byte_at_of_nat [of k "unat w", where 'a = 32] that by simp
  from this [of 3] this [of 2] this [of 1] this [of 0] show ?thesis
    by (simp add: store_words_def fips_bytes_def)
qed

lemma be64_bytes_eq: "be64_bytes n = map (\<lambda>i. byte_at (8 * (7 - i)) (of_nat n :: u64)) [0..<8]"
  unfolding be64_bytes_def by (rule map_cong [OF refl], rule byte_at_of_nat [symmetric]) simp

section \<open>One compression\<close>

lemma bit_word_rotr:
  "bit (word_rotr k (x :: u32)) i \<longleftrightarrow> i < 32 \<and> bit x ((i + k) mod 32)"
  by (simp add: bit_word_rotr_iff)

lemma ROTR32_word_rotr:
  assumes "0 < n" "n < 32"
  shows "ROTR32 x n = word_rotr n x"
proof (rule bit_word_eqI)
  fix i assume "i < LENGTH(32)"
  then have i: "i < 32" by simp
  show "bit (ROTR32 x n) i \<longleftrightarrow> bit (word_rotr n x) i"
  proof (cases "i + n < 32")
    case True
    then show ?thesis
      using i assms by (auto simp: ROTR32_def bit_word_rotr bit_or_iff bit_push_bit_iff bit_drop_bit_eq add.commute)
  next
    case False
    then have "(i + n) mod 32 = i - (32 - n)"
      using i assms by (simp add: mod_if)
    moreover have "\<not> bit x (n + i)"
      using False bit_imp_le_length [of x "n + i"] by auto
    ultimately show ?thesis
      using False i assms
      by (auto simp: ROTR32_def bit_word_rotr bit_or_iff bit_push_bit_iff bit_drop_bit_eq)
  qed
qed

lemmas sigma_eqs =
  SIG0_def SIG1_def SIG2_def SIG3_def fips_Sigma0_def fips_Sigma1_def fips_sigma0_def fips_sigma1_def

lemma sigmas_fips:
  "SIG0 = fips_Sigma0" "SIG1 = fips_Sigma1" "SIG2 = fips_sigma0" "SIG3 = fips_sigma1"
  by (simp_all add: fun_eq_iff sigma_eqs ROTR32_word_rotr)

lemma be32_value:
  "be32 a b c d = word_of_int (256 ^ 3 * uint a + 256 ^ 2 * uint b + 256 * uint c + uint d)"
proof -
  have "be32 a b c d = push_bit 8 (push_bit 8 (push_bit 8 (ucast a) OR ucast b) OR ucast c) OR ucast d"
    by (simp add: be32_def push_bit_or or.assoc)
  also have "\<dots> = ((ucast a * 256 + ucast b) * 256 + ucast c) * 256 + ucast d"
    by (simp only: push_or_byte)
  also have "\<dots> = word_of_int (((uint a * 256 + uint b) * 256 + uint c) * 256 + uint d)"
    by (simp only: ucast_eq of_int_add of_int_mult of_int_numeral)
  also have "((uint a * 256 + uint b) * 256 + uint c) * 256 + uint d = 256 ^ 3 * uint a + 256 ^ 2 * uint b + 256 * uint c + uint d"
    by simp
  finally show ?thesis .
qed

lemma load_words_fips:
  assumes "length blk = 64"
  shows "load_words blk = map (fips_W blk) [0..<16]"
  unfolding load_words_def
  by (rule map_cong [OF refl]) (simp add: fips_W.simps be32_value mult.commute)

text \<open>The array filled in index order holds the values of the recurrence.\<close>

lemma schedule_prefix:
  assumes "length blk = 64" "16 \<le> n"
  shows "foldl extend_words (load_words blk) [16..<n] = map (fips_W blk) [0..<n]"
  using assms(2)
proof (induction n rule: dec_induct)
  case base
  show ?case using load_words_fips [OF assms(1)] by simp
next
  case (step n)
  have "fips_W blk n = fips_sigma1 (fips_W blk (n - 2)) + fips_W blk (n - 7) +
      fips_sigma0 (fips_W blk (n - 15)) + fips_W blk (n - 16)"
    using step.hyps by (subst fips_W.simps) simp
  with step show ?case
    by (simp add: extend_words_def sigmas_fips)
qed

lemma schedule_fips: "length blk = 64 \<Longrightarrow> schedule blk = map (fips_W blk) [0..<64]"
  unfolding schedule_def by (rule schedule_prefix) simp_all

lemma length_K_table: "length K_table = 64"
  by (simp add: K_table_def)

lemma rounds_fips:
  assumes "n \<le> 64"
  shows "foldl sha_round (load_vars hs) (zip (take n K_table) (map (fips_W blk) [0..<n])) = fips_vars hs blk n"
  using assms
proof (induction n)
  case 0
  then show ?case by (simp add: load_vars_def)
next
  case (Suc n)
  then have "take (Suc n) K_table = take n K_table @ [K_table ! n]"
    by (intro take_Suc_conv_app_nth) (simp add: length_K_table)
  moreover have "sha_round v (k, w) = (case v of (a, b, c, d, e, f, g, h) \<Rightarrow>
      let T1 = h + fips_Sigma1 e + ((e AND f) XOR (NOT e AND g)) + k + w;
          T2 = fips_Sigma0 a + ((a AND b) XOR (a AND c) XOR (b AND c))
      in (T1 + T2, a, b, c, d + T1, e, f, g))" for v k w
    by (auto simp: sigmas_fips CH_def MAJ_def Let_def split: prod.split)
  ultimately show ?case
    using Suc by (simp add: length_K_table K_table_fips)
qed

lemma transform_fips:
  assumes "length (sbuffer ctx) = 64" "length (sh ctx) = 8"
  shows "sha256_transform ctx = ctx\<lparr>sh := fips_compress (sh ctx) (sbuffer ctx)\<rparr>"
proof -
  have "foldl sha_round (load_vars (sh ctx)) (zip K_table (schedule (sbuffer ctx))) =
      fips_vars (sh ctx) (sbuffer ctx) 64"
    using rounds_fips [of 64 "sh ctx" "sbuffer ctx"]
    by (simp only: schedule_fips [OF assms(1)] take_all length_K_table order_refl)
  moreover have "add_vars (sh ctx) v = (case v of (a, b, c, d, e, f, g, h) \<Rightarrow>
        [sh ctx ! 0 + a, sh ctx ! 1 + b, sh ctx ! 2 + c, sh ctx ! 3 + d,
         sh ctx ! 4 + e, sh ctx ! 5 + f, sh ctx ! 6 + g, sh ctx ! 7 + h])" for v
  proof -
    obtain x0 x1 x2 x3 x4 x5 x6 x7 where "sh ctx = [x0, x1, x2, x3, x4, x5, x6, x7]"
      using assms(2) by (auto simp: numeral_eq_Suc length_Suc_conv)
    then show ?thesis by (auto split: prod.split)
  qed
  ultimately show ?thesis
    by (simp add: sha256_transform_def fips_compress_def)
qed

lemma length_fips_compress [simp]: "length (fips_compress hs blk) = 8"
  by (simp add: fips_compress_def split: prod.split)

section \<open>Absorbing a message\<close>

text \<open>
  After the bytes of \<open>m\<close> have been absorbed, the chaining value covers the full blocks of
  \<open>m\<close> and the buffer starts with the bytes that are left over.
\<close>

definition absorbed :: "byte list \<Rightarrow> sha256_ctx \<Rightarrow> bool" where
  "absorbed m ctx \<longleftrightarrow>
     sh ctx = foldl fips_compress fips_H0 (full_blocks m) \<and>
     scount ctx = of_nat (length m) \<and>
     sbuffer ctx = drop (64 * (length m div 64)) m @ replicate (64 - length m mod 64) 0"

lemma foldl_compress_length:
  "length hs = 8 \<Longrightarrow> length (foldl fips_compress hs bs) = 8"
  by (induction bs arbitrary: hs) auto

lemma absorbed_lengths:
  assumes "absorbed m ctx"
  shows "length (sh ctx) = 8" "length (sbuffer ctx) = 64"
proof -
  show "length (sh ctx) = 8"
    using assms by (simp add: absorbed_def foldl_compress_length)
  have "length m - 64 * (length m div 64) = length m mod 64"
    by (simp add: minus_mult_div_eq_mod)
  moreover have "length m mod 64 < 64" by simp
  ultimately show "length (sbuffer ctx) = 64"
    using assms by (simp add: absorbed_def)
qed

lemma count_mod_64: "unat ((of_nat n :: u64) mod 64) = n mod 64"
proof -
  have "(64 :: nat) dvd 2 ^ 64" by simp
  then show ?thesis
    by (simp add: unat_mod unat_of_nat mod_mod_cancel)
qed

lemma count_mod_64_zero: "(of_nat n :: u64) mod 64 = 0 \<longleftrightarrow> n mod 64 = 0"
  by (metis count_mod_64 unat_eq_zero)

lemma full_blocks_snoc:
  "full_blocks (m @ [x]) =
     (if Suc (length m) mod 64 = 0
      then full_blocks m @ [drop (64 * (length m div 64)) m @ [x]] else full_blocks m)"
proof -
  have old: "take 64 (drop (64 * i) (m @ [x])) = take 64 (drop (64 * i) m)" if "i < length m div 64" for i
  proof -
    have "64 * (length m div 64) \<le> length m" by simp
    with that have "64 \<le> length m - 64 * i" "64 * i \<le> length m" by linarith+
    then show ?thesis by simp
  qed
  show ?thesis
  proof (cases "Suc (length m) mod 64 = 0")
    case True
    then have d: "Suc (length m) div 64 = Suc (length m div 64)" and r: "length m mod 64 = 63"
      by (auto simp: mod_Suc div_Suc split: if_splits)
    have "length m - 64 * (length m div 64) = 63"
      using r by (simp add: minus_mult_div_eq_mod)
    with True d old show ?thesis
      by (auto simp: full_blocks_def)
  next
    case False
    then have "Suc (length m) div 64 = length m div 64"
      by (simp add: div_Suc)
    with False old show ?thesis by (auto simp: full_blocks_def)
  qed
qed

lemma absorbed_byte:
  assumes "absorbed m ctx"
  shows "absorbed (m @ [x]) (sha256_byte ctx x)"
proof -
  let ?r = "length m mod 64" and ?tail = "drop (64 * (length m div 64)) m"
  have len: "length ?tail = ?r" by (simp add: minus_mult_div_eq_mod)
  have r: "?r < 64" by simp
  have buf: "(sbuffer ctx)[unat (scount ctx mod 64) := x] = ?tail @ [x] @ replicate (63 - ?r) 0"
  proof -
    have "64 - ?r = Suc (63 - ?r)" using r by arith
    then have "replicate (64 - ?r) (0 :: byte) = 0 # replicate (63 - ?r) 0" by simp
    then show ?thesis
      using assms len by (simp add: absorbed_def count_mod_64 list_update_append)
  qed
  have cnt: "scount ctx + 1 = of_nat (length (m @ [x]))"
    using assms by (simp add: absorbed_def add.commute)
  let ?ctx = "ctx\<lparr>sbuffer := (sbuffer ctx)[unat (scount ctx mod 64) := x], scount := scount ctx + 1\<rparr>"
  have step: "sha256_byte ctx x = (if Suc (length m) mod 64 = 0
      then (sha256_transform ?ctx)\<lparr>sbuffer := replicate 64 0\<rparr> else ?ctx)"
    using cnt by (simp add: sha256_byte_def Let_def count_mod_64_zero del: of_nat_Suc)
  show ?thesis
  proof (cases "Suc (length m) mod 64 = 0")
    case True
    then have r63: "?r = 63" by (auto simp: mod_Suc split: if_splits)
    have "sha256_transform ?ctx = ?ctx\<lparr>sh := fips_compress (sh ?ctx) (sbuffer ?ctx)\<rparr>"
      by (rule transform_fips) (use absorbed_lengths [OF assms] in simp_all)
    then have "sha256_byte ctx x =
        ?ctx\<lparr>sh := fips_compress (sh ctx) (?tail @ [x]), sbuffer := replicate 64 0\<rparr>"
      using step True buf r63 by simp
    moreover have "64 * (Suc (length m) div 64) = Suc (length m)"
      using True by (simp add: mult.commute minus_mod_eq_mult_div [symmetric])
    ultimately show ?thesis
      using True assms cnt full_blocks_snoc [of m x]
      by (simp add: absorbed_def)
  next
    case False
    then have d: "Suc (length m) div 64 = length m div 64" "Suc (length m) mod 64 = Suc ?r"
      by (auto simp: div_Suc mod_Suc split: if_splits)
    have "64 * (length m div 64) \<le> length m" by simp
    with False assms buf cnt d step full_blocks_snoc [of m x] show ?thesis
      by (simp add: absorbed_def)
  qed
qed

lemma absorbed_update: "absorbed m ctx \<Longrightarrow> absorbed (m @ d) (foldl sha256_byte ctx d)"
proof (induction d arbitrary: m ctx)
  case Nil
  then show ?case by simp
next
  case (Cons x d)
  from Cons.IH [OF absorbed_byte [OF Cons.prems, of x]] show ?case by simp
qed

lemma absorbed_init: "absorbed [] sha256_init"
  by (simp add: absorbed_def full_blocks_def fips_H0_eq) (simp add: sha256_init_def)

section \<open>Padding\<close>

lemma length_be64_bytes [simp]: "length (be64_bytes n) = 8"
  by (simp add: be64_bytes_def)

lemma length_store_words: "length (store_words hs) = 4 * length hs"
  by (induction hs) (simp_all add: store_words_def)

lemma length_fips_sha256 [simp, length_simps]: "length (fips_sha256 m) = 32"
  by (simp add: fips_sha256_def store_words_fips [symmetric] length_store_words foldl_compress_length)

lemma padding_array:
  assumes "9 \<le> pl" "pl \<le> 64"
  shows "\<exists>padding. final_padding pl (of_nat n) = Some padding \<and>
           take pl padding = [0x80] @ replicate (pl - 9) 0 @ be64_bytes n"
proof -
  let ?f = "\<lambda>i. byte_at ((7 - i) * 8) (of_nat n :: u64) :: byte"
  let ?start = "0x80 # replicate 63 0 :: byte list"
  have init: "wr_bytes (replicate 64 0) 0 (replicate pl 0) = Some (replicate 64 (0 :: byte))"
    using assms by (simp add: wr_bytes_def replicate_add [symmetric])
  have first: "wr (replicate 64 (0 :: byte)) 0 0x80 = Some ?start"
    by (simp add: wr_def numeral_eq_Suc)
  let ?P = "\<lambda>i s. s = [0x80] @ replicate (pl - 9) 0 @ map ?f [0..<i] @ replicate (64 - pl + (8 - i)) 0"
  have "\<exists>s. for_upto 0 8 (\<lambda>i p. wr p (pl - 8 + i) (?f i)) ?start = Some s \<and> ?P 8 s"
  proof (rule for_upto_rule [where P = ?P])
    have "63 = (pl - 9) + (64 - pl + 8)" using assms by arith
    then have "replicate 63 (0 :: byte) = replicate (pl - 9) 0 @ replicate (64 - pl + 8) 0"
      by (metis replicate_add)
    then show "?P 0 ?start" by simp
  next
    fix j t assume j: "j < 8" and t: "?P j t"
    have "8 - j = Suc (8 - Suc j)" using j by arith
    then have rep: "replicate (64 - pl + (8 - j)) (0 :: byte) = 0 # replicate (64 - pl + (8 - Suc j)) 0"
      by simp
    have len: "pl - 8 + j = length ([0x80] @ replicate (pl - 9) (0 :: byte) @ map ?f [0..<j])"
      using assms by simp
    have "wr t (pl - 8 + j) (?f j) = Some ([0x80] @ replicate (pl - 9) 0 @ map ?f [0..<Suc j] @
        replicate (64 - pl + (8 - Suc j)) 0)"
      unfolding wr_def t rep
      by (subst (1 2) len) (simp add: list_update_append)
    then show "\<exists>t'. wr t (pl - 8 + j) (?f j) = Some t' \<and> ?P (Suc j) t'" by blast
  qed simp
  then obtain s where s: "for_upto 0 8 (\<lambda>i p. wr p (pl - 8 + i) (?f i)) ?start = Some s" "?P 8 s" by blast
  have "be64_bytes n = map ?f [0..<8]"
    by (simp add: be64_bytes_eq mult.commute)
  moreover have "take pl (([0x80] @ replicate (pl - 9) 0 @ xs) @ ys) = [0x80] @ replicate (pl - 9) 0 @ xs"
    if "length xs = 8" for xs ys :: "byte list"
    using assms that by (subst take_append) simp
  ultimately have "take pl s = [0x80] @ replicate (pl - 9) 0 @ be64_bytes n"
    using s(2) by (metis append_assoc length_be64_bytes)
  with s(1) init first show ?thesis by (simp add: final_padding_def)
qed

lemma sha256_final_in:
  assumes "absorbed m ctx" "length m mod 64 < 56"
  shows "\<exists>ctx'. sha256_final ctx = Some (ctx', fips_sha256 m)"
proof -
  let ?c = "length m mod 64" and ?n = "8 * length m"
  have cnt: "scount ctx = of_nat (length m)" using assms by (simp add: absorbed_def)
  have bits: "of_nat (length m) * 8 = (of_nat ?n :: u64)" by (simp add: mult.commute)
  have pl: "9 \<le> 64 - ?c" "\<not> 64 - ?c < 9" using assms(2) by auto
  obtain padding where
    p: "final_padding (64 - ?c) (of_nat ?n) = Some padding"
    "take (64 - ?c) padding = [0x80] @ replicate (64 - ?c - 9) 0 @ be64_bytes ?n"
    using padding_array [OF pl(1) diff_le_self, of ?n] by blast
  have "119 - ?c = (64 - ?c - 9) + 64" "64 - ?c - 9 < 64" using assms(2) by arith+
  then have "(119 - ?c) mod 64 = 64 - ?c - 9" by (metis mod_add_self2 mod_less)
  then have pad: "m @ take (64 - ?c) padding = fips_pad m"
    by (simp add: p(2) fips_pad_def)
  define ctx' where "ctx' = foldl sha256_byte ctx (take (64 - ?c) padding)"
  have "absorbed (fips_pad m) ctx'"
    unfolding ctx'_def pad [symmetric] by (rule absorbed_update [OF assms(1)])
  then have "store_words (sh ctx') = fips_sha256 m"
    by (simp add: absorbed_def fips_sha256_def store_words_fips)
  moreover have "sha256_final ctx = Some (ctx', store_words (sh ctx'))"
    unfolding sha256_final_def Let_def bits cnt count_mod_64 if_not_P [OF pl(2)] p(1)
    by (simp add: sha256_update_def ctx'_def)
  ultimately show ?thesis by auto
qed

lemma sha256_final_out:
  assumes "absorbed m ctx" "56 \<le> length m mod 64"
  shows "sha256_final ctx = None"
proof -
  have cnt: "unat (scount ctx mod 64) = length m mod 64"
    using assms by (simp add: absorbed_def count_mod_64)
  have "length m mod 64 < 64" by simp
  then have "wr_bytes (replicate 64 (0 :: byte)) 0 (replicate (128 - length m mod 64) 0) = None"
    "64 - length m mod 64 < 9" "64 - length m mod 64 + 64 = 128 - length m mod 64"
    using assms(2) by (auto simp: wr_bytes_def)
  then show ?thesis
    by (simp add: sha256_final_def final_padding_def cnt Let_def)
qed

definition sha_fits :: "nat \<Rightarrow> bool" where
  "sha_fits n \<longleftrightarrow> n mod 64 < 56"

lemma absorbed_message: "absorbed m (sha256_update sha256_init (Some m))"
  using absorbed_update [OF absorbed_init, of m] by (simp add: sha256_update_def)

lemma sha256_eq: "sha256 (Some m) = (if sha_fits (length m) then Some (fips_sha256 m) else None)"
  using sha256_final_in [OF absorbed_message, of m] sha256_final_out [OF absorbed_message, of m]
  by (auto simp: sha256_def sha_fits_def not_less)

text \<open>
  C14. For every message the code computes the SHA-256 of FIPS 180-4, except that it writes
  behind its padding array when the message leaves 56 to 63 bytes in the last block: the
  result is defined exactly when the length modulo 64 is below 56.
\<close>

theorem sha256_fips:
  "sha256 (Some m) = (if length m mod 64 < 56 then Some (fips_sha256 m) else None)"
  by (simp add: sha256_eq sha_fits_def)

text \<open>
  Absorbing a message in pieces gives the same digest as absorbing it at once, whatever
  the pieces are.
\<close>

theorem sha256_incremental:
  "map_option snd (sha256_final (foldl sha256_update sha256_init (map Some ps))) = sha256 (Some (concat ps))"
proof -
  have "foldl sha256_update ctx (map Some ps) = foldl sha256_byte ctx (concat ps)" for ctx
    by (induction ps arbitrary: ctx) (simp_all add: sha256_update_def)
  then show ?thesis by (simp add: sha256_def sha256_update_def)
qed

section \<open>The contract of a hash function\<close>

text \<open>
  What the key derivation and the handshake use: a function of the bytes absorbed, with 32
  bytes of output, defined on the lengths that \<open>fits\<close> admits.
\<close>

locale digest =
  fixes H :: "byte list \<Rightarrow> byte list option" and fits :: "nat \<Rightarrow> bool"
  assumes H_defined: "fits (length m) \<Longrightarrow> H m \<noteq> None"
    and H_undefined: "\<not> fits (length m) \<Longrightarrow> H m = None"
    and H_length: "H m = Some d \<Longrightarrow> length d = 32"
begin

lemma H_cases:
  obtains (undef) "\<not> fits (length m)" "H m = None"
    | (def) d where "fits (length m)" "H m = Some d" "length d = 32"
  using H_defined H_undefined H_length by (metis not_None_eq)

lemma H_None_iff: "H m = None \<longleftrightarrow> \<not> fits (length m)"
  using H_defined H_undefined by blast

end

abbreviation sha256_of :: "byte list \<Rightarrow> byte list option" where
  "sha256_of m \<equiv> sha256 (Some m)"

interpretation sha: digest sha256_of sha_fits
  by unfold_locales (auto simp: sha256_eq split: if_splits)

end
