(* ===== verification/Axon_Hkdf.thy ===== *)
theory Axon_Hkdf
  imports Axon_Sha256
begin

text \<open>
  Key derivation, \<open>crypto/source/hkdf.c\<close>. The functions are named after HKDF (RFC 5869) but
  hash plainly where the RFC uses HMAC: extraction is the hash of the salt followed by the
  input, and each output block is the hash of the key, the block before, the info and a
  one-byte counter. The reference \<open>okm_stream\<close> states that chain over any hash function.
\<close>

section \<open>The code\<close>

definition hkdf_extract ::
  "byte list ptr \<Rightarrow> byte list ptr \<Rightarrow> byte list ptr \<Rightarrow> (int \<times> byte list ptr) option" where
  "hkdf_extract salt ikm prkp =
     (case (ikm, prkp) of
        (Some ik, Some prk) \<Rightarrow>
          let salt_ptr = (case salt of
                            None \<Rightarrow> replicate 32 0
                          | Some s \<Rightarrow> if length s = 0 then replicate 32 0 else s);
              ctx = sha256_init;
              ctx = sha256_update ctx (Some salt_ptr);
              ctx = sha256_update ctx (Some ik)
          in do {
            (ctx, digest) \<leftarrow> sha256_final ctx;
            prk \<leftarrow> wr_bytes prk 0 (take 32 digest);
            Some (0, Some prk) }
      | _ \<Rightarrow> Some (-1, prkp))"

text \<open>The loop of \<open>hkdf_expand\<close>; its block is hashed by \<open>expand_digest\<close>.\<close>

definition expand_digest ::
  "byte list \<Rightarrow> byte list ptr \<Rightarrow> nat \<Rightarrow> byte \<Rightarrow> byte list \<Rightarrow> byte list option" where
  "expand_digest prk info generated counter previous =
     (let ctx = sha256_init;
          ctx = sha256_update ctx (Some prk);
          ctx = (if generated > 0 then sha256_update ctx (Some (take 32 previous)) else ctx);
          ctx = (case info of
                   None \<Rightarrow> ctx
                 | Some i \<Rightarrow> if length i > 0 then sha256_update ctx (Some i) else ctx);
          ctx = sha256_update ctx (Some [counter])
      in map_option snd (sha256_final ctx))"

function expand_loop ::
  "byte list \<Rightarrow> byte list ptr \<Rightarrow> nat \<Rightarrow> nat \<Rightarrow> byte \<Rightarrow> byte list \<Rightarrow> byte list \<Rightarrow> byte list option" where
  "expand_loop prk info okm_len generated counter previous okm =
     (if generated < okm_len then do {
        digest \<leftarrow> expand_digest prk info generated counter previous;
        let to_copy = (if okm_len - generated < 32 then okm_len - generated else 32);
        okm \<leftarrow> wr_bytes okm generated (take to_copy digest);
        expand_loop prk info okm_len (generated + to_copy) (counter + 1) digest okm }
      else Some okm)"
  by pat_completeness auto
termination
  by (relation "measure (\<lambda>(prk, info, okm_len, generated, c, p, okm). okm_len - generated)") auto

declare expand_loop.simps [simp del]

definition hkdf_expand ::
  "byte list ptr \<Rightarrow> byte list ptr \<Rightarrow> byte list ptr \<Rightarrow> nat \<Rightarrow> (int \<times> byte list ptr) option" where
  "hkdf_expand prkp info okmp okm_len =
     (case (prkp, okmp) of
        (Some prk, Some okm) \<Rightarrow>
          if length prk \<noteq> 32 then Some (-1, okmp)
          else do {
            okm \<leftarrow> expand_loop prk info okm_len 0 1 (replicate 32 0) okm;
            Some (0, Some okm) }
      | _ \<Rightarrow> Some (-1, okmp))"

section \<open>The chain of blocks over a hash function\<close>

fun okm_block :: "(byte list \<Rightarrow> byte list option) \<Rightarrow> byte list \<Rightarrow> byte list \<Rightarrow> nat \<Rightarrow> byte list option" where
  "okm_block H prk info 0 = Some []"
| "okm_block H prk info (Suc i) = do {
     t \<leftarrow> okm_block H prk info i;
     H (prk @ t @ info @ [of_nat (Suc i)]) }"

fun okm_stream :: "(byte list \<Rightarrow> byte list option) \<Rightarrow> byte list \<Rightarrow> byte list \<Rightarrow> nat \<Rightarrow> byte list option" where
  "okm_stream H prk info 0 = Some []"
| "okm_stream H prk info (Suc n) = do {
     s \<leftarrow> okm_stream H prk info n;
     t \<leftarrow> okm_block H prk info (Suc n);
     Some (s @ t) }"

text \<open>The lengths that the chain hashes: the first block, and the blocks that chain.\<close>

definition chain_fits :: "(nat \<Rightarrow> bool) \<Rightarrow> nat \<Rightarrow> bool" where
  "chain_fits fits n \<longleftrightarrow> fits (33 + n) \<and> fits (65 + n)"

context digest begin

lemma okm_block_defined:
  assumes "length prk = 32" "chain_fits fits (length info)"
  shows "\<exists>t. okm_block H prk info i = Some t \<and> length t = (if i = 0 then 0 else 32)"
proof (induction i)
  case 0
  then show ?case by simp
next
  case (Suc i)
  then obtain t where t: "okm_block H prk info i = Some t" "length t = (if i = 0 then 0 else 32)"
    by blast
  have "fits (length (prk @ t @ info @ [of_nat (Suc i)]))"
    using t assms by (auto simp: chain_fits_def add.commute add.left_commute)
  then obtain d where "H (prk @ t @ info @ [of_nat (Suc i)]) = Some d" "length d = 32"
    using H_cases by metis
  with t show ?case by simp
qed

lemma okm_stream_defined:
  assumes "length prk = 32" "chain_fits fits (length info)"
  shows "\<exists>s. okm_stream H prk info n = Some s \<and> length s = 32 * n"
proof (induction n)
  case 0
  then show ?case by simp
next
  case (Suc n)
  then obtain s where "okm_stream H prk info n = Some s" "length s = 32 * n" by blast
  with okm_block_defined [OF assms, of "Suc n"] show ?case
    by (auto simp del: okm_block.simps)
qed

lemma okm_stream_prefix:
  assumes "length prk = 32" "chain_fits fits (length info)" "m \<le> n"
  shows "\<exists>s rest. okm_stream H prk info m = Some s \<and> okm_stream H prk info n = Some (s @ rest)"
  using assms(3)
proof (induction n rule: dec_induct)
  case base
  then show ?case using okm_stream_defined [OF assms(1,2), of m] by auto
next
  case (step n)
  then show ?case
    using okm_block_defined [OF assms(1,2), of "Suc n"] by (auto simp del: okm_block.simps)
qed

end

section \<open>The code computes the chain\<close>

lemma updates_concat:
  "sha256_update (sha256_update ctx (Some a)) (Some b) = sha256_update ctx (Some (a @ b))"
  by (simp add: sha256_update_def)

lemma update_Nil: "sha256_update ctx (Some []) = ctx"
  by (simp add: sha256_update_def)

lemma final_update_init: "map_option snd (sha256_final (sha256_update sha256_init (Some m))) = sha256 (Some m)"
  by (simp add: sha256_def)

abbreviation info_bytes :: "byte list ptr \<Rightarrow> byte list" where
  "info_bytes info \<equiv> (case info of None \<Rightarrow> [] | Some i \<Rightarrow> i)"

lemma expand_digest_eq:
  assumes "length previous = 32"
  shows "expand_digest prk info g c previous =
           sha256 (Some (prk @ (if g > 0 then previous else []) @ info_bytes info @ [c]))"
  using assms
  by (auto simp: expand_digest_def Let_def updates_concat final_update_init split: option.split)

lemma extract_eq:
  assumes "32 \<le> length prk"
  shows "hkdf_extract (Some salt) (Some ikm) (Some prk) =
           (case sha256 (Some ((if salt = [] then replicate 32 0 else salt) @ ikm)) of
              None \<Rightarrow> None
            | Some d \<Rightarrow> Some (0, Some (d @ drop 32 prk)))"
proof -
  let ?m = "(if salt = [] then replicate 32 0 else salt) @ ikm"
  have code: "hkdf_extract (Some salt) (Some ikm) (Some prk) =
      do { (ctx, d) \<leftarrow> sha256_final (sha256_update sha256_init (Some ?m));
           prk \<leftarrow> wr_bytes prk 0 (take 32 d); Some (0, Some prk) }"
    by (simp add: hkdf_extract_def Let_def updates_concat)
  show ?thesis
  proof (cases "sha256_final (sha256_update sha256_init (Some ?m))")
    case None
    then have "sha256 (Some ?m) = None" by (simp only: sha256_def option.map)
    with None show ?thesis by (simp only: code) simp
  next
    case (Some r)
    then have d: "sha256 (Some ?m) = Some (snd r)" by (simp only: sha256_def option.map)
    from sha.H_length [OF d] assms have "wr_bytes prk 0 (take 32 (snd r)) = Some (snd r @ drop 32 prk)"
      by (simp add: wr_bytes_def)
    with Some d show ?thesis
      by (simp only: code) (simp add: case_prod_beta)
  qed
qed

text \<open>One turn of the loop: \<open>s\<close> has been written, the last turn cuts its block to what is asked for.\<close>

lemma expand_loop_last:
  assumes "expand_digest prk info (length s) c prev = Some t" "length t = 32"
    and "length s < L" "L - length s < 32" "L \<le> length (s @ rest)"
  shows "expand_loop prk info L (length s) c prev (s @ rest) = Some (take L (s @ t) @ drop L (s @ rest))"
proof -
  have "wr_bytes (s @ rest) (length s) (take (L - length s) t) = Some (take L (s @ t) @ drop L (s @ rest))"
    by (subst wr_bytes_after) (use assms in simp_all)
  with assms show ?thesis by (subst expand_loop.simps) (simp add: expand_loop.simps [of _ _ L L])
qed

lemma expand_loop_full:
  assumes "expand_digest prk info (length s) c prev = Some t" "length t = 32"
    and "length s + 32 \<le> L" "L \<le> length (s @ rest)"
  shows "expand_loop prk info L (length s) c prev (s @ rest) = expand_loop prk info L (length (s @ t)) (c + 1) t ((s @ t) @ drop 32 rest)"
proof -
  have "wr_bytes (s @ rest) (length s) t = Some ((s @ t) @ drop 32 rest)"
    by (subst wr_bytes_after) (use assms in simp_all)
  moreover have "\<not> L - length s < 32" using assms(3) by simp
  ultimately show ?thesis using assms by (subst expand_loop.simps) simp
qed

lemma expand_loop_chain:
  assumes "length prk = 32" "chain_fits sha_fits (length (info_bytes info))"
    and "L \<le> length (s @ rest)" "length prev = 32"
    and "okm_stream sha256_of prk (info_bytes info) i = Some s"
    and "i > 0 \<Longrightarrow> okm_block sha256_of prk (info_bytes info) i = Some prev"
    and "32 * i \<le> L"
  shows "\<exists>s'. okm_stream sha256_of prk (info_bytes info) ((L + 31) div 32) = Some s' \<and>
           expand_loop prk info L (length s) (of_nat (Suc i)) prev (s @ rest) = Some (take L s' @ drop L (s @ rest))"
  using assms(3-)
proof (induction "L - 32 * i" arbitrary: i s prev rest rule: less_induct)
  case less
  let ?in = "info_bytes info"
  have s: "length s = 32 * i"
    using sha.okm_stream_defined [OF assms(1,2), of i] less.prems(3) by auto
  show ?case
  proof (cases "32 * i < L")
    case False
    with less.prems(5) have "L = 32 * i" "(L + 31) div 32 = i" by auto
    with less.prems(3) s show ?thesis by (subst expand_loop.simps) simp
  next
    case True
    obtain t where t: "okm_block sha256_of prk ?in (Suc i) = Some t" "length t = 32"
      using sha.okm_block_defined [OF assms(1,2), of "Suc i"] by auto
    have "okm_block sha256_of prk ?in i = Some (if length s > 0 then prev else [])"
      using less.prems(4) s by (cases i) auto
    with t(1) have dig: "expand_digest prk info (length s) (of_nat (Suc i)) prev = Some t"
      using expand_digest_eq [OF less.prems(2)] by (auto simp del: of_nat_Suc)
    have st: "okm_stream sha256_of prk ?in (Suc i) = Some (s @ t)"
      using less.prems(3) t by (simp del: okm_block.simps)
    show ?thesis
    proof (cases "L - 32 * i < 32")
      case last: True
      then have "(L + 31) div 32 = Suc i" using True by auto
      with expand_loop_last [OF dig t(2) _ _ less.prems(1)] True last s st show ?thesis by simp
    next
      case False
      have ih: "\<exists>s'. okm_stream sha256_of prk ?in ((L + 31) div 32) = Some s' \<and>
          expand_loop prk info L (length (s @ t)) (of_nat (Suc (Suc i))) t ((s @ t) @ drop 32 rest) =
            Some (take L s' @ drop L ((s @ t) @ drop 32 rest))"
        by (rule less.hyps [OF _ _ t(2) st t(1)]) (use True False s t(2) less.prems(1) in auto)
      have "drop L ((s @ t) @ drop 32 rest) = drop L (s @ rest)" using s t(2) False True by simp
      with ih expand_loop_full [OF dig t(2) _ less.prems(1)] s False show ?thesis by (simp add: add.commute)
    qed
  qed
qed

lemma hkdf_expand_chain:
  assumes "length prk = 32" "chain_fits sha_fits (length (info_bytes info))" "L \<le> length okm"
  shows "\<exists>s. okm_stream sha256_of prk (info_bytes info) ((L + 31) div 32) = Some s \<and> L \<le> length s \<and>
           hkdf_expand (Some prk) info (Some okm) L = Some (0, Some (take L s @ drop L okm))"
proof -
  obtain s where s: "okm_stream sha256_of prk (info_bytes info) ((L + 31) div 32) = Some s"
    "expand_loop prk info L 0 (of_nat (Suc 0)) (replicate 32 0) okm = Some (take L s @ drop L okm)"
    using expand_loop_chain [OF assms(1,2), where s = "[]" and rest = okm and prev = "replicate 32 0" and i = 0] assms(3) by auto
  have "L \<le> 32 * ((L + 31) div 32)" by arith
  then have "L \<le> length s"
    using sha.okm_stream_defined [OF assms(1,2), of "(L + 31) div 32"] s(1) by auto
  with s assms(1) show ?thesis by (auto simp: hkdf_expand_def)
qed

text \<open>An info for which a hash of the chain does not fit stops it at the first or at the second block.\<close>

lemma hkdf_expand_undefined:
  assumes "length prk = 32" "\<not> chain_fits sha_fits (length (info_bytes info))" "32 < L" "L \<le> length okm"
  shows "hkdf_expand (Some prk) info (Some okm) L = None"
proof -
  have first: "expand_digest prk info 0 1 (replicate 32 0) = sha256_of (prk @ info_bytes info @ [1])"
    by (simp add: expand_digest_eq)
  have "expand_loop prk info L 0 1 (replicate 32 0) okm = None"
  proof (cases "sha256_of (prk @ info_bytes info @ [1])")
    case None
    with first assms(3) show ?thesis by (subst expand_loop.simps) simp
  next
    case (Some t)
    then have t: "length t = 32" "sha_fits (33 + length (info_bytes info))"
      using sha.H_length [OF Some] sha.H_None_iff [of "prk @ info_bytes info @ [1]"] assms(1)
      by (auto simp: add.commute)
    then have "\<not> sha_fits (65 + length (info_bytes info))" using assms(2) by (simp add: chain_fits_def)
    then have "expand_digest prk info 32 2 t = None"
      using sha.H_None_iff [of "prk @ t @ info_bytes info @ [2]"] assms(1) t(1)
      by (simp add: expand_digest_eq add.commute add.left_commute)
    then have second: "expand_loop prk info L 32 2 t (t @ drop 32 okm) = None"
      using assms(3) by (subst expand_loop.simps) simp
    have "expand_loop prk info L 0 1 (replicate 32 0) okm = expand_loop prk info L 32 2 t (t @ drop 32 okm)"
      using expand_loop_full [of prk info "[]" 1 "replicate 32 0" t L okm] first Some t(1) assms(3,4) by simp
    then show ?thesis using second by simp
  qed
  then show ?thesis using assms(1) by (simp add: hkdf_expand_def)
qed

section \<open>Properties\<close>

text \<open>
  \<open>hkdf_extract\<close> stores SHA-256 of the salt followed by the input, and is undefined
  when their total length makes the hash overrun its padding. Only the concatenation
  counts: moving bytes from the salt to the input gives the same key, which HMAC-based
  extraction would not.
\<close>

theorem hkdf_extract_hash:
  assumes "32 \<le> length prk" and "a \<noteq> []"
  shows "hkdf_extract (Some (a @ b)) (Some c) (Some prk) =
           (if sha_fits (length (a @ b @ c))
            then Some (0, Some (fips_sha256 (a @ b @ c) @ drop 32 prk)) else None) \<and>
         hkdf_extract (Some (a @ b)) (Some c) (Some prk) = hkdf_extract (Some a) (Some (b @ c)) (Some prk)"
  using assms by (simp add: extract_eq sha256_eq)

lemma hkdf_extract_hash_witness:
  "hkdf_extract (Some ([1] @ [2])) (Some [3]) (Some (replicate 32 0)) =
   hkdf_extract (Some [1]) (Some ([2] @ [3])) (Some (replicate 32 0))"
  by (rule hkdf_extract_hash [THEN conjunct2]) simp_all

text \<open>
  C34. \<open>hkdf_expand\<close> fills the output with the first \<open>L\<close> bytes of the chain
  \<open>T(i) = SHA256(prk, T(i-1), info, i)\<close> and leaves the rest of the buffer; its loop always
  ends, and a shorter output is a prefix of a longer one. This needs an info of a length for which the padding
  of \<open>sha256_final\<close> stays in its block, for the first hash of the chain and for the later ones; with any other info, more than 32
  bytes of output are undefined (the hash writes behind its block).
\<close>

theorem hkdf_expand_correct:
  assumes "length prk = 32" "L \<le> length okm" "M \<le> L"
  shows "if (33 + length (info_bytes info)) mod 64 < 56 \<and> (65 + length (info_bytes info)) mod 64 < 56
    then \<exists>s. okm_stream sha256_of prk (info_bytes info) ((L + 31) div 32) = Some s \<and>
           hkdf_expand (Some prk) info (Some okm) L = Some (0, Some (take L s @ drop L okm)) \<and>
           hkdf_expand (Some prk) info (Some okm) M = Some (0, Some (take M s @ drop M okm))
    else 32 < L \<longrightarrow> hkdf_expand (Some prk) info (Some okm) L = None"
proof (cases "chain_fits sha_fits (length (info_bytes info))")
  case True
  obtain s where s: "okm_stream sha256_of prk (info_bytes info) ((L + 31) div 32) = Some s"
    "hkdf_expand (Some prk) info (Some okm) L = Some (0, Some (take L s @ drop L okm))"
    using hkdf_expand_chain [OF assms(1) True assms(2)] by blast
  obtain r where r: "okm_stream sha256_of prk (info_bytes info) ((M + 31) div 32) = Some r" "M \<le> length r"
    "hkdf_expand (Some prk) info (Some okm) M = Some (0, Some (take M r @ drop M okm))"
    using hkdf_expand_chain [OF assms(1) True, of M okm] assms(2,3) by auto
  have "(M + 31) div 32 \<le> (L + 31) div 32" using assms(3) by (intro div_le_mono) simp
  from sha.okm_stream_prefix [OF assms(1) True this] s(1) r(1) obtain rest where "s = r @ rest"
    by auto
  with r(2) have "take M s = take M r" by simp
  with s r(3) True show ?thesis by (simp add: chain_fits_def sha_fits_def)
next
  case False
  then show ?thesis
    using hkdf_expand_undefined [OF assms(1) False _ assms(2)] by (auto simp: chain_fits_def sha_fits_def)
qed

lemma hkdf_expand_correct_witness:
  "\<exists>s. okm_stream sha256_of (replicate 32 7) [1, 2] 3 = Some s \<and>
     hkdf_expand (Some (replicate 32 7)) (Some [1, 2]) (Some (replicate 96 0)) 96 = Some (0, Some (take 96 s)) \<and>
     hkdf_expand (Some (replicate 32 7)) (Some [1, 2]) (Some (replicate 96 0)) 40 =
       Some (0, Some (take 40 s @ replicate 56 0))"
proof -
  show ?thesis
    using hkdf_expand_correct [of "replicate 32 7" 96 "replicate 96 0" 40 "Some [1, 2]"]
    by (simp add: drop_replicate)
qed

end
