(* ===== verification/Axon_X25519.thy ===== *)
theory Axon_X25519
  imports Axon_Prelude
begin

text \<open>
  \<open>crypto/source/x25519.c\<close>: field elements of five 51-bit limbs in 64-bit words, their
  conversion from and to bytes, field arithmetic with 128-bit intermediate results, and the
  Montgomery ladder. A field element is the list of its limbs, and \<open>fe_val\<close> is the number
  it stands for. The formulas of one ladder step and the exponentiation at its end take the
  field operations as arguments: the code runs them on limbs, and their algebra is
  stated over the integers.
\<close>

section \<open>The code\<close>

type_synonym fe = "u64 list"

definition clamp :: "byte list \<Rightarrow> byte list" where
  "clamp k = (let k = k[0 := k ! 0 AND 248]; k = k[31 := k ! 31 AND 127]
              in k[31 := k ! 31 OR 64])"

definition load64 :: "byte list \<Rightarrow> u64" where
  "load64 p = ucast (p ! 0) OR push_bit 8 (ucast (p ! 1)) OR push_bit 16 (ucast (p ! 2)) OR
     push_bit 24 (ucast (p ! 3)) OR push_bit 32 (ucast (p ! 4)) OR push_bit 40 (ucast (p ! 5)) OR
     push_bit 48 (ucast (p ! 6)) OR push_bit 56 (ucast (p ! 7))"

definition mask51 :: u64 where
  "mask51 = push_bit 51 1 - 1"

definition fe_frombytes :: "byte list \<Rightarrow> fe" where
  "fe_frombytes inp =
     [load64 (drop 0 inp) AND mask51,
      drop_bit 3 (load64 (drop 6 inp)) AND mask51,
      drop_bit 6 (load64 (drop 12 inp)) AND mask51,
      drop_bit 1 (load64 (drop 19 inp)) AND mask51,
      drop_bit 12 (load64 (drop 24 inp)) AND mask51]"

text \<open>The carries at the start of \<open>fe_tobytes\<close>.\<close>

definition fe_reduce :: "fe \<Rightarrow> fe" where
  "fe_reduce h =
     (let t0 = h ! 0; t1 = h ! 1; t2 = h ! 2; t3 = h ! 3; t4 = h ! 4;
          t1 = t1 + drop_bit 51 t0; t0 = t0 AND mask51;
          t2 = t2 + drop_bit 51 t1; t1 = t1 AND mask51;
          t3 = t3 + drop_bit 51 t2; t2 = t2 AND mask51;
          t4 = t4 + drop_bit 51 t3; t3 = t3 AND mask51;
          t0 = t0 + 19 * drop_bit 51 t4; t4 = t4 AND mask51;
          t1 = t1 + drop_bit 51 t0; t0 = t0 AND mask51
      in [t0, t1, t2, t3, t4])"

definition fe_pack :: "fe \<Rightarrow> byte list" where
  "fe_pack h =
     (let t0 = h ! 0; t1 = h ! 1; t2 = h ! 2; t3 = h ! 3; t4 = h ! 4
      in [ucast t0, ucast (drop_bit 8 t0), ucast (drop_bit 16 t0), ucast (drop_bit 24 t0),
          ucast (drop_bit 32 t0), ucast (drop_bit 40 t0), ucast (drop_bit 48 t0 OR push_bit 3 t1),
          ucast (drop_bit 5 t1), ucast (drop_bit 13 t1), ucast (drop_bit 21 t1),
          ucast (drop_bit 29 t1), ucast (drop_bit 37 t1), ucast (drop_bit 45 t1),
          ucast (drop_bit 51 t1 OR push_bit 2 t2),
          ucast (drop_bit 6 t2), ucast (drop_bit 14 t2), ucast (drop_bit 22 t2),
          ucast (drop_bit 30 t2), ucast (drop_bit 38 t2), ucast (drop_bit 46 t2 OR push_bit 1 t3),
          ucast (drop_bit 7 t3), ucast (drop_bit 15 t3), ucast (drop_bit 23 t3),
          ucast (drop_bit 31 t3), ucast (drop_bit 39 t3), ucast (drop_bit 47 t3 OR push_bit 4 t4),
          ucast (drop_bit 4 t4), ucast (drop_bit 12 t4), ucast (drop_bit 20 t4),
          ucast (drop_bit 28 t4), ucast (drop_bit 36 t4), ucast (drop_bit 44 t4)])"

definition fe_tobytes :: "fe \<Rightarrow> byte list" where
  "fe_tobytes h = fe_pack (fe_reduce h)"

definition fe_add :: "fe \<Rightarrow> fe \<Rightarrow> fe" where
  "fe_add a b = map (\<lambda>i. a ! i + b ! i) [0, 1, 2, 3, 4]"

definition fe_sub :: "fe \<Rightarrow> fe \<Rightarrow> fe" where
  "fe_sub a b =
     (let c = 2 * (push_bit 51 1 - 1)
      in [a ! 0 - b ! 0 + c + 38, a ! 1 - b ! 1 + c, a ! 2 - b ! 2 + c,
          a ! 3 - b ! 3 + c, a ! 4 - b ! 4 + c])"

text \<open>The accumulator \<open>t<k>\<close> of \<open>fe_mul\<close> after its loop.\<close>

definition fe_mul_acc :: "fe \<Rightarrow> fe \<Rightarrow> nat \<Rightarrow> u128" where
  "fe_mul_acc a b k =
     foldl (\<lambda>t i. t + ucast (a ! i) * ucast (b ! ((k + 5 - i) mod 5)) * (if k < i then 19 else 1))
       0 [0, 1, 2, 3, 4]"

definition fe_mul :: "fe \<Rightarrow> fe \<Rightarrow> fe" where
  "fe_mul a b =
     (let t0 = fe_mul_acc a b 0; t1 = fe_mul_acc a b 1; t2 = fe_mul_acc a b 2;
          t3 = fe_mul_acc a b 3; t4 = fe_mul_acc a b 4;
          m = (ucast mask51 :: u128)
      in [ucast (t0 AND m) + 19 * ucast (drop_bit 51 t4),
          ucast (t1 AND m) + ucast (drop_bit 51 t0),
          ucast (t2 AND m) + ucast (drop_bit 51 t1),
          ucast (t3 AND m) + ucast (drop_bit 51 t2),
          ucast (t4 AND m) + ucast (drop_bit 51 t3)])"

definition fe_sq :: "fe \<Rightarrow> fe" where
  "fe_sq a = fe_mul a a"

definition fe_cswap :: "u64 \<Rightarrow> fe \<Rightarrow> fe \<Rightarrow> fe \<times> fe" where
  "fe_cswap swap a b =
     (let mask = - (swap AND 1);
          t = map2 (\<lambda>x y. (x XOR y) AND mask) a b
      in (map2 (XOR) a t, map2 (XOR) b t))"

text \<open>
  The field operations of one turn of the loop, after the conditional swaps, in the order of
  the code; \<open>sq a\<close> is \<open>mul a a\<close> there.
\<close>

definition ladder_step ::
  "('f \<Rightarrow> 'f \<Rightarrow> 'f) \<Rightarrow> ('f \<Rightarrow> 'f \<Rightarrow> 'f) \<Rightarrow> ('f \<Rightarrow> 'f \<Rightarrow> 'f) \<Rightarrow> 'f \<Rightarrow> 'f \<Rightarrow>
   'f \<times> 'f \<times> 'f \<times> 'f \<Rightarrow> 'f \<times> 'f \<times> 'f \<times> 'f" where
  "ladder_step add sub mul a24 x1 = (\<lambda>(x2, z2, x3, z3).
     let tmp0 = sub x3 z3;
         tmp1 = sub x2 z2;
         x2 = add x2 z2;
         z2 = add x3 z3;
         z3 = mul tmp0 x2;
         z2 = mul z2 tmp1;
         tmp0 = mul tmp1 tmp1;
         tmp1 = mul x2 x2;
         x3 = add z3 z2;
         z2 = sub z3 z2;
         x2 = mul tmp1 tmp0;
         tmp1 = sub tmp1 tmp0;
         z2 = mul z2 z2;
         z3 = mul tmp1 a24;
         x3 = mul x3 x3;
         tmp0 = add tmp0 z3;
         z3 = mul x1 z2;
         z2 = mul tmp1 tmp0
     in (x2, z2, x3, z3))"

text \<open>The exponentiation after the loop, meant to invert \<open>z2\<close>.\<close>

definition invert_chain :: "('f \<Rightarrow> 'f \<Rightarrow> 'f) \<Rightarrow> 'f \<Rightarrow> 'f" where
  "invert_chain mul z2 =
     (let t0 = mul z2 z2;
          t1 = mul t0 z2;
          t0 = t1
      in foldl (\<lambda>t0 i. let t0 = mul t0 t0 in if i = 1 \<or> i = 3 then mul t0 z2 else t0) t0 [1..<254])"

fun ladder_turn :: "byte list \<Rightarrow> fe \<Rightarrow> (fe \<times> fe \<times> fe \<times> fe) \<times> u64 \<Rightarrow> nat \<Rightarrow> (fe \<times> fe \<times> fe \<times> fe) \<times> u64" where
  "ladder_turn k x1 ((x2, z2, x3, z3), swap) i =
     (let b = drop_bit (i AND 7) (ucast (k ! (i div 8))) AND 1;
          xswap = swap XOR b;
          (x2, x3) = fe_cswap xswap x2 x3;
          (z2, z3) = fe_cswap xswap z2 z3
      in (ladder_step fe_add fe_sub fe_mul [121665, 0, 0, 0, 0] x1 (x2, z2, x3, z3), b))"

definition x25519_ladder :: "byte list \<Rightarrow> byte list \<Rightarrow> byte list" where
  "x25519_ladder scalar point =
     (let k = clamp scalar;
          x1 = fe_frombytes point;
          one = [1, 0, 0, 0, 0]; zero = [0, 0, 0, 0, 0];
          ((x2, z2, x3, z3), swap) = foldl (ladder_turn k x1) ((one, zero, x1, one), 0) (rev [0..<255]);
          (x2, x3) = fe_cswap swap x2 x3;
          (z2, z3) = fe_cswap swap z2 z3;
          z2inv = invert_chain fe_mul z2;
          x2 = fe_mul x2 z2inv
      in fe_tobytes x2)"

definition BASE_POINT :: "byte list" where
  "BASE_POINT = 9 # replicate 31 0"

definition x25519_scalar_mult ::
  "byte list ptr \<Rightarrow> byte list ptr \<Rightarrow> byte list ptr \<Rightarrow> (int \<times> byte list ptr) option" where
  "x25519_scalar_mult outp scalarp pointp =
     (case (outp, scalarp, pointp) of
        (Some out, Some scalar, Some point) \<Rightarrow> do {
          s \<leftarrow> rd_bytes scalar 0 32;
          p \<leftarrow> rd_bytes point 0 32;
          out \<leftarrow> wr_bytes out 0 (x25519_ladder s p);
          Some (0, Some out) }
      | _ \<Rightarrow> Some (-1, outp))"

definition x25519_generate_keypair ::
  "byte list ptr \<Rightarrow> byte list ptr \<Rightarrow> (int \<times> byte list ptr \<times> byte list ptr) option" where
  "x25519_generate_keypair privatep publicp =
     (case (privatep, publicp) of
        (Some private, Some public) \<Rightarrow> do {
          k \<leftarrow> rd_bytes private 0 32;
          private \<leftarrow> wr_bytes private 0 (clamp k);
          k \<leftarrow> rd_bytes private 0 32;
          public \<leftarrow> wr_bytes public 0 (x25519_ladder k BASE_POINT);
          Some (0, Some private, Some public) }
      | _ \<Rightarrow> Some (-1, privatep, publicp))"

definition x25519_shared_secret ::
  "byte list ptr \<Rightarrow> byte list ptr \<Rightarrow> byte list ptr \<Rightarrow> (int \<times> byte list ptr) option" where
  "x25519_shared_secret privatep peerp sharedp =
     (case (privatep, peerp, sharedp) of
        (Some private, Some peer, Some shared) \<Rightarrow> do {
          k \<leftarrow> rd_bytes private 0 32;
          p \<leftarrow> rd_bytes peer 0 32;
          shared \<leftarrow> wr_bytes shared 0 (x25519_ladder k p);
          Some (0, Some shared) }
      | _ \<Rightarrow> Some (-1, sharedp))"

section \<open>Shapes\<close>

lemma length_fe_tobytes [simp]: "length (fe_tobytes h) = 32"
  by (simp add: fe_tobytes_def fe_pack_def Let_def)

lemma length_x25519_ladder [simp]: "length (x25519_ladder s p) = 32"
  by (simp add: x25519_ladder_def Let_def split: prod.split)

lemma length_clamp [simp]: "length (clamp k) = length k"
  by (simp add: clamp_def Let_def)

lemma generate_keypair_eq:
  "length k = 32 \<Longrightarrow> length pub = 32 \<Longrightarrow> x25519_generate_keypair (Some k) (Some pub) =
    Some (0, Some (clamp k), Some (x25519_ladder (clamp k) BASE_POINT))"
  by (simp add: x25519_generate_keypair_def access_simps)

lemma shared_secret_eq:
  "length k = 32 \<Longrightarrow> length p = 32 \<Longrightarrow> length s = 32 \<Longrightarrow>
    x25519_shared_secret (Some k) (Some p) (Some s) = Some (0, Some (x25519_ladder k p))"
  by (simp add: x25519_shared_secret_def access_simps)

section \<open>The numbers that limbs stand for\<close>

definition p25519 :: int where
  "p25519 = 2 ^ 255 - 19"

definition limb_val :: "nat list \<Rightarrow> int" where
  "limb_val ls = foldr (\<lambda>x acc. int x + 2 ^ 51 * acc) ls 0"

definition fe_val :: "fe \<Rightarrow> int" where
  "fe_val a = limb_val (map unat a)"

definition fe_bounded :: "nat \<Rightarrow> fe \<Rightarrow> bool" where
  "fe_bounded n a \<longleftrightarrow> length a = 5 \<and> (\<forall>x \<in> set a. unat x < 2 ^ n)"

lemma fe_cases:
  assumes "length a = 5"
  obtains a0 a1 a2 a3 a4 where "a = [a0, a1, a2, a3, a4]"
proof -
  have "\<exists>a0 a1 a2 a3 a4. a = [a0, a1, a2, a3, a4]"
    using assms by (auto simp: numeral_eq_Suc length_Suc_conv)
  then show ?thesis using that by blast
qed

lemma limb_val_5: "limb_val [a, b, c, d, e] =
    int a + 2 ^ 51 * (int b + 2 ^ 51 * (int c + 2 ^ 51 * (int d + 2 ^ 51 * int e)))"
  by (simp add: limb_val_def)

lemma unat_add_small: "unat x + unat y < 2 ^ LENGTH('a) \<Longrightarrow> unat (x + y) = unat x + unat (y :: 'a::len word)"
  by (simp add: unat_word_ariths)

lemma unat_mult_small: "unat x * unat y < 2 ^ LENGTH('a) \<Longrightarrow> unat (x * y) = unat x * unat (y :: 'a::len word)"
  by (simp add: unat_word_ariths)

lemma fe_add_val:
  assumes "fe_bounded 63 a" "fe_bounded 63 b"
  shows "fe_val (fe_add a b) = fe_val a + fe_val b"
proof -
  from assms obtain a0 a1 a2 a3 a4 b0 b1 b2 b3 b4 where
    ab: "a = [a0, a1, a2, a3, a4]" "b = [b0, b1, b2, b3, b4]"
    by (metis fe_bounded_def fe_cases)
  have "unat (x + y) = unat x + unat y" if "x \<in> set a" "y \<in> set b" for x y
    by (rule unat_add_small) (use assms that in \<open>auto simp: fe_bounded_def dest!: bspec\<close>)
  then show ?thesis
    by (simp add: ab fe_val_def limb_val_5 fe_add_def algebra_simps)
qed

lemma unat_of_int_nat: "unat (x - y + c :: 'a::len word) = unat x + unat c - unat y"
  if "unat y \<le> unat x + unat c" "unat x + unat c < 2 ^ LENGTH('a)"
proof -
  have "x - y + c = (x + c) - y" by simp
  moreover have xc: "unat (x + c) = unat x + unat c" using that(2) by (rule unat_add_small)
  moreover have "unat ((x + c) - y) = unat (x + c) - unat y"
    using that(1) xc by (intro unat_sub) (simp add: word_le_nat_alt)
  ultimately show ?thesis using xc by metis
qed

lemma fe_sub_val:
  assumes "fe_bounded 62 a" "fe_bounded 51 b"
  shows "fe_val (fe_sub a b) = fe_val a - fe_val b + 2 * p25519 + 74"
proof -
  from assms obtain a0 a1 a2 a3 a4 b0 b1 b2 b3 b4 where
    ab: "a = [a0, a1, a2, a3, a4]" "b = [b0, b1, b2, b3, b4]"
    by (metis fe_bounded_def fe_cases)
  have c: "2 * (push_bit 51 1 - 1) = (0xFFFFFFFFFFFFE :: u64)" by simp
  have sub: "int (unat (x - y + w)) = int (unat x) + int (unat w) - int (unat y)"
    if "x \<in> set a" "y \<in> set b" "w = 0xFFFFFFFFFFFFE \<or> w = 0x10000000000024" for x y w :: u64
  proof -
    have xy: "unat x < 2 ^ 62" "unat y < 2 ^ 51" using assms that by (auto simp: fe_bounded_def)
    have w: "2 ^ 51 \<le> unat w" "unat w < 2 ^ 62" using that(3) by auto
    have "unat (x - y + w) = unat x + unat w - unat y"
      by (rule unat_of_int_nat) (use xy w in simp_all)
    then show ?thesis using xy w by simp
  qed
  have "fe_sub a b = [a0 - b0 + 0x10000000000024, a1 - b1 + 0xFFFFFFFFFFFFE, a2 - b2 + 0xFFFFFFFFFFFFE,
      a3 - b3 + 0xFFFFFFFFFFFFE, a4 - b4 + 0xFFFFFFFFFFFFE]"
    by (simp add: ab fe_sub_def c)
  moreover have
    "int (unat (a0 - b0 + 0x10000000000024)) = int (unat a0) - int (unat b0) + 0x10000000000024"
    "int (unat (a1 - b1 + 0xFFFFFFFFFFFFE)) = int (unat a1) - int (unat b1) + 0xFFFFFFFFFFFFE"
    "int (unat (a2 - b2 + 0xFFFFFFFFFFFFE)) = int (unat a2) - int (unat b2) + 0xFFFFFFFFFFFFE"
    "int (unat (a3 - b3 + 0xFFFFFFFFFFFFE)) = int (unat a3) - int (unat b3) + 0xFFFFFFFFFFFFE"
    "int (unat (a4 - b4 + 0xFFFFFFFFFFFFE)) = int (unat a4) - int (unat b4) + 0xFFFFFFFFFFFFE"
    using sub [of a0 b0 "0x10000000000024"] sub [of a1 b1 "0xFFFFFFFFFFFFE"] sub [of a2 b2 "0xFFFFFFFFFFFFE"]
      sub [of a3 b3 "0xFFFFFFFFFFFFE"] sub [of a4 b4 "0xFFFFFFFFFFFFE"]
    by (simp_all add: ab)
  ultimately show ?thesis
    by (simp only: ab fe_val_def list.map limb_val_5 p25519_def) simp
qed

definition nat_acc :: "nat list \<Rightarrow> nat list \<Rightarrow> nat \<Rightarrow> nat" where
  "nat_acc a b k = foldl (\<lambda>t i. t + (a ! i) * (b ! ((k + 5 - i) mod 5)) * (if k < i then 19 else 1))
       0 [0, 1, 2, 3, 4]"

lemma acc_step:
  fixes t :: u128
  assumes "unat t \<le> m" "unat x < 2 ^ 54" "unat y < 2 ^ 54" "c = 1 \<or> c = 19" "m + 2 ^ 108 * 19 < 2 ^ 128"
  shows "unat (t + ucast (x :: u64) * ucast (y :: u64) * of_nat c) = unat t + unat x * unat y * c"
   "unat t + unat x * unat y * c \<le> m + 2 ^ 108 * 19"
proof -
  have x128: "unat v < 2 ^ 128" for v :: u64 by (rule less_le_trans [OF unsigned_less]) simp
  have x: "unat (ucast x :: u128) = unat x" "unat (ucast y :: u128) = unat y"
    using x128 [of x] x128 [of y] by (simp_all add: unsigned_ucast_eq take_bit_nat_eq_self)
  have "unat x * unat y \<le> 2 ^ 54 * 2 ^ 54" by (rule mult_le_mono) (use assms in simp_all)
  then have xy: "unat x * unat y \<le> 2 ^ 108" by simp
  have c: "unat (of_nat c :: u128) = c" using assms(4) by auto
  have m1: "unat (ucast x * ucast y :: u128) = unat x * unat y"
    using xy x by (subst unat_mult_small) simp_all
  have xyc: "unat x * unat y * c \<le> 2 ^ 108 * 19" by (rule mult_le_mono) (use xy assms(4) in auto)
  have m2: "unat (ucast x * ucast y * of_nat c :: u128) = unat x * unat y * c"
    using xyc m1 c by (subst unat_mult_small) simp_all
  show "unat (t + ucast x * ucast y * of_nat c) = unat t + unat x * unat y * c"
    using xyc m2 assms(1,5) by (subst unat_add_small) simp_all
  show "unat t + unat x * unat y * c \<le> m + 2 ^ 108 * 19" using xyc assms(1) by simp
qed

lemma acc_val:
  assumes "fe_bounded 54 a" "fe_bounded 54 b" "k < 5"
  shows "unat (fe_mul_acc a b k) = nat_acc (map unat a) (map unat b) k"
proof -
  have bnd: "unat (a ! i) < 2 ^ 54" "unat (b ! i) < 2 ^ 54" if "i < 5" for i
    using assms that by (auto simp: fe_bounded_def)
  have len: "length a = 5" "length b = 5" using assms by (auto simp: fe_bounded_def)
  let ?f = "\<lambda>t i. t + ucast (a ! i) * ucast (b ! ((k + 5 - i) mod 5)) * (if k < i then 19 else 1 :: u128)"
  let ?g = "\<lambda>t i. t + (map unat a ! i) * (map unat b ! ((k + 5 - i) mod 5)) * (if k < i then 19 else 1)"
  have step: "unat (?f t i) = ?g n i \<and> ?g n i \<le> m + 2 ^ 108 * 19"
    if "unat t = n" "n \<le> m" "m + 2 ^ 108 * 19 < 2 ^ 128" "i < 5" for t n m i
    using acc_step [of t m "a ! i" "b ! ((k + 5 - i) mod 5)" 19] acc_step [of t m "a ! i" "b ! ((k + 5 - i) mod 5)" 1]
      that bnd [OF that(4)] bnd [of "(k + 5 - i) mod 5"] len
    by (cases "k < i") simp_all
  define K :: nat where "K = 2 ^ 108 * 19"
  have stepK: "unat (?f t i) = ?g n i \<and> ?g n i \<le> m + K"
    if "unat t = n" "n \<le> m" "m + K < 2 ^ 128" "i < 5" for t n m i
    using step that unfolding K_def by blast
  have "unat (foldl ?f t is) = foldl ?g n is"
    if "unat t = n" "n \<le> m" "m + length is * K < 2 ^ 128" "\<forall>i\<in>set is. i < 5" for t n m "is"
    using that
  proof (induction "is" arbitrary: t n m)
    case (Cons i "is")
    have *: "m + K + length is * K < 2 ^ 128" using Cons.prems(3) by (simp only: list.size mult_Suc add.assoc) simp
    then have "m + K < 2 ^ 128" by linarith
    then have **: "unat (?f t i) = ?g n i" "?g n i \<le> m + K"
      using stepK [OF Cons.prems(1,2)] Cons.prems(4) by auto
    have "unat (foldl ?f (?f t i) is) = foldl ?g (?g n i) is"
      by (rule Cons.IH [OF ** *]) (use Cons.prems(4) in simp)
    then show ?case by (simp only: foldl.simps)
  qed simp
  from this [of 0 0 0 "[0, 1, 2, 3, 4]"] show ?thesis
    by (simp add: fe_mul_acc_def nat_acc_def K_def)
qed

lemma nat_acc_eqs:
  "nat_acc [a0, a1, a2, a3, a4] [b0, b1, b2, b3, b4] 0 = a0 * b0 + 19 * (a1 * b4) + 19 * (a2 * b3) + 19 * (a3 * b2) + 19 * (a4 * b1)"
  "nat_acc [a0, a1, a2, a3, a4] [b0, b1, b2, b3, b4] 1 = a0 * b1 + a1 * b0 + 19 * (a2 * b4) + 19 * (a3 * b3) + 19 * (a4 * b2)"
  "nat_acc [a0, a1, a2, a3, a4] [b0, b1, b2, b3, b4] 2 = a0 * b2 + a1 * b1 + a2 * b0 + 19 * (a3 * b4) + 19 * (a4 * b3)"
  "nat_acc [a0, a1, a2, a3, a4] [b0, b1, b2, b3, b4] 3 = a0 * b3 + a1 * b2 + a2 * b1 + a3 * b0 + 19 * (a4 * b4)"
  "nat_acc [a0, a1, a2, a3, a4] [b0, b1, b2, b3, b4] 4 = a0 * b4 + a1 * b3 + a2 * b2 + a3 * b1 + a4 * b0"
  by (simp_all add: nat_acc_def)

lemma nat_acc_bound:
  assumes "\<forall>x\<in>set a. x < 2 ^ 54" "\<forall>x\<in>set b. x < 2 ^ 54" "length a = 5" "length b = 5" "k < 5"
  shows "nat_acc a b k \<le> (5 + 18 * (4 - k)) * 2 ^ 108"
proof -
  obtain a0 a1 a2 a3 a4 where a: "a = [a0, a1, a2, a3, a4]"
    using assms(3) by (auto simp: numeral_eq_Suc length_Suc_conv)
  obtain b0 b1 b2 b3 b4 where b: "b = [b0, b1, b2, b3, b4]"
    using assms(4) by (auto simp: numeral_eq_Suc length_Suc_conv)
  define K :: nat where "K = 2 ^ 108"
  have bnd: "x * y \<le> K" if "x \<in> set a" "y \<in> set b" for x y
  proof -
    have "x * y \<le> 2 ^ 54 * 2 ^ 54"
      by (rule mult_le_mono) (use assms that in \<open>auto simp: less_imp_le\<close>)
    then show ?thesis by (simp add: K_def)
  qed
  consider "k = 0" | "k = 1" | "k = 2" | "k = 3" | "k = 4" using assms(5) by linarith
  then have "nat_acc a b k \<le> (5 + 18 * (4 - k)) * K"
  proof cases
    case 1
    have "a0 * b0 \<le> K" "a1 * b4 \<le> K" "a2 * b3 \<le> K" "a3 * b2 \<le> K" "a4 * b1 \<le> K"
      by (rule bnd; simp add: a b)+
    with 1 show ?thesis by (simp only: a b nat_acc_eqs) simp
  next
    case 2
    have "a0 * b1 \<le> K" "a1 * b0 \<le> K" "a2 * b4 \<le> K" "a3 * b3 \<le> K" "a4 * b2 \<le> K"
      by (rule bnd; simp add: a b)+
    with 2 show ?thesis by (simp only: a b nat_acc_eqs) simp
  next
    case 3
    have "a0 * b2 \<le> K" "a1 * b1 \<le> K" "a2 * b0 \<le> K" "a3 * b4 \<le> K" "a4 * b3 \<le> K"
      by (rule bnd; simp add: a b)+
    with 3 show ?thesis by (simp only: a b nat_acc_eqs) simp
  next
    case 4
    have "a0 * b3 \<le> K" "a1 * b2 \<le> K" "a2 * b1 \<le> K" "a3 * b0 \<le> K" "a4 * b4 \<le> K"
      by (rule bnd; simp add: a b)+
    with 4 show ?thesis by (simp only: a b nat_acc_eqs) simp
  next
    case 5
    have "a0 * b4 \<le> K" "a1 * b3 \<le> K" "a2 * b2 \<le> K" "a3 * b1 \<le> K" "a4 * b0 \<le> K"
      by (rule bnd; simp add: a b)+
    with 5 show ?thesis by (simp only: a b nat_acc_eqs) simp
  qed
  then show ?thesis by (simp only: K_def)
qed

lemma split51: "unat (ucast (t AND ucast mask51) :: u64) = unat (t :: u128) mod 2 ^ 51"
proof -
  have "ucast mask51 = (mask 51 :: u128)" by (simp add: mask51_def mask_eq_exp_minus_1)
  then have "t AND ucast mask51 = take_bit 51 t" by (simp only: take_bit_eq_mask)
  then have "unat (ucast (t AND ucast mask51) :: u64) = take_bit LENGTH(64) (take_bit 51 (unat t))"
    by (simp only: unsigned_ucast_eq unsigned_take_bit_eq) simp
  then show ?thesis by (simp add: take_bit_eq_mod)
qed

lemma carry51:
  assumes "unat (t :: u128) < 2 ^ 115"
  shows "unat (ucast (drop_bit 51 t) :: u64) = unat t div 2 ^ 51"
proof -
  have lt: "drop_bit 51 (unat t) < 2 ^ 64"
    using assms by (simp add: drop_bit_eq_div less_mult_imp_div_less)
  have "unat t < 2 ^ LENGTH(128)" by (rule unsigned_less)
  then have "unat (ucast (drop_bit 51 t) :: u64) = take_bit LENGTH(64) (drop_bit 51 (unat t))"
    by (simp only: unsigned_ucast_eq unsigned_drop_bit_eq take_bit_nat_eq_self)
  with lt show ?thesis by (simp add: take_bit_nat_eq_self drop_bit_eq_div)
qed

lemma length_fe_mul [simp]: "length (fe_mul a b) = 5"
  by (simp add: fe_mul_def Let_def)

lemma fe_mul_limbs:
  assumes "fe_bounded 54 a" "fe_bounded 54 b"
  defines "n \<equiv> nat_acc (map unat a) (map unat b)"
  shows "map unat (fe_mul a b) =
    [n 0 mod 2 ^ 51 + 19 * (n 4 div 2 ^ 51), n 1 mod 2 ^ 51 + n 0 div 2 ^ 51, n 2 mod 2 ^ 51 + n 1 div 2 ^ 51,
     n 3 mod 2 ^ 51 + n 2 div 2 ^ 51, n 4 mod 2 ^ 51 + n 3 div 2 ^ 51]"
proof -
  have bnd: "n k \<le> 77 * 2 ^ 108" "n 4 \<le> 5 * 2 ^ 108" if "k < 5" for k
  proof -
    have "n k \<le> (5 + 18 * (4 - k)) * 2 ^ 108" if "k < 5" for k
      unfolding n_def by (rule nat_acc_bound) (use assms(1,2) that in \<open>auto simp: fe_bounded_def\<close>)
    from this [of k] this [of 4] that show "n k \<le> 77 * 2 ^ 108" "n 4 \<le> 5 * 2 ^ 108"
      by (auto elim!: order_trans)
  qed
  have acc: "unat (fe_mul_acc a b k) = n k" if "k < 5" for k
    unfolding n_def by (rule acc_val [OF assms(1,2) that])
  have low: "unat (ucast (fe_mul_acc a b k AND ucast mask51) :: u64) = n k mod 2 ^ 51" if "k < 5" for k
    using acc [OF that] by (simp only: split51)
  have high: "unat (ucast (drop_bit 51 (fe_mul_acc a b k)) :: u64) = n k div 2 ^ 51" if "k < 5" for k
    using acc [OF that] bnd(1) [OF that] by (subst carry51) simp_all
  have mod: "n k mod 2 ^ 51 < 2 ^ 51" for k by simp
  have carry: "unat (ucast (fe_mul_acc a b k AND ucast mask51) + ucast (drop_bit 51 (fe_mul_acc a b j)) :: u64) =
      n k mod 2 ^ 51 + n j div 2 ^ 51" if "k < 5" "j < 5" for k j
  proof -
    have "n j div 2 ^ 51 \<le> 77 * 2 ^ 108 div 2 ^ 51" by (rule div_le_mono [OF bnd(1) [OF that(2)]])
    then have "n j div 2 ^ 51 \<le> 77 * 2 ^ 57" by simp
    with mod [of k] have "n k mod 2 ^ 51 + n j div 2 ^ 51 < 2 ^ 64" by simp
    then have "unat (ucast (fe_mul_acc a b k AND ucast mask51) :: u64) + unat (ucast (drop_bit 51 (fe_mul_acc a b j)) :: u64) < 2 ^ LENGTH(64)"
      by (simp only: low [OF that(1)] high [OF that(2)]) simp
    then show ?thesis by (simp only: unat_add_small low [OF that(1)] high [OF that(2)])
  qed
  have top: "unat (ucast (fe_mul_acc a b 0 AND ucast mask51) + 19 * ucast (drop_bit 51 (fe_mul_acc a b 4)) :: u64) =
      n 0 mod 2 ^ 51 + 19 * (n 4 div 2 ^ 51)"
  proof -
    have "n 4 div 2 ^ 51 \<le> 5 * 2 ^ 108 div 2 ^ 51" by (rule div_le_mono [OF bnd(2) [of 0]]) simp
    then have le: "n 4 div 2 ^ 51 \<le> 5 * 2 ^ 57" by simp
    have h: "unat (ucast (drop_bit 51 (fe_mul_acc a b 4)) :: u64) = n 4 div 2 ^ 51" by (rule high) simp
    have "unat (19 * ucast (drop_bit 51 (fe_mul_acc a b 4)) :: u64) = 19 * (n 4 div 2 ^ 51)"
      using le h by (subst unat_mult_small) simp_all
    moreover have "unat (ucast (fe_mul_acc a b 0 AND ucast mask51) :: u64) = n 0 mod 2 ^ 51" by (rule low) simp
    ultimately show ?thesis
      using le mod [of 0] by (subst unat_add_small) simp_all
  qed
  show ?thesis
    using carry [of 1 0] carry [of 2 1] carry [of 3 2] carry [of 4 3] top
    by (simp add: fe_mul_def Let_def)
qed

lemma fe_bounded_mono: "fe_bounded m a \<Longrightarrow> m \<le> n \<Longrightarrow> fe_bounded n a"
  unfolding fe_bounded_def by (meson one_le_numeral order_less_le_trans power_increasing)

lemma carry_identity:
  fixes B :: int
  shows "(m0 + 19 * d4) + B * ((m1 + d0) + B * ((m2 + d1) + B * ((m3 + d2) + B * (m4 + d3)))) =
    (m0 + B * d0) + B * ((m1 + B * d1) + B * ((m2 + B * d2) + B * ((m3 + B * d3) + B * (m4 + B * d4)))) -
      (B ^ 5 - 19) * d4"
  by algebra

text \<open>The carries do not change the sum modulo the prime.\<close>

lemma carried_val:
  "limb_val [n0 mod 2 ^ 51 + 19 * (n4 div 2 ^ 51), n1 mod 2 ^ 51 + n0 div 2 ^ 51, n2 mod 2 ^ 51 + n1 div 2 ^ 51,
     n3 mod 2 ^ 51 + n2 div 2 ^ 51, n4 mod 2 ^ 51 + n3 div 2 ^ 51] =
   limb_val [n0, n1, n2, n3, n4] - p25519 * int (n4 div 2 ^ 51)"
proof -
  have split: "int (n mod 2 ^ 51) + 2 ^ 51 * int (n div 2 ^ 51) = int n" for n :: nat
    using mod_mult_div_eq [of n "2 ^ 51"] by (metis of_nat_add of_nat_mult of_nat_numeral of_nat_power)
  have p: "p25519 = (2 ^ 51) ^ 5 - 19" by (simp add: p25519_def)
  show ?thesis
    by (simp only: limb_val_5 p of_nat_add of_nat_mult of_nat_numeral carry_identity [of _ _ "2 ^ 51"] split)
qed

lemma product_val:
  assumes "length a = 5" "length b = 5"
  shows "\<exists>q. limb_val [nat_acc a b 0, nat_acc a b 1, nat_acc a b 2, nat_acc a b 3, nat_acc a b 4] =
     limb_val a * limb_val b - p25519 * q"
proof -
  obtain a0 a1 a2 a3 a4 where a: "a = [a0, a1, a2, a3, a4]"
    using assms(1) by (auto simp: numeral_eq_Suc length_Suc_conv)
  obtain b0 b1 b2 b3 b4 where b: "b = [b0, b1, b2, b3, b4]"
    using assms(2) by (auto simp: numeral_eq_Suc length_Suc_conv)
  define B :: int where "B = 2 ^ 51"
  have p: "p25519 = B ^ 5 - 19" by (simp add: p25519_def B_def)
  let ?q = "int (a1 * b4 + a2 * b3 + a3 * b2 + a4 * b1) + B * int (a2 * b4 + a3 * b3 + a4 * b2) +
     B ^ 2 * int (a3 * b4 + a4 * b3) + B ^ 3 * int (a4 * b4)"
  show ?thesis
    by (rule exI [of _ ?q], simp only: a b nat_acc_eqs limb_val_5 p B_def [symmetric] of_nat_add of_nat_mult of_nat_numeral)
       algebra
qed

lemma fe_mul_val:
  assumes "fe_bounded 54 a" "fe_bounded 54 b"
  shows "fe_val (fe_mul a b) mod p25519 = (fe_val a * fe_val b) mod p25519"
proof -
  let ?n = "nat_acc (map unat a) (map unat b)"
  have "length (map unat a) = 5" "length (map unat b) = 5" using assms by (auto simp: fe_bounded_def)
  from product_val [OF this] obtain q where q:
    "limb_val [?n 0, ?n 1, ?n 2, ?n 3, ?n 4] = fe_val a * fe_val b - p25519 * q"
    by (auto simp: fe_val_def)
  have "fe_val (fe_mul a b) = fe_val a * fe_val b - p25519 * (q + int (?n 4 div 2 ^ 51))"
    unfolding fe_val_def [of "fe_mul a b"] fe_mul_limbs [OF assms] carried_val q by (simp add: algebra_simps)
  then show ?thesis by (metis mod_mult_self2 diff_add_cancel mult.commute)
qed

section \<open>Bytes and limbs\<close>

fun le_nat :: "byte list \<Rightarrow> nat" where
  "le_nat [] = 0"
| "le_nat (x # xs) = unat x + 256 * le_nat xs"

lemma bit_le_nat: "bit (le_nat b) i \<longleftrightarrow> i div 8 < length b \<and> bit (b ! (i div 8)) (i mod 8)"
proof (induction b arbitrary: i)
  case Nil
  then show ?case by simp
next
  case (Cons x xs)
  have "256 * le_nat xs = push_bit 8 (le_nat xs)" by (simp add: push_bit_eq_mult)
  moreover have "unat x + push_bit 8 (le_nat xs) = unat x OR push_bit 8 (le_nat xs)"
    by (rule disjunctive_add) (auto simp: bit_push_bit_iff bit_unsigned_iff dest: bit_imp_le_length)
  ultimately have eq: "le_nat (x # xs) = unat x OR push_bit 8 (le_nat xs)" by simp
  show ?case
  proof (cases "i < 8")
    case True
    then show ?thesis unfolding eq by (simp add: bit_or_iff bit_push_bit_iff bit_unsigned_iff)
  next
    case False
    then have "i div 8 = Suc ((i - 8) div 8)" "i mod 8 = (i - 8) mod 8"
      by (simp_all add: le_div_geq le_mod_geq)
    with False Cons.IH [of "i - 8"] show ?thesis
      unfolding eq by (auto simp: bit_or_iff bit_push_bit_iff bit_unsigned_iff dest: bit_imp_le_length)
  qed
qed

lemma bit_le_nat_split: "r < 8 \<Longrightarrow> bit (le_nat b) (8 * j + r) \<longleftrightarrow> j < length b \<and> bit (b ! j) r"
  by (simp add: bit_le_nat)

lemma bit_load64:
  assumes "8 \<le> length p"
  shows "bit (load64 p) i \<longleftrightarrow> i < 64 \<and> bit (le_nat p) i"
proof -
  define j r where "j = i div 8" and "r = i mod 8"
  have i: "i = 8 * j + r" "r < 8" by (simp_all add: j_def r_def)
  have b: "\<not> bit (p ! n) m" if "8 \<le> m" for n m
    using that bit_imp_le_length [of "p ! n" m] by auto
  have "j < 8 \<or> 8 \<le> j" by linarith
  then show ?thesis
  proof
    assume "8 \<le> j"
    then show ?thesis using i bit_imp_le_length [of "load64 p" i] by auto
  next
    assume "j < 8"
    then consider "j = 0" | "j = 1" | "j = 2" | "j = 3" | "j = 4" | "j = 5" | "j = 6" | "j = 7" by linarith
    then show ?thesis
      using i(2) assms unfolding i(1) bit_le_nat_split [OF i(2)]
      by cases (auto simp: load64_def bit_or_iff bit_push_bit_iff bit_ucast_iff b)
  qed
qed

lemma le_nat_drop: "n \<le> length b \<Longrightarrow> le_nat (drop n b) = drop_bit (8 * n) (le_nat b)"
  by (rule bit_eqI) (auto simp: bit_le_nat bit_drop_bit_eq)

lemma bit_mask51: "bit mask51 i \<longleftrightarrow> i < 51"
proof -
  have m: "mask51 = mask 51" by (simp add: mask51_def mask_eq_exp_minus_1)
  show ?thesis unfolding m bit_mask_iff by (auto simp: possible_bit_def)
qed

lemma bit_frombytes:
  assumes "length b = 32" "k < 5"
  shows "bit (fe_frombytes b ! k) n \<longleftrightarrow> n < 51 \<and> bit (le_nat b) (51 * k + n)"
proof -
  consider "k = 0" | "k = 1" | "k = 2" | "k = 3" | "k = 4" using assms(2) by linarith
  then show ?thesis
    by cases (auto simp: fe_frombytes_def bit_and_iff bit_drop_bit_eq bit_load64 bit_mask51 le_nat_drop assms(1)
        ac_simps)
qed

lemma fe_frombytes_unat:
  assumes "length b = 32" "k < 5"
  shows "unat (fe_frombytes b ! k) = take_bit 51 (drop_bit (51 * k) (le_nat b))"
  by (rule bit_eqI) (simp add: bit_unsigned_iff bit_frombytes assms bit_take_bit_iff bit_drop_bit_eq)

lemma fe_frombytes_val:
  assumes "length b = 32"
  shows "fe_val (fe_frombytes b) = int (le_nat b mod 2 ^ 255)"
proof -
  let ?n = "le_nat b"
  have d: "take_bit (m + k) n = take_bit m n + 2 ^ m * take_bit k (drop_bit m n)" for m k n :: nat
    by (simp add: take_bit_eq_mod drop_bit_eq_div power_add mod_mult2_eq)
  have "int (take_bit 255 ?n) = limb_val (map (\<lambda>k. take_bit 51 (drop_bit (51 * k) ?n)) [0, 1, 2, 3, 4])"
    using d [of 51 204 ?n] d [of 51 153 "drop_bit 51 ?n"] d [of 51 102 "drop_bit 102 ?n"] d [of 51 51 "drop_bit 153 ?n"]
    by (simp add: limb_val_5 drop_bit_drop_bit)
  moreover have "length (fe_frombytes b) = 5" by (simp add: fe_frombytes_def)
  then have "fe_frombytes b = map ((!) (fe_frombytes b)) [0, 1, 2, 3, 4]"
    by (auto simp: fe_frombytes_def)
  then have "map unat (fe_frombytes b) = map (\<lambda>k. take_bit 51 (drop_bit (51 * k) ?n)) [0, 1, 2, 3, 4]"
    using fe_frombytes_unat [OF assms, of 0] fe_frombytes_unat [OF assms, of 1] fe_frombytes_unat [OF assms, of 2]
      fe_frombytes_unat [OF assms, of 3] fe_frombytes_unat [OF assms, of 4]
    by (simp add: fe_frombytes_def)
  ultimately show ?thesis by (simp add: fe_val_def take_bit_eq_mod)
qed


lemma fe_reduce_id:
  assumes "length h = 5" "\<And>k n. k < 5 \<Longrightarrow> bit (h ! k) n \<Longrightarrow> n < 51"
  shows "fe_reduce h = h"
proof -
  have d: "drop_bit 51 (h ! k) = 0" if "k < 5" for k
    by (rule bit_word_eqI) (use assms(2) [OF that] in \<open>force simp: bit_drop_bit_eq\<close>)
  have m: "h ! k AND mask51 = h ! k" if "k < 5" for k
    by (rule bit_word_eqI) (use assms(2) [OF that] in \<open>auto simp: bit_and_iff bit_mask51\<close>)
  obtain t0 t1 t2 t3 t4 where h: "h = [t0, t1, t2, t3, t4]" using assms(1) fe_cases by blast
  show ?thesis
    using d [of 0] d [of 1] d [of 2] d [of 3] d [of 4] m [of 0] m [of 1] m [of 2] m [of 3] m [of 4]
    by (simp add: fe_reduce_def Let_def h)
qed

lemma tobytes_frombytes:
  assumes "length b = 32"
  shows "fe_tobytes (fe_frombytes b) = fe_pack (fe_frombytes b)"
proof -
  have "length (fe_frombytes b) = 5" by (simp add: fe_frombytes_def)
  then show ?thesis
    unfolding fe_tobytes_def by (subst fe_reduce_id) (auto simp: bit_frombytes [OF assms])
qed

lemma pack_frombytes_bit:
  assumes b: "length b = 32" "b ! 31 < 128" and i: "i < 12 \<or> 20 \<le> i \<and> i < 32" and j: "j < 8"
  shows "bit (fe_pack (fe_frombytes b) ! i) j = bit (b ! i) j"
proof -
  have key: "bit (le_nat b) (8 * i + j) = bit (b ! i) j"
    using bit_le_nat_split [OF j, of b i] i b by auto
  have top: "\<not> bit (b ! 31) 7"
  proof -
    have "unat (b ! 31) < 128" using b(2) by (simp add: word_less_nat_alt)
    then have "take_bit 7 (unat (b ! 31)) = unat (b ! 31)" by (simp add: take_bit_nat_eq_self)
    then have "\<not> bit (unat (b ! 31)) 7" by (metis bit_take_bit_iff less_irrefl)
    then show ?thesis by (simp add: bit_unsigned_iff)
  qed
  have j7: "bit (b ! 31) j \<Longrightarrow> j < 7" using top j by (cases "j = 7") auto
  have j3: "3 \<le> j \<Longrightarrow> 51 + (j - 3) = 48 + j" and j4: "4 \<le> j \<Longrightarrow> 204 + (j - 4) = 200 + j" by linarith+
  note bits = fe_pack_def Let_def bit_or_iff bit_ucast_iff bit_drop_bit_eq bit_push_bit_iff
    bit_frombytes [OF b(1)] j3 j4
  have "i \<in> set (0 # 1 # [2..<12] @ [20..<32])" using i by (auto simp del: upt_rec_numeral)
  then have "i = 0 \<or> i = 1 \<or> i = 2 \<or> i = 3 \<or> i = 4 \<or> i = 5 \<or> i = 6 \<or> i = 7 \<or> i = 8 \<or> i = 9 \<or> i = 10 \<or> i = 11 \<or>
     i = 20 \<or> i = 21 \<or> i = 22 \<or> i = 23 \<or> i = 24 \<or> i = 25 \<or> i = 26 \<or> i = 27 \<or> i = 28 \<or> i = 29 \<or> i = 30 \<or> i = 31"
    by (simp add: upt_rec_numeral)
  then show ?thesis
    using key j j7 by (elim disjE) (auto simp: bits)
qed

lemma pack_byte_12:
  assumes "length b = 32"
  shows "fe_pack (fe_frombytes b) ! 12 = b ! 12 AND 0x3F"
proof (rule bit_word_eqI)
  fix j assume "j < LENGTH(8)"
  then have j: "j < 8" by simp
  have "(0x3F :: byte) = mask 6" by (simp add: mask_eq_exp_minus_1)
  then have m: "bit (0x3F :: byte) j \<longleftrightarrow> j < 6" using j by (simp only: bit_mask_iff) (auto simp: possible_bit_def)
  show "bit (fe_pack (fe_frombytes b) ! 12) j = bit (b ! 12 AND 0x3F) j"
    using bit_le_nat_split [OF j, of b 12] assms j m
    by (auto simp: fe_pack_def Let_def bit_ucast_iff bit_drop_bit_eq bit_frombytes [OF assms] bit_and_iff)
qed

section \<open>Properties\<close>

text \<open>
  C35. The field multiplication: for factors whose limbs are below \<open>2 ^ 54\<close> no intermediate result wraps
  around or is truncated, and the value is the product modulo the prime.
\<close>

theorem fe_mul_correct:
  assumes "length a = 5" "length b = 5" "\<forall>x \<in> set a \<union> set b. unat x < 2 ^ 54"
  shows "fe_val (fe_mul a b) mod p25519 = (fe_val a * fe_val b) mod p25519"
  by (rule fe_mul_val) (use assms in \<open>auto simp: fe_bounded_def\<close>)

lemma fe_mul_correct_witness:
  "fe_val (fe_mul [5, 0, 0, 0, 1] [7, 0, 0, 0, 2]) mod p25519 =
     (fe_val [5, 0, 0, 0, 1] * fe_val [7, 0, 0, 0, 2]) mod p25519"
  by (rule fe_mul_correct) simp_all

text \<open>
  The bound of the multiplication is not kept: its single pass of carries returns limbs of up to 58
  bits, and the square of a square is wrong. With all limbs of the operand at their 51-bit maximum, the
  second squaring loses bits, so the ladder, which multiplies products, leaves the field arithmetic.
\<close>

theorem fe_mul_loses_bits:
  "let x = [mask51, mask51, mask51, mask51, mask51]
   in fe_val (fe_sq x) mod p25519 = (fe_val x) ^ 2 mod p25519 \<and>
      fe_val (fe_sq (fe_sq x)) mod p25519 \<noteq> (fe_val x) ^ 4 mod p25519"
proof -
  have m: "mask51 = 0x7FFFFFFFFFFFF" by (simp add: mask51_def)
  have 1: "fe_sq [mask51, mask51, mask51, mask51, mask51] = [213920982300098447, 173388585653764001, 132856189007429555, 92323792361095109, 51791395714760663]"
    by (simp add: m fe_sq_def fe_mul_def fe_mul_acc_def Let_def)
  have 2: "fe_sq [213920982300098447, 173388585653764001, 132856189007429555, 92323792361095109, 51791395714760663] = [15742332497473162131, 9919178179283248305, 18066189905196576459, 8604127088091234473, 5293981361973965075]"
    by (simp add: m fe_sq_def fe_mul_def fe_mul_acc_def Let_def)
  have v0: "fe_val [mask51, mask51, mask51, mask51, mask51] = 57896044618658097711785492504343953926634992332820282019728792003956564819967"
    by (simp add: m fe_val_def limb_val_def)
  have v1: "fe_val [213920982300098447, 173388585653764001, 132856189007429555, 92323792361095109, 51791395714760663] = 1331609026229136247371066327599910940312604823654866486453762216091000990859151"
    by (simp add: fe_val_def limb_val_def)
  have v2: "fe_val [15742332497473162131, 9919178179283248305, 18066189905196576459, 8604127088091234473, 5293981361973965075] = 136113600898463923972907670190443363512505706444089764799432309305439284268485523"
    by (simp add: fe_val_def limb_val_def)
  have p: "p25519 = 57896044618658097711785492504343953926634992332820282019728792003956564819949" by (simp add: p25519_def)
  have "fe_val [213920982300098447, 173388585653764001, 132856189007429555, 92323792361095109, 51791395714760663] mod p25519 = (fe_val [mask51, mask51, mask51, mask51, mask51]) ^ 2 mod p25519"
    unfolding v0 v1 p by code_simp
  moreover have "fe_val [15742332497473162131, 9919178179283248305, 18066189905196576459, 8604127088091234473, 5293981361973965075] mod p25519 \<noteq> (fe_val [mask51, mask51, mask51, mask51, mask51]) ^ 4 mod p25519"
    unfolding v0 v2 p by code_simp
  ultimately show ?thesis
    unfolding Let_def 1 2 by blast
qed

text \<open>
  C36. Field elements are read correctly from their 32 bytes (little-endian, without the top bit), but
  writing them back is wrong: bytes 0 to 11 and 20 to 31 come back, byte 12 loses its two top bits.
\<close>

theorem fe_bytes_conversion:
  assumes "length b = 32" "b ! 31 < 128"
  shows "fe_val (fe_frombytes b) = int (le_nat b) \<and>
    (\<forall>i < 32. i < 12 \<or> 20 \<le> i \<longrightarrow> fe_tobytes (fe_frombytes b) ! i = b ! i) \<and>
    fe_tobytes (fe_frombytes b) ! 12 = b ! 12 AND 0x3F"
proof (intro conjI)
  have bit: "\<not> bit (b ! 31) 7"
  proof -
    have "unat (b ! 31) < 128" using assms(2) by (simp add: word_less_nat_alt)
    then have "take_bit 7 (unat (b ! 31)) = unat (b ! 31)" by (simp add: take_bit_nat_eq_self)
    then have "\<not> bit (unat (b ! 31)) 7" by (metis bit_take_bit_iff less_irrefl)
    then show ?thesis by (simp add: bit_unsigned_iff)
  qed
  have "take_bit 255 (le_nat b) = le_nat b"
  proof (rule bit_eqI)
    fix n
    have "\<not> bit (le_nat b) n" if "255 \<le> n"
    proof (cases "n = 255")
      case True
      then show ?thesis using bit_le_nat_split [of 7 b 31] bit by simp
    next
      case False
      with that have "32 \<le> n div 8" by linarith
      then show ?thesis using assms(1) by (simp add: bit_le_nat)
    qed
    then show "bit (take_bit 255 (le_nat b)) n = bit (le_nat b) n" by (metis bit_take_bit_iff not_less)
  qed
  then show "fe_val (fe_frombytes b) = int (le_nat b)"
    using fe_frombytes_val [OF assms(1)] by (simp add: take_bit_eq_mod)
  have "fe_pack (fe_frombytes b) ! i = b ! i" if "i < 12 \<or> 20 \<le> i \<and> i < 32" for i
    by (rule bit_word_eqI) (use pack_frombytes_bit [OF assms that] in simp)
  then show "\<forall>i < 32. i < 12 \<or> 20 \<le> i \<longrightarrow> fe_tobytes (fe_frombytes b) ! i = b ! i"
    using tobytes_frombytes [OF assms(1)] by auto
  show "fe_tobytes (fe_frombytes b) ! 12 = b ! 12 AND 0x3F"
    using tobytes_frombytes [OF assms(1)] pack_byte_12 [OF assms(1)] by simp
qed

lemma fe_bytes_conversion_witness:
  "fe_tobytes (fe_frombytes (replicate 12 0 @ [0xFF] @ replicate 19 0)) ! 12 = 0x3F"
  using fe_bytes_conversion [of "replicate 12 0 @ [0xFF] @ replicate 19 0"] by (simp add: nth_append)


text \<open>
  One turn of the ladder, over the integers: with \<open>a24 = 121665\<close> three of the four coordinates are
  those of RFC 7748, but \<open>z2\<close> is not. The code adds \<open>a24 * E\<close> to \<open>BB\<close> where the RFC adds it to
  \<open>AA = BB + E\<close>, so the result is off by the square of \<open>E = (x2 + z2) ^ 2 - (x2 - z2) ^ 2\<close>.
\<close>

theorem ladder_step_formulas:
  fixes x1 x2 z2 x3 z3 :: int
  shows "ladder_step (+) (-) (*) 121665 x1 (x2, z2, x3, z3) =
    (let a = x2 + z2; aa = a ^ 2; b = x2 - z2; bb = b ^ 2; e = aa - bb;
         c = x3 + z3; d = x3 - z3; da = d * a; cb = c * b
     in (aa * bb, e * (aa + 121665 * e) - e ^ 2, (da + cb) ^ 2, x1 * (da - cb) ^ 2))"
  by (simp add: ladder_step_def Let_def power2_eq_square algebra_simps)

lemma square_chain:
  fixes z t :: int and "is" :: "nat list"
  assumes "\<forall>i\<in>set is. 3 < i"
  shows "foldl (\<lambda>t0 i. let t0 = t0 * t0 in if i = 1 \<or> i = 3 then t0 * z else t0) t is = t ^ (2 ^ length is)"
  using assms
proof (induction "is" arbitrary: t)
  case (Cons i "is")
  then have "foldl (\<lambda>t0 i. let t0 = t0 * t0 in if i = 1 \<or> i = 3 then t0 * z else t0) (t * t) is = (t * t) ^ (2 ^ length is)"
    by simp
  with Cons.prems show ?case
    by (simp add: Let_def power_mult_distrib mult_2 power_add flip: power_mult)
qed simp

text \<open>
  The exponentiation that is meant to invert \<open>z2\<close> raises it to \<open>29 * 2 ^ 250\<close> instead of to the
  prime minus 2.
\<close>

theorem invert_chain_exponent:
  fixes z :: int
  shows "invert_chain (*) z = z ^ (29 * 2 ^ 250) \<and> int (29 * 2 ^ 250) \<noteq> p25519 - 2"
proof (intro conjI)
  have "[1..<254] = [1, 2, 3] @ [4..<254 :: nat]"
    using upt_add_eq_append [of 1 4 250] by (simp del: upt_rec_numeral) (simp add: upt_rec numeral_eq_Suc)
  then have "invert_chain (*) z =
      foldl (\<lambda>t0 i. let t0 = t0 * t0 in if i = 1 \<or> i = 3 then t0 * z else t0) (z * z * z) ([1, 2, 3] @ [4..<254 :: nat])"
    by (simp only: invert_chain_def Let_def)
  also have "\<dots> = foldl (\<lambda>t0 i. let t0 = t0 * t0 in if i = 1 \<or> i = 3 then t0 * z else t0) (z ^ 29) [4..<254 :: nat]"
  proof -
    have "foldl (\<lambda>t0 i. let t0 = t0 * t0 in if i = 1 \<or> i = 3 then t0 * z else t0) (z * z * z) [1, 2, 3 :: nat] = z ^ 29"
      by (simp add: Let_def) algebra
    then show ?thesis by (simp only: foldl_append)
  qed
  also have "\<dots> = (z ^ 29) ^ (2 ^ length [4..<254 :: nat])"
    by (rule square_chain) (simp del: upt_rec_numeral)
  finally show "invert_chain (*) z = z ^ (29 * 2 ^ 250)"
    by (simp only: length_upt power_mult) simp
  show "int (29 * 2 ^ 250) \<noteq> p25519 - 2" by (simp add: p25519_def)
qed
end
