(* ===== verification/Axon_Handshake.thy ===== *)
theory Axon_Handshake
  imports Axon_Context Axon_Hkdf Axon_X25519
begin

text \<open>
  The handshake messages of the server, \<open>core/source/handshake.c\<close>: parsing of the ClientHello, the five
  messages of the server's flight, the check of the client's Finished and the key derivation.

  \<open>/dev/urandom\<close> is a parameter: whether it can be opened and the chunks that successive
  calls of \<open>read\<close> deliver (an empty chunk stands for a result \<open>n <= 0\<close>). A message is built behind
  a cursor: \<open>emit ys (out, offset)\<close> is a run of \<open>out[offset++] = ...\<close>, or a \<open>memcpy\<close> with its advance.
\<close>

section \<open>Random bytes\<close>

record urandom =
  can_open :: bool
  chunks :: "byte list list"

fun read_loop :: "byte list list \<Rightarrow> byte list \<Rightarrow> nat \<Rightarrow> nat \<Rightarrow> (int \<times> byte list \<times> byte list list) option" where
  "read_loop [] buf total_read len =
     (if total_read < len then Some (-1, buf, []) else Some (0, buf, []))"
| "read_loop (c # cs) buf total_read len =
     (if total_read < len then
        let n = min (len - total_read) (length c) in
        if n = 0 then Some (-1, buf, cs)
        else do {
          buf \<leftarrow> wr_bytes buf total_read (take n c);
          read_loop cs buf (total_read + n) len }
      else Some (0, buf, c # cs))"

definition generate_random :: "urandom \<Rightarrow> byte list \<Rightarrow> nat \<Rightarrow> (int \<times> byte list \<times> urandom) option" where
  "generate_random dev buf len =
     (if \<not> can_open dev then Some (-1, buf, dev)
      else do {
        (ret, buf, cs) \<leftarrow> read_loop (chunks dev) buf 0 len;
        Some (ret, buf, dev\<lparr>chunks := cs\<rparr>) })"

section \<open>Parsing the ClientHello\<close>

definition supported_suite :: "u16 \<Rightarrow> bool" where
  "supported_suite s \<longleftrightarrow> s = TLS_CIPHER_AES_128_GCM_SHA256 \<or> s = TLS_CIPHER_AES_256_GCM_SHA384 \<or>
     s = TLS_CIPHER_CHACHA20_POLY1305"

definition rd16 :: "byte list \<Rightarrow> nat \<Rightarrow> u16 option" where
  "rd16 data i = do { a \<leftarrow> rd data i; b \<leftarrow> rd data (i + 1); Some (be16 a b) }"

text \<open>The loop over the cipher suites; the result is the suite it stops at.\<close>

function suite_loop :: "byte list \<Rightarrow> nat \<Rightarrow> nat \<Rightarrow> nat \<Rightarrow> u16 ptr option" where
  "suite_loop data offset n i =
     (if i < n then do {
        suite \<leftarrow> rd16 data (offset + i);
        if supported_suite suite then Some (Some suite)
        else suite_loop data offset n (i + 2) }
      else Some NULL)"
  by pat_completeness auto
termination
  by (relation "measure (\<lambda>(data, offset, n, i). n - i)") auto

declare suite_loop.simps [simp del]

text \<open>The loop over the extensions.\<close>

function ext_loop :: "axon_context \<Rightarrow> byte list \<Rightarrow> nat \<Rightarrow> nat \<Rightarrow> nat \<Rightarrow> axon_context option" where
  "ext_loop ctx data len extensions_len offset =
     (if offset + 4 \<le> len \<and> size_sub offset 4 < extensions_len then do {
        ext_type \<leftarrow> rd16 data offset;
        ext_len \<leftarrow> rd16 data (offset + 2);
        let offset = offset + 4;
        if ext_type = TLS_EXTENSION_KEY_SHARE \<and> 32 \<le> unat ext_len then do {
          let offset = offset + 2;
          group \<leftarrow> rd16 data offset;
          let offset = offset + 2;
          key_len \<leftarrow> rd16 data offset;
          let offset = offset + 2;
          if key_len = 32 \<and> offset + 32 \<le> len then do {
            k \<leftarrow> rd_bytes data offset 32;
            Some (ctx\<lparr>client_pubkey := k\<rparr>) }
          else Some ctx }
        else ext_loop ctx data len extensions_len (offset + unat ext_len) }
      else Some ctx)"
  by pat_completeness auto
termination
  by (relation "measure (\<lambda>(ctx, data, len, n, offset). len - offset)") auto

declare ext_loop.simps [simp del]

definition axon_parse_client_hello ::
  "axon_context \<Rightarrow> byte list \<Rightarrow> nat \<Rightarrow> (int \<times> axon_context) option" where
  "axon_parse_client_hello ctx data len =
     (if len < 40 then Some (-1, ctx)
      else do {
        let offset = 4;
        r \<leftarrow> rd_bytes data offset 32;
        let ctx = ctx\<lparr>client_random := r\<rparr>;
        let offset = offset + 32;
        session_id_len \<leftarrow> rd data offset;
        let offset = offset + 1;
        if len < offset + unat session_id_len then Some (-1, ctx)
        else do {
          let offset = offset + unat session_id_len;
          cipher_suites_len \<leftarrow> rd16 data offset;
          let offset = offset + 2;
          if len < offset + unat cipher_suites_len then Some (-1, ctx)
          else do {
            found \<leftarrow> suite_loop data offset (unat cipher_suites_len) 0;
            (case found of
               None \<Rightarrow> Some (-1, ctx)
             | Some suite \<Rightarrow> do {
                 let ctx = ctx\<lparr>cipher_suite := suite\<rparr>;
                 let offset = offset + unat cipher_suites_len;
                 compression_len \<leftarrow> rd data offset;
                 let offset = offset + 1;
                 if len < offset + unat compression_len then Some (-1, ctx)
                 else do {
                   let offset = offset + unat compression_len;
                   if len < offset + 2 then Some (-1, ctx)
                   else do {
                     extensions_len \<leftarrow> rd16 data offset;
                     let offset = offset + 2;
                     ctx \<leftarrow> ext_loop ctx data len (unat extensions_len) offset;
                     Some (0, ctx\<lparr>messages_received := messages_received ctx OR 1\<rparr>) } } }) } } })"

section \<open>Building the server's messages\<close>

definition emit :: "byte list \<Rightarrow> byte list \<times> nat \<Rightarrow> (byte list \<times> nat) option" where
  "emit ys = (\<lambda>(out, offset). do { out \<leftarrow> wr_bytes out offset ys; Some (out, offset + length ys) })"

text \<open>The length of the payload, written into the header once it is known.\<close>

definition put_length :: "nat \<Rightarrow> byte list \<Rightarrow> byte list option" where
  "put_length payload_len out = do {
     out \<leftarrow> wr out 1 (of_nat (payload_len div 2 ^ 16));
     out \<leftarrow> wr out 2 (of_nat (payload_len div 2 ^ 8));
     wr out 3 (of_nat payload_len) }"

type_synonym build_result = "(int \<times> axon_context ptr \<times> byte list ptr \<times> nat ptr) option"

text \<open>The end shared by the builders: \<open>*out_len\<close>, the bit of the message, the transcript.\<close>

definition finish_message :: "axon_context \<Rightarrow> byte list \<Rightarrow> nat \<Rightarrow> u32 \<Rightarrow> build_result" where
  "finish_message ctx out out_len flag = do {
     let ctx = ctx\<lparr>messages_received := messages_received ctx OR flag\<rparr>;
     ctxp \<leftarrow> axon_context_update_hash (Some ctx) (Some out) out_len;
     Some (0, ctxp, Some out, Some out_len) }"

text \<open>The part of \<open>axon_build_server_hello\<close> that writes the message.\<close>

definition write_server_hello :: "axon_context \<Rightarrow> byte list \<Rightarrow> (byte list \<times> nat) option" where
  "write_server_hello ctx out = do {
    (out, offset) \<leftarrow> emit [TLS_HANDSHAKE_SERVER_HELLO, 0x00, 0x00, 0x00] (out, 0);
    let payload_start = offset;
    (out, offset) \<leftarrow> emit [TLS_VERSION_MAJOR, TLS_VERSION_MINOR] (out, offset);
    (out, offset) \<leftarrow> emit (server_random ctx) (out, offset);
    (out, offset) \<leftarrow> emit [0x00] (out, offset);
    (out, offset) \<leftarrow> emit [byte_at 8 (cipher_suite ctx), byte_at 0 (cipher_suite ctx)] (out, offset);
    (out, offset) \<leftarrow> emit [0x00] (out, offset);
    (out, offset) \<leftarrow> emit [0x00, 0x00] (out, offset);
    let ext_len_start = offset;
    let offset = offset + 2;
    (out, offset) \<leftarrow> emit [byte_at 8 TLS_EXTENSION_KEY_SHARE, byte_at 0 TLS_EXTENSION_KEY_SHARE,
                          0x00, 0x24, 0x00, 0x1D, 0x00, 0x20] (out, offset);
    (out, offset) \<leftarrow> emit (server_public_key ctx) (out, offset);
    let ext_len = (of_nat (offset - ext_len_start - 2) :: u16);
    out \<leftarrow> wr out ext_len_start (byte_at 8 ext_len);
    out \<leftarrow> wr out (ext_len_start + 1) (byte_at 0 ext_len);
    out \<leftarrow> put_length (offset - payload_start) out;
    Some (out, offset) }"

definition axon_build_server_hello ::
  "urandom \<Rightarrow> axon_context ptr \<Rightarrow> byte list ptr \<Rightarrow> nat ptr \<Rightarrow>
   (int \<times> axon_context ptr \<times> byte list ptr \<times> nat ptr \<times> urandom) option" where
  "axon_build_server_hello dev ctxp outp out_lenp =
     (case (ctxp, outp, out_lenp) of
        (Some ctx, Some out, Some _) \<Rightarrow> do {
          (ret, r, dev) \<leftarrow> generate_random dev (server_random ctx) 32;
          let ctx = ctx\<lparr>server_random := r\<rparr>;
          if ret < 0 then Some (-1, Some ctx, outp, out_lenp, dev)
          else do {
            (_, priv, pub) \<leftarrow> x25519_generate_keypair (Some (server_privkey ctx)) (Some (server_public_key ctx));
            k \<leftarrow> priv; p \<leftarrow> pub;
            let ctx = ctx\<lparr>server_privkey := k, server_public_key := p\<rparr>;
            (_, shared) \<leftarrow> x25519_shared_secret (Some (server_privkey ctx)) (Some (client_pubkey ctx))
                             (Some (shared_secret ctx));
            s \<leftarrow> shared;
            let ctx = ctx\<lparr>shared_secret := s\<rparr>;
            (out, offset) \<leftarrow> write_server_hello ctx out;
            (ret, ctxp, outp, out_lenp) \<leftarrow> finish_message ctx out offset 0x02;
            Some (ret, ctxp, outp, out_lenp, dev) } }
      | _ \<Rightarrow> Some (-1, ctxp, outp, out_lenp, dev))"

definition axon_build_encrypted_extensions ::
  "axon_context ptr \<Rightarrow> byte list ptr \<Rightarrow> nat ptr \<Rightarrow> build_result" where
  "axon_build_encrypted_extensions ctxp outp out_lenp =
     (case (ctxp, outp, out_lenp) of
        (Some ctx, Some out, Some _) \<Rightarrow> do {
          (out, offset) \<leftarrow> emit [TLS_HANDSHAKE_ENCRYPTED_EXTENSIONS, 0x00, 0x00, 0x00] (out, 0);
          let payload_start = offset;
          (out, offset) \<leftarrow> emit [0x00, 0x00] (out, offset);
          out \<leftarrow> put_length (offset - payload_start) out;
          finish_message ctx out offset 0x04 }
      | _ \<Rightarrow> Some (-1, ctxp, outp, out_lenp))"

definition axon_build_certificate ::
  "axon_context ptr \<Rightarrow> byte list ptr \<Rightarrow> nat ptr \<Rightarrow> build_result" where
  "axon_build_certificate ctxp outp out_lenp =
     (case (ctxp, outp, out_lenp) of
        (Some ctx, Some out, Some _) \<Rightarrow> do {
          (out, offset) \<leftarrow> emit [TLS_HANDSHAKE_CERTIFICATE, 0x00, 0x00, 0x00] (out, 0);
          let payload_start = offset;
          (out, offset) \<leftarrow> emit [0x00, 0x00, 0x00] (out, offset);
          (out, offset) \<leftarrow> emit [0x00, 0x00, 0x00, 0x00] (out, offset);
          (out, offset) \<leftarrow> emit [0x00, 0x00] (out, offset);
          out \<leftarrow> put_length (offset - payload_start) out;
          finish_message ctx out offset 0x08 }
      | _ \<Rightarrow> Some (-1, ctxp, outp, out_lenp))"

text \<open>The "signature" is the hash followed by the hash backwards.\<close>

definition compute_signature :: "byte list \<Rightarrow> byte list option" where
  "compute_signature data = do {
     let ctx_hash = sha256_init;
     let ctx_hash = sha256_update ctx_hash (Some data);
     (ctx_hash, digest) \<leftarrow> sha256_final ctx_hash;
     Some (map (\<lambda>i. digest ! i) [0..<32] @ map (\<lambda>i. digest ! (31 - i)) [0..<32]) }"

definition axon_build_certificate_verify ::
  "axon_context ptr \<Rightarrow> byte list ptr \<Rightarrow> nat ptr \<Rightarrow> build_result" where
  "axon_build_certificate_verify ctxp outp out_lenp =
     (case (ctxp, outp, out_lenp) of
        (Some ctx, Some out, Some _) \<Rightarrow> do {
          (out, offset) \<leftarrow> emit [TLS_HANDSHAKE_CERTIFICATE_VERIFY, 0x00, 0x00, 0x00] (out, 0);
          let payload_start = offset;
          (out, offset) \<leftarrow> emit [0x04, 0x03] (out, offset);
          (out, offset) \<leftarrow> emit [0x00, 0x00, 0x00, 0x40] (out, offset);
          signature \<leftarrow> compute_signature (take (buffer_offset ctx) (handshake_buffer ctx));
          (out, offset) \<leftarrow> emit signature (out, offset);
          out \<leftarrow> put_length (offset - payload_start) out;
          finish_message ctx out offset 0x10 }
      | _ \<Rightarrow> Some (-1, ctxp, outp, out_lenp))"

definition compute_finished :: "byte list \<Rightarrow> byte list \<Rightarrow> byte list option" where
  "compute_finished key tr = do {
     let ctx_hash = sha256_init;
     let ctx_hash = sha256_update ctx_hash (Some tr);
     (ctx_hash, hash) \<leftarrow> sha256_final ctx_hash;
     Some (map (\<lambda>i. hash ! i XOR key ! i) [0..<16] @ map (\<lambda>i. hash ! (i + 16) XOR key ! (i + 16)) [0..<16]) }"

definition finished_key :: "axon_context \<Rightarrow> byte list" where
  "finished_key ctx = map (\<lambda>i. master_secret ctx ! i XOR 0x5C) [0..<32]"

definition axon_build_finished ::
  "axon_context ptr \<Rightarrow> byte list ptr \<Rightarrow> nat ptr \<Rightarrow> build_result" where
  "axon_build_finished ctxp outp out_lenp =
     (case (ctxp, outp, out_lenp) of
        (Some ctx, Some out, Some _) \<Rightarrow> do {
          (out, offset) \<leftarrow> emit [TLS_HANDSHAKE_FINISHED, 0x00, 0x00, 0x00] (out, 0);
          let payload_start = offset;
          fin \<leftarrow> compute_finished (finished_key ctx) (take (buffer_offset ctx) (handshake_buffer ctx));
          (out, offset) \<leftarrow> emit fin (out, offset);
          out \<leftarrow> put_length (offset - payload_start) out;
          finish_message (ctx\<lparr>handshake_done := 1\<rparr>) out offset 0x20 }
      | _ \<Rightarrow> Some (-1, ctxp, outp, out_lenp))"

definition axon_verify_finished ::
  "axon_context ptr \<Rightarrow> byte list ptr \<Rightarrow> nat \<Rightarrow> (int \<times> axon_context ptr) option" where
  "axon_verify_finished ctxp datap len =
     (case (ctxp, datap) of
        (Some ctx, Some data) \<Rightarrow>
          if len < 32 then Some (-1, ctxp)
          else do {
            computed \<leftarrow> compute_finished (finished_key ctx) (take (buffer_offset ctx) (handshake_buffer ctx));
            d \<leftarrow> rd_bytes data 0 32;
            if d \<noteq> computed then Some (-1, ctxp)
            else Some (0, Some (ctx\<lparr>handshake_done := 1\<rparr>)) }
      | _ \<Rightarrow> Some (-1, ctxp))"

section \<open>Key derivation\<close>

definition hello_salt :: "axon_context \<Rightarrow> byte list" where
  "hello_salt ctx = map (\<lambda>i. client_random ctx ! i XOR server_random ctx ! i) [0..<32]"

definition keys_info :: "byte list" where
  "keys_info = [0x54, 0x4C, 0x53, 0x20, 0x31, 0x2E, 0x33, 0x20, 0x6B, 0x65, 0x79, 0x73, 0x00]"

definition axon_derive_handshake_keys :: "axon_context ptr \<Rightarrow> axon_context ptr option" where
  "axon_derive_handshake_keys ctxp =
     (case ctxp of
        None \<Rightarrow> Some NULL
      | Some ctx \<Rightarrow> do {
          (_, prk) \<leftarrow> hkdf_extract (Some (hello_salt ctx)) (Some (shared_secret ctx)) (Some (replicate 32 0));
          (_, key_material) \<leftarrow> hkdf_expand prk (Some keys_info) (Some (replicate 96 0)) 96;
          km \<leftarrow> key_material;
          Some (Some (ctx\<lparr>master_secret := take 48 km\<rparr>)) })"

section \<open>The messages\<close>

lemma emit_prefix:
  assumes "length ms + length ys \<le> length xs"
  shows "emit ys (ms @ drop (length ms) xs, length ms) =
    Some ((ms @ ys) @ drop (length (ms @ ys)) xs, length (ms @ ys))"
  unfolding emit_def using wr_bytes_prefix [OF assms] by simp

lemma emit_at:
  assumes "length ms = k" "length ys = n" "k + n \<le> length xs" "j = k + n"
  shows "emit ys (ms @ drop k xs, k) = Some ((ms @ ys) @ drop j xs, j)"
  using emit_prefix [of ms ys xs] assms by simp

lemma emit_start:
  assumes "length ys = n" "n \<le> length xs"
  shows "emit ys (xs, 0) = Some (ys @ drop n xs, n)"
  using emit_prefix [of "[]" ys xs] assms by simp

text \<open>\<open>message t body\<close>: the type, the three length bytes, the body.\<close>

definition message :: "byte \<Rightarrow> byte list \<Rightarrow> byte list" where
  "message t body = [t, of_nat (length body div 2 ^ 16), of_nat (length body div 2 ^ 8), of_nat (length body)] @ body"

lemma length_message [simp, length_simps]: "length (message t body) = length body + 4"
  by (simp add: message_def)

lemma put_length_message:
  "length body = n \<Longrightarrow> put_length n ([t, a, b, c] @ body @ rest) = Some (message t body @ rest)"
  by (auto simp: put_length_def wr_def message_def)

lemma finish_message_eq:
  assumes "context_ok ctx" "length m = k" "k < 2 ^ 63"
  shows "finish_message ctx (m @ rest) k flag =
    Some (0, Some (log_add (ctx\<lparr>messages_received := messages_received ctx OR flag\<rparr>) m), Some (m @ rest), Some k)"
proof -
  have "context_ok (ctx\<lparr>messages_received := messages_received ctx OR flag\<rparr>)"
    using assms(1) by (simp add: context_ok_def)
  with assms(2,3) show ?thesis
    by (auto simp: finish_message_def update_hash_eq)
qed

text \<open>The context after a message has been built.\<close>

definition sent :: "axon_context \<Rightarrow> u32 \<Rightarrow> byte list \<Rightarrow> axon_context" where
  "sent ctx flag m = log_add (ctx\<lparr>messages_received := messages_received ctx OR flag\<rparr>) m"

lemma sent_ok: "context_ok ctx \<Longrightarrow> context_ok (sent ctx flag m)"
  unfolding sent_def by (rule tlog.ok_add) (simp add: context_ok_def)

lemma sent_transcript:
  "context_ok ctx \<Longrightarrow> length (transcript ctx) + length m \<le> 8192 \<Longrightarrow> transcript (sent ctx flag m) = transcript ctx @ m"
proof -
  assume a: "context_ok ctx" "length (transcript ctx) + length m \<le> 8192"
  have "transcript (ctx\<lparr>messages_received := r\<rparr>) = transcript ctx" for r by (simp add: transcript_def)
  moreover have "context_ok (ctx\<lparr>messages_received := r\<rparr>)" for r using a(1) by (simp add: context_ok_def)
  ultimately show ?thesis using a unfolding sent_def by (simp add: tlog.add_fits)
qed

lemma encrypted_extensions_eq:
  assumes "context_ok ctx" "6 \<le> length out"
  shows "axon_build_encrypted_extensions (Some ctx) (Some out) (Some n) =
    (let m = message TLS_HANDSHAKE_ENCRYPTED_EXTENSIONS [0, 0]
     in Some (0, Some (sent ctx 0x04 m), Some (m @ drop 6 out), Some 6))"
proof -
  let ?t = TLS_HANDSHAKE_ENCRYPTED_EXTENSIONS
  have "emit [?t, 0, 0, 0] (out, 0) = Some ([?t, 0, 0, 0] @ drop 4 out, 4)"
    by (rule emit_start) (use assms(2) in simp_all)
  moreover have "emit [0, 0] ([?t, 0, 0, 0] @ drop 4 out, 4) = Some (([?t, 0, 0, 0] @ [0, 0]) @ drop 6 out, 6)"
    by (rule emit_at) (use assms(2) in simp_all)
  moreover have "put_length 2 ([?t, 0, 0, 0] @ [0, 0] @ drop 6 out) = Some (message ?t [0, 0] @ drop 6 out)"
    by (rule put_length_message) simp
  moreover note finish_message_eq [OF assms(1), of "message ?t [0, 0]" 6 "drop 6 out" "0x04"]
  ultimately show ?thesis by (simp add: axon_build_encrypted_extensions_def Let_def sent_def)
qed

lemma certificate_eq:
  assumes "context_ok ctx" "13 \<le> length out"
  shows "axon_build_certificate (Some ctx) (Some out) (Some n) =
    (let m = message TLS_HANDSHAKE_CERTIFICATE [0, 0, 0, 0, 0, 0, 0, 0, 0]
     in Some (0, Some (sent ctx 0x08 m), Some (m @ drop 13 out), Some 13))"
proof -
  let ?t = TLS_HANDSHAKE_CERTIFICATE
  let ?a = "[?t, 0, 0, 0]" and ?b = "[0, 0, 0]" and ?c = "[0, 0, 0, 0]" and ?d = "[0, 0] :: byte list"
  have "emit ?a (out, 0) = Some (?a @ drop 4 out, 4)"
    by (rule emit_start) (use assms(2) in simp_all)
  moreover have "emit ?b (?a @ drop 4 out, 4) = Some ((?a @ ?b) @ drop 7 out, 7)"
    by (rule emit_at) (use assms(2) in simp_all)
  moreover have "emit ?c ((?a @ ?b) @ drop 7 out, 7) = Some (((?a @ ?b) @ ?c) @ drop 11 out, 11)"
    by (rule emit_at) (use assms(2) in simp_all)
  moreover have "emit ?d (((?a @ ?b) @ ?c) @ drop 11 out, 11) = Some ((((?a @ ?b) @ ?c) @ ?d) @ drop 13 out, 13)"
    by (rule emit_at) (use assms(2) in simp_all)
  moreover have "put_length 9 (?a @ (?b @ ?c @ ?d) @ drop 13 out) = Some (message ?t (?b @ ?c @ ?d) @ drop 13 out)"
    by (rule put_length_message) simp
  moreover note finish_message_eq [OF assms(1), of "message ?t (?b @ ?c @ ?d)" 13 "drop 13 out" "0x08"]
  ultimately show ?thesis by (simp add: axon_build_certificate_def Let_def sent_def)
qed

section \<open>Signature and Finished\<close>

definition signature_of :: "byte list \<Rightarrow> byte list" where
  "signature_of tr = fips_sha256 tr @ rev (fips_sha256 tr)"

lemma hash_eq: "map_option snd (sha256_final (sha256_update sha256_init (Some m))) =
    (if sha_fits (length m) then Some (fips_sha256 m) else None)"
  by (simp add: final_update_init sha256_eq)

lemma compute_signature_eq:
  "compute_signature m = (if sha_fits (length m) then Some (signature_of m) else None)"
proof -
  let ?d = "fips_sha256 m"
  have "map (\<lambda>i. ?d ! i) [0..<32] = ?d" using map_nth [of ?d] by (simp del: upt_rec_numeral)
  moreover have "map (\<lambda>i. ?d ! (31 - i)) [0..<32] = rev ?d"
    by (rule nth_equalityI) (simp_all add: rev_nth del: upt_rec_numeral)
  ultimately show ?thesis
    using hash_eq [of m] by (cases "sha256_final (sha256_update sha256_init (Some m))")
      (auto simp: compute_signature_def signature_of_def simp del: upt_rec_numeral split: if_splits)
qed

definition finished_of :: "axon_context \<Rightarrow> byte list \<Rightarrow> byte list" where
  "finished_of ctx tr = xor_bytes (fips_sha256 tr) (map (\<lambda>b. b XOR 0x5C) (take 32 (master_secret ctx)))"

lemma length_finished_of [simp]: "context_ok ctx \<Longrightarrow> length (finished_of ctx m) = 32"
  by (simp add: finished_of_def context_ok_def)

lemma compute_finished_eq:
  assumes "context_ok ctx"
  shows "compute_finished (finished_key ctx) m = (if sha_fits (length m) then Some (finished_of ctx m) else None)"
proof -
  let ?d = "fips_sha256 m" and ?k = "finished_key ctx"
  have "map (\<lambda>i. ?d ! i XOR ?k ! i) [0..<16] @ map (\<lambda>i. ?d ! (i + 16) XOR ?k ! (i + 16)) [0..<16] =
      finished_of ctx m"
    by (rule nth_equalityI)
       (use assms in \<open>auto simp: finished_of_def finished_key_def nth_append context_ok_def simp del: upt_rec_numeral\<close>)
  then show ?thesis
    using hash_eq [of m] by (cases "sha256_final (sha256_update sha256_init (Some m))")
      (auto simp: compute_finished_def simp del: upt_rec_numeral split: if_splits)
qed

lemma certificate_verify_eq:
  assumes "context_ok ctx" "74 \<le> length out"
  shows "axon_build_certificate_verify (Some ctx) (Some out) (Some n) =
    (if sha_fits (length (transcript ctx)) then
       let m = message TLS_HANDSHAKE_CERTIFICATE_VERIFY ([4, 3, 0, 0, 0, 0x40] @ signature_of (transcript ctx))
       in Some (0, Some (sent ctx 0x10 m), Some (m @ drop 74 out), Some 74)
     else None)"
proof -
  let ?t = TLS_HANDSHAKE_CERTIFICATE_VERIFY
  let ?a = "[?t, 0, 0, 0]" and ?b = "[4, 3]" and ?c = "[0, 0, 0, 0x40] :: byte list" and ?s = "signature_of (transcript ctx)"
  have len: "length ?s = 64" by (simp add: signature_of_def)
  have "emit ?a (out, 0) = Some (?a @ drop 4 out, 4)"
    by (rule emit_start) (use assms(2) in simp_all)
  moreover have "emit ?b (?a @ drop 4 out, 4) = Some ((?a @ ?b) @ drop 6 out, 6)"
    by (rule emit_at) (use assms(2) in simp_all)
  moreover have "emit ?c ((?a @ ?b) @ drop 6 out, 6) = Some (((?a @ ?b) @ ?c) @ drop 10 out, 10)"
    by (rule emit_at) (use assms(2) in simp_all)
  moreover have "emit ?s (((?a @ ?b) @ ?c) @ drop 10 out, 10) = Some ((((?a @ ?b) @ ?c) @ ?s) @ drop 74 out, 74)"
    by (rule emit_at) (use assms(2) len in simp_all)
  moreover have "put_length 70 (?a @ (?b @ ?c @ ?s) @ drop 74 out) = Some (message ?t (?b @ ?c @ ?s) @ drop 74 out)"
    by (rule put_length_message) (simp add: len)
  moreover note finish_message_eq [OF assms(1), of "message ?t (?b @ ?c @ ?s)" 74 "drop 74 out" "0x10"]
  ultimately show ?thesis
    using len compute_signature_eq [of "transcript ctx"]
    by (simp add: axon_build_certificate_verify_def transcript_def [symmetric] Let_def sent_def)
qed

lemma finished_eq:
  assumes "context_ok ctx" "36 \<le> length out"
  shows "axon_build_finished (Some ctx) (Some out) (Some n) =
    (if sha_fits (length (transcript ctx)) then
       let m = message TLS_HANDSHAKE_FINISHED (finished_of ctx (transcript ctx))
       in Some (0, Some (sent (ctx\<lparr>handshake_done := 1\<rparr>) 0x20 m), Some (m @ drop 36 out), Some 36)
     else None)"
proof -
  let ?t = TLS_HANDSHAKE_FINISHED
  let ?a = "[?t, 0, 0, 0]" and ?s = "finished_of ctx (transcript ctx)"
  have len: "length ?s = 32" using assms(1) by simp
  have ok: "context_ok (ctx\<lparr>handshake_done := 1\<rparr>)" using assms(1) by (simp add: context_ok_def)
  have "emit ?a (out, 0) = Some (?a @ drop 4 out, 4)"
    by (rule emit_start) (use assms(2) in simp_all)
  moreover have "emit ?s (?a @ drop 4 out, 4) = Some ((?a @ ?s) @ drop 36 out, 36)"
    by (rule emit_at) (use assms(2) len in simp_all)
  moreover have "put_length 32 (?a @ ?s @ drop 36 out) = Some (message ?t ?s @ drop 36 out)"
    by (rule put_length_message) (simp add: len)
  moreover note finish_message_eq [OF ok, of "message ?t ?s" 36 "drop 36 out" "0x20"]
  ultimately show ?thesis
    using len compute_finished_eq [OF assms(1), of "transcript ctx"]
    by (simp add: axon_build_finished_def transcript_def [symmetric] Let_def sent_def)
qed

section \<open>Random bytes and the ServerHello\<close>

lemma read_loop_total:
  "tot \<le> len \<Longrightarrow> len \<le> length buf \<Longrightarrow>
    \<exists>ret buf' cs'. read_loop cs buf tot len = Some (ret, buf', cs') \<and> length buf' = length buf \<and> ret \<in> {0, -1}"
proof (induction cs buf tot len rule: read_loop.induct)
  case (1 buf tot len)
  then show ?case by simp
next
  case (2 c cs buf tot len)
  let ?n = "min (len - tot) (length c)"
  show ?case
  proof (cases "tot < len \<and> ?n \<noteq> 0")
    case True
    have "tot + length (take ?n c) \<le> length buf" "length (take ?n c) = ?n" using True "2.prems" by auto
    then have w: "wr_bytes buf tot (take ?n c) = Some (take tot buf @ take ?n c @ drop (tot + ?n) buf)"
      by (metis wr_bytes_in)
    have "\<exists>ret buf' cs'. read_loop cs (take tot buf @ take ?n c @ drop (tot + ?n) buf) (tot + ?n) len = Some (ret, buf', cs') \<and>
        length buf' = length (take tot buf @ take ?n c @ drop (tot + ?n) buf) \<and> ret \<in> {0, -1}"
      by (rule "2.IH" [OF _ refl _ w]) (use True "2.prems" in auto)
    moreover have "length (take tot buf @ take ?n c @ drop (tot + ?n) buf) = length buf"
      using w by (rule wr_bytes_length)
    ultimately show ?thesis using True w by (simp add: Let_def)
  next
    case False
    then show ?thesis by (auto simp: Let_def)
  qed
qed

lemma generate_random_total:
  "len \<le> length buf \<Longrightarrow> \<exists>ret buf' dev'. generate_random dev buf len = Some (ret, buf', dev') \<and>
     length buf' = length buf \<and> ret \<in> {0, -1}"
  using read_loop_total [of 0 len buf "chunks dev"] by (auto simp: generate_random_def)

text \<open>With one chunk of the right size, the buffer is that chunk.\<close>

lemma generate_random_chunk:
  "length buf = len \<Longrightarrow> length r = len \<Longrightarrow> 0 < len \<Longrightarrow> can_open dev \<Longrightarrow> chunks dev = r # cs \<Longrightarrow>
    generate_random dev buf len = Some (0, r, dev\<lparr>chunks := cs\<rparr>)"
  by (cases cs) (simp_all add: generate_random_def wr_bytes_def)

definition server_hello_body :: "byte list \<Rightarrow> u16 \<Rightarrow> byte list \<Rightarrow> byte list" where
  "server_hello_body r suite pub =
     [3, 4] @ r @ [0] @ [byte_at 8 suite, byte_at 0 suite] @ [0] @ [0, 0] @ [0, 40] @
     [0, 0x22, 0, 0x24, 0, 0x1D, 0, 0x20] @ pub"

lemma length_server_hello_body:
  "length r = 32 \<Longrightarrow> length pub = 32 \<Longrightarrow> length (server_hello_body r suite pub) = 82"
  by (simp add: server_hello_body_def)

definition hello_context :: "axon_context \<Rightarrow> byte list \<Rightarrow> axon_context" where
  "hello_context ctx r =
     (let k = clamp (server_privkey ctx)
      in ctx\<lparr>server_random := r, server_privkey := k, server_public_key := x25519_ladder k BASE_POINT,
             shared_secret := x25519_ladder k (client_pubkey ctx)\<rparr>)"

lemma hello_context_ok: "context_ok ctx \<Longrightarrow> length r = 32 \<Longrightarrow> context_ok (hello_context ctx r)"
  by (simp add: hello_context_def context_ok_def Let_def)

lemma emit_after_gap:
  assumes "length ms = k" "k + 2 + length ys \<le> length xs"
  shows "emit ys (ms @ drop k xs, k + 2) =
    Some ((ms @ [xs ! k, xs ! (k + 1)] @ ys) @ drop (k + 2 + length ys) xs, k + 2 + length ys)"
proof -
  have "drop k xs = xs ! k # xs ! (k + 1) # drop (k + 2) xs"
    using assms by (simp add: Cons_nth_drop_Suc)
  then have "ms @ drop k xs = (ms @ [xs ! k, xs ! (k + 1)]) @ drop (k + 2) xs" by simp
  moreover have "emit ys ((ms @ [xs ! k, xs ! (k + 1)]) @ drop (k + 2) xs, k + 2) =
      Some (((ms @ [xs ! k, xs ! (k + 1)]) @ ys) @ drop (k + 2 + length ys) xs, k + 2 + length ys)"
    by (rule emit_at) (use assms in simp_all)
  ultimately show ?thesis by simp
qed

text \<open>The body is written piece by piece; the length of the extensions is filled in behind the gap that was left for it.\<close>

lemma write_server_hello_eq:
  assumes "length (server_random c) = 32" "length (server_public_key c) = 32" "86 \<le> length out"
  shows "write_server_hello c out =
    Some (message TLS_HANDSHAKE_SERVER_HELLO (server_hello_body (server_random c) (cipher_suite c) (server_public_key c)) @ drop 86 out, 86)"
proof -
  let ?t = TLS_HANDSHAKE_SERVER_HELLO and ?r = "server_random c" and ?pub = "server_public_key c" and ?cs = "cipher_suite c"
  let ?a = "[?t, 0, 0, 0]" and ?v = "[3, 4] :: byte list" and ?c = "[byte_at 8 ?cs, byte_at 0 ?cs]"
  let ?e = "[0, 0x22, 0, 0x24, 0, 0x1D, 0, 0x20] :: byte list" and ?z = "[0 :: byte]" and ?zz = "[0, 0 :: byte]"
  let ?m1 = "?a @ ?v" let ?m2 = "?m1 @ ?r" let ?m3 = "?m2 @ ?z" let ?m4 = "?m3 @ ?c" let ?m5 = "?m4 @ ?z" let ?m6 = "?m5 @ ?zz"
  let ?g = "[out ! 44, out ! 45]"
  have e1: "emit ?a (out, 0) = Some (?a @ drop 4 out, 4)"
    by (rule emit_start) (use assms(3) in simp_all)
  have e2: "emit ?v (?a @ drop 4 out, 4) = Some (?m1 @ drop 6 out, 6)"
    by (rule emit_at) (use assms(3) in simp_all)
  have e3: "emit ?r (?m1 @ drop 6 out, 6) = Some (?m2 @ drop 38 out, 38)"
    by (rule emit_at) (use assms(1,3) in simp_all)
  have e4: "emit ?z (?m2 @ drop 38 out, 38) = Some (?m3 @ drop 39 out, 39)"
    by (rule emit_at) (use assms(1,3) in simp_all)
  have e5: "emit ?c (?m3 @ drop 39 out, 39) = Some (?m4 @ drop 41 out, 41)"
    by (rule emit_at) (use assms(1,3) in simp_all)
  have e6: "emit ?z (?m4 @ drop 41 out, 41) = Some (?m5 @ drop 42 out, 42)"
    by (rule emit_at) (use assms(1,3) in simp_all)
  have e7: "emit ?zz (?m5 @ drop 42 out, 42) = Some (?m6 @ drop 44 out, 44)"
    by (rule emit_at) (use assms(1,3) in simp_all)
  have e8: "emit ?e (?m6 @ drop 44 out, 46) = Some ((?m6 @ ?g @ ?e) @ drop 54 out, 54)"
    using emit_after_gap [of ?m6 44 ?e out] assms(1,3) by simp
  have e9: "emit ?pub ((?m6 @ ?g @ ?e) @ drop 54 out, 54) = Some (((?m6 @ ?g @ ?e) @ ?pub) @ drop 86 out, 86)"
    by (rule emit_at) (use assms in simp_all)
  have k: "byte_at 8 TLS_EXTENSION_KEY_SHARE = 0" "byte_at 0 TLS_EXTENSION_KEY_SHARE = 0x22"
    "byte_at 8 (40 :: u16) = 0" "byte_at 0 (40 :: u16) = 40"
    by (simp_all add: byte_at_def TLS_EXTENSION_KEY_SHARE_def)
  have w: "do { out \<leftarrow> wr (((?m6 @ ?g @ ?e) @ ?pub) @ drop 86 out) 44 0; wr out 45 40 } =
      Some ((?m6 @ [0, 40] @ ?e @ ?pub) @ drop 86 out)"
    using assms(1,3) by (simp add: wr_def list_update_append)
  have p: "put_length 82 (?a @ server_hello_body ?r ?cs ?pub @ drop 86 out) = Some (message ?t (server_hello_body ?r ?cs ?pub) @ drop 86 out)"
    by (rule put_length_message) (simp add: length_server_hello_body assms(1,2))
  have b: "(?m6 @ [0, 40] @ ?e @ ?pub) @ drop 86 out = ?a @ server_hello_body ?r ?cs ?pub @ drop 86 out"
    by (simp add: server_hello_body_def)
  have v: "[TLS_VERSION_MAJOR, TLS_VERSION_MINOR] = ?v"
    by (simp add: TLS_VERSION_MAJOR_def TLS_VERSION_MINOR_def)
  have n: "(86 - 44 - 2 :: nat) = 40" "(86 - 4 :: nat) = 82" "(44 + 2 :: nat) = 46" "(44 + 1 :: nat) = 45" "(of_nat 40 :: u16) = 40"
    by simp_all
  show ?thesis
    using w unfolding write_server_hello_def Let_def
    by (simp only: e1 e2 e3 e4 e5 e6 e7 e8 e9 v n k Option.bind.simps prod.case split_conv)
       (auto simp only: b p Option.bind.simps split: Option.bind_splits)
qed

lemma server_hello_eq:
  assumes "context_ok ctx" "86 \<le> length out" "length r = 32"
    and rnd: "generate_random dev (server_random ctx) 32 = Some (0, r, dev')"
  defines "ctx' \<equiv> hello_context ctx r"
  defines "m \<equiv> message TLS_HANDSHAKE_SERVER_HELLO (server_hello_body r (cipher_suite ctx) (server_public_key ctx'))"
  shows "axon_build_server_hello dev (Some ctx) (Some out) (Some n) =
    Some (0, Some (sent ctx' 0x02 m), Some (m @ drop 86 out), Some 86, dev')"
proof -
  have len: "length (server_public_key ctx') = 32" by (simp add: ctx'_def hello_context_def Let_def)
  have ok: "context_ok ctx'" unfolding ctx'_def by (rule hello_context_ok [OF assms(1,3)])
  have c: "server_random ctx' = r" "cipher_suite ctx' = cipher_suite ctx"
    by (simp_all add: ctx'_def hello_context_def Let_def)
  have "write_server_hello ctx' out = Some (m @ drop 86 out, 86)"
    using write_server_hello_eq [of ctx' out] assms(2,3) len by (simp add: c m_def)
  moreover have "length m = 86" by (simp add: m_def length_server_hello_body assms(3) len)
  moreover note finish_message_eq [OF ok this, of "drop 86 out" "0x02"]
  ultimately show ?thesis
    using rnd assms(1,3)
    by (simp add: axon_build_server_hello_def generate_keypair_eq shared_secret_eq context_ok_def Let_def sent_def
        ctx'_def hello_context_def)
qed

section \<open>The keys\<close>

lemma length_hello_salt [simp]: "length (hello_salt ctx) = 32"
  by (simp add: hello_salt_def)

definition handshake_prk :: "axon_context \<Rightarrow> byte list" where
  "handshake_prk ctx = fips_sha256 (hello_salt ctx @ shared_secret ctx)"

lemma extract_prk:
  assumes "context_ok ctx"
  shows "hkdf_extract (Some (hello_salt ctx)) (Some (shared_secret ctx)) (Some (replicate 32 0)) =
    Some (0, Some (handshake_prk ctx))"
proof -
  have "hello_salt ctx \<noteq> []" using length_hello_salt [of ctx] by fastforce
  moreover have "length (hello_salt ctx @ shared_secret ctx) = 64" using assms by (simp add: context_ok_def)
  ultimately show ?thesis by (simp add: extract_eq sha256_eq sha_fits_def handshake_prk_def)
qed

lemma expand_keys:
  assumes "chain_fits sha_fits (length info)"
  shows "\<exists>km. okm_stream sha256_of (handshake_prk ctx) info 3 = Some km \<and> length km = 96 \<and>
    hkdf_expand (Some (handshake_prk ctx)) (Some info) (Some (replicate 96 0)) 96 = Some (0, Some km)"
proof -
  have l: "length (handshake_prk ctx) = 32" by (simp add: handshake_prk_def)
  obtain km where km: "okm_stream sha256_of (handshake_prk ctx) info 3 = Some km" "length km = 32 * 3"
    using sha.okm_stream_defined [OF l assms] by blast
  then show ?thesis
    using hkdf_expand_chain [OF l, of "Some info" 96 "replicate 96 0"] assms by auto
qed

lemma derive_keys_eq:
  assumes "context_ok ctx"
  shows "\<exists>km. okm_stream sha256_of (handshake_prk ctx) keys_info 3 = Some km \<and> length km = 96 \<and>
    axon_derive_handshake_keys (Some ctx) = Some (Some (ctx\<lparr>master_secret := take 48 km\<rparr>))"
proof -
  have "chain_fits sha_fits (length keys_info)" by (simp add: keys_info_def chain_fits_def sha_fits_def)
  from expand_keys [OF this, of ctx] extract_prk [OF assms] show ?thesis
    by (auto simp: axon_derive_handshake_keys_def)
qed

section \<open>Parsing an encoded ClientHello\<close>

definition suite_bytes :: "u16 \<Rightarrow> byte list" where
  "suite_bytes s = [byte_at 8 s, byte_at 0 s]"

definition len16 :: "nat \<Rightarrow> byte list" where
  "len16 n = [of_nat (n div 256), of_nat n]"

text \<open>The layout that \<open>axon_parse_client_hello\<close> expects; \<open>hdr\<close> are the four bytes it skips.\<close>

definition client_hello_bytes ::
  "byte list \<Rightarrow> byte list \<Rightarrow> byte list \<Rightarrow> u16 list \<Rightarrow> byte list \<Rightarrow> byte list \<Rightarrow> byte list" where
  "client_hello_bytes hdr rnd sid suites comps exts =
     hdr @ rnd @ [of_nat (length sid)] @ sid @ len16 (2 * length suites) @ concat (map suite_bytes suites) @
     [of_nat (length comps)] @ comps @ len16 (length exts) @ exts"

definition key_share_ext :: "byte list \<Rightarrow> byte list \<Rightarrow> byte list" where
  "key_share_ext grp key = [0, 0x22, 0, 38] @ grp @ [0, 32] @ key"

lemma rd_at: "length pre = i \<Longrightarrow> rd (pre @ x # post) i = Some x"
  by (auto simp: rd_def)

lemma rd16_at: "length pre = i \<Longrightarrow> rd16 (pre @ a # b # post) i = Some (be16 a b)"
  using rd_at [of pre i a "b # post"] rd_at [of "pre @ [a]" "i + 1" b post] by (simp add: rd16_def)

lemma rd_bytes_at: "length pre = i \<Longrightarrow> length m = n \<Longrightarrow> rd_bytes (pre @ m @ post) i n = Some m"
  by (auto simp: rd_bytes_def)

lemma rd_len16: "length pre = i \<Longrightarrow> n < 65536 \<Longrightarrow> \<exists>w. rd16 (pre @ len16 n @ post) i = Some w \<and> unat w = n"
  using unat_be16_of_nat by (simp add: len16_def rd16_at)

lemma suite_loop_find:
  "data = pre @ concat (map suite_bytes ss) @ post \<Longrightarrow> length pre = offset + i \<Longrightarrow> n = i + 2 * length ss \<Longrightarrow>
    suite_loop data offset n i = Some (find supported_suite ss)"
proof (induction ss arbitrary: pre i)
  case Nil
  then show ?case by (simp add: suite_loop.simps)
next
  case (Cons s ss)
  have "data = pre @ byte_at 8 s # byte_at 0 s # concat (map suite_bytes ss) @ post"
    using Cons.prems(1) by (simp add: suite_bytes_def [of s])
  then have "rd16 data (offset + i) = Some s"
    using rd16_at [OF Cons.prems(2)] by (simp only: be16_bytes)
  moreover have "suite_loop data offset n (i + 2) = Some (find supported_suite ss)"
    by (rule Cons.IH [of "pre @ suite_bytes s"]) (use Cons.prems in \<open>simp_all add: suite_bytes_def [of s]\<close>)
  ultimately show ?case
    using Cons.prems(3) by (subst suite_loop.simps) simp
qed

lemma ext_loop_skip: "\<not> size_sub offset 4 < n \<Longrightarrow> ext_loop ctx data len n offset = Some ctx"
  by (subst ext_loop.simps) simp

lemma ext_loop_share:
  assumes "data = pre @ key_share_ext [a, b, c, d] key @ rest" "length pre = offset" "length key = 32"
    "4 \<le> offset" "length data < 2 ^ 63"
  shows "ext_loop ctx data (length data) n offset =
    Some (if offset - 4 < n then ctx\<lparr>client_pubkey := key\<rparr> else ctx)"
proof -
  have d: "data = pre @ [0, 0x22, 0, 38, a, b, c, d, 0, 32] @ key @ rest"
    using assms(1) by (simp add: key_share_ext_def)
  have r: "rd16 data offset = Some 0x22" "rd16 data (offset + 2) = Some 38"
    "rd16 data (offset + 4 + 2) = Some (be16 c d)" "rd16 data (offset + 4 + 2 + 2) = Some 32"
    "rd_bytes data (offset + 4 + 2 + 2 + 2) 32 = Some key"
    using rd16_at [OF assms(2), of 0 "0x22" "[0, 38, a, b, c, d, 0, 32] @ key @ rest"]
      rd16_at [of "pre @ [0, 0x22]" "offset + 2" 0 38 "[a, b, c, d, 0, 32] @ key @ rest"]
      rd16_at [of "pre @ [0, 0x22, 0, 38, a, b]" "offset + 4 + 2" c d "[0, 32] @ key @ rest"]
      rd16_at [of "pre @ [0, 0x22, 0, 38, a, b, c, d]" "offset + 4 + 2 + 2" 0 32 "key @ rest"]
      rd_bytes_at [of "pre @ [0, 0x22, 0, 38, a, b, c, d, 0, 32]" "offset + 4 + 2 + 2 + 2" key 32 rest] assms(2,3)
    by (simp_all add: d be16_def)
  have len: "length data = offset + 42 + length rest" using assms(2,3) d by simp
  have "offset < 2 ^ 63" using len assms(5) by linarith
  then have "offset < 2 ^ 64" by simp
  then have "size_sub offset 4 = offset - 4" using assms(4) by simp
  with r len show ?thesis
    by (subst ext_loop.simps) (simp add: TLS_EXTENSION_KEY_SHARE_def Let_def)
qed

text \<open>A hello in the expected layout, parsed.\<close>

lemma parse_layout_eq:
  assumes "length hdr = 4" "length rnd = 32" "length sid < 256" "2 * length suites < 65536" "length comps < 256"
    and exts: "exts = key_share_ext [a, b, c, d] key @ rest" "length key = 32" "length exts < 65536"
  defines "msg \<equiv> client_hello_bytes hdr rnd sid suites comps exts"
  shows "axon_parse_client_hello ctx msg (length msg) =
    (case find supported_suite suites of
       None \<Rightarrow> Some (-1, ctx\<lparr>client_random := rnd\<rparr>)
     | Some s \<Rightarrow> Some (0, ctx\<lparr>client_random := rnd, cipher_suite := s,
         client_pubkey := (if 38 + length sid + 2 * length suites + length comps < length exts
                           then key else client_pubkey ctx),
         messages_received := messages_received ctx OR 1\<rparr>))"
proof -
  let ?s = "concat (map suite_bytes suites)"
  have ls: "length ?s = 2 * length suites" by (induction suites) (simp_all add: suite_bytes_def)
  have l16 [simp]: "length (len16 n) = 2" for n by (simp add: len16_def)
  let ?p1 = "hdr @ rnd" let ?p2 = "?p1 @ [of_nat (length sid)] @ sid" let ?p3 = "?p2 @ len16 (2 * length suites)"
  let ?p4 = "?p3 @ ?s" let ?p5 = "?p4 @ [of_nat (length comps)] @ comps" let ?p6 = "?p5 @ len16 (length exts)"
  have m: "msg = ?p6 @ exts" by (simp add: msg_def client_hello_bytes_def)
  define o3 where "o3 = 39 + length sid"
  define o5 where "o5 = 40 + length sid + 2 * length suites + length comps"
  have p: "length ?p1 = 36" "length ?p2 = 37 + length sid" "length ?p3 = o3" "length ?p4 = o3 + 2 * length suites"
    "length ?p5 = o5" "length ?p6 = o5 + 2"
    using assms(1,2) ls by (simp_all add: o3_def o5_def)
  have r1: "rd_bytes msg 4 32 = Some rnd"
    using rd_bytes_at [of hdr 4 rnd 32] assms(1,2) by (simp add: m)
  have r2: "rd msg 36 = Some (of_nat (length sid))"
    using rd_at [of ?p1 36] p by (simp add: m)
  obtain w3 where r3: "rd16 msg (37 + length sid) = Some w3" "unat w3 = 2 * length suites"
    using rd_len16 [OF p(2) assms(4)] by (auto simp: m)
  have r4: "suite_loop msg o3 (2 * length suites) 0 = Some (find supported_suite suites)"
    by (rule suite_loop_find [of _ ?p3 _ "[of_nat (length comps)] @ comps @ len16 (length exts) @ exts"])
       (use p in \<open>simp_all add: m\<close>)
  have r5: "rd msg (o3 + 2 * length suites) = Some (of_nat (length comps))"
    using rd_at [OF p(4)] by (simp add: m)
  obtain w6 where r6: "rd16 msg o5 = Some w6" "unat w6 = length exts"
    using rd_len16 [OF p(5) exts(3)] by (auto simp: m)
  have bytes: "unat (of_nat (length sid) :: byte) = length sid" "unat (of_nat (length comps) :: byte) = length comps"
    using assms(3,5) by (simp_all add: unat_of_nat take_bit_eq_mod)
  have le: "length exts = 42 + length rest" by (simp add: exts(1,2) key_share_ext_def)
  have len: "length msg = o5 + 2 + length exts" using p(6) by (simp add: m)
  then have small: "length msg < 2 ^ 63" using assms(3-5) exts(3) by (simp add: o5_def)
  have loop: "ext_loop c0 msg (length msg) (length exts) (o5 + 2) =
      Some (if o5 + 2 - 4 < length exts then c0\<lparr>client_pubkey := key\<rparr> else c0)" for c0
    by (rule ext_loop_share [OF _ p(6) exts(2)]) (use small m exts(1) in \<open>simp_all add: o5_def\<close>)
  have o: "4 + 32 = (36 :: nat)" "36 + 1 = (37 :: nat)" "37 + length sid + 2 = o3" "o3 + 2 * length suites + 1 + length comps = o5"
    by (simp_all add: o3_def o5_def)
  have g: "\<not> length msg < 40" "\<not> length msg < 37 + length sid" "\<not> length msg < o3 + 2 * length suites"
    "\<not> length msg < o5" "\<not> length msg < o5 + 2"
    using len le by (simp_all add: o3_def o5_def)
  have o5: "o5 + 2 - 4 = 38 + length sid + 2 * length suites + length comps" by (simp add: o5_def)
  show ?thesis
    unfolding axon_parse_client_hello_def Let_def
    by (simp only: g r1 r2 r3 r4 r5 r6 bytes o loop o5 if_False Option.bind.simps add: )
       (simp split: option.split)
qed

lemma ext_loop_returns:
  "ext_loop c data len n offset = Some c' \<Longrightarrow> c' = c \<or> (\<exists>k. length k = 32 \<and> c' = c\<lparr>client_pubkey := k\<rparr>)"
proof (induction c data len n offset rule: ext_loop.induct)
  case (1 c data len n offset)
  show ?case
  proof (cases "offset + 4 \<le> len \<and> size_sub offset 4 < n")
    case True
    from "1.prems" True obtain t l where tl: "rd16 data offset = Some t" "rd16 data (offset + 2) = Some l"
      by (subst (asm) ext_loop.simps) (auto split: Option.bind_splits)
    show ?thesis
    proof (cases "t = TLS_EXTENSION_KEY_SHARE \<and> 32 \<le> unat l")
      case False
      with "1.prems" True tl have "ext_loop c data len n (offset + 4 + unat l) = Some c'"
        by (subst (asm) ext_loop.simps) (auto simp: Let_def)
      with "1.IH" [OF True tl refl False] show ?thesis by blast
    next
      case share: True
      with "1.prems" True tl show ?thesis
        by (subst (asm) ext_loop.simps) (auto simp: Let_def split: Option.bind_splits if_splits dest: rd_bytes_length)
    qed
  next
    case False
    with "1.prems" show ?thesis by (subst (asm) ext_loop.simps) auto
  qed
qed

lemma parse_accepts:
  assumes "axon_parse_client_hello ctx data len = Some (0, ctx')"
  shows "40 \<le> len \<and> rd_bytes data 4 32 = Some (client_random ctx')"
  using assms
  by (auto simp: axon_parse_client_hello_def Let_def split: if_splits Option.bind_splits option.splits dest!: ext_loop_returns)

section \<open>Properties\<close>

text \<open>
  C9. A ClientHello in the layout the parser expects: the random and the first cipher suite of the list that
  the server supports are stored; without one the result is -1. The loop over the extensions compares the
  absolute position in the message with the length of the extension block, so the key share at the head of
  the block is taken only when the block is longer than everything in front of it (less four bytes);
  otherwise it is ignored, the client's public key keeps its old value and the hello is still accepted.
\<close>

theorem parse_client_hello_correct:
  assumes "length hdr = 4" "length rnd = 32" "length sid < 256" "2 * length suites < 65536" "length comps < 256"
    and exts: "exts = key_share_ext [a, b, c, d] key @ rest" "length key = 32" "length exts < 65536"
  defines "msg \<equiv> client_hello_bytes hdr rnd sid suites comps exts"
  shows "axon_parse_client_hello ctx msg (length msg) =
    (case find supported_suite suites of
       None \<Rightarrow> Some (-1, ctx\<lparr>client_random := rnd\<rparr>)
     | Some s \<Rightarrow> Some (0, ctx\<lparr>client_random := rnd, cipher_suite := s,
         client_pubkey := (if 38 + length sid + 2 * length suites + length comps < length exts
                           then key else client_pubkey ctx),
         messages_received := messages_received ctx OR 1\<rparr>))"
  unfolding msg_def by (rule parse_layout_eq [OF assms(1-5) exts])

lemma parse_client_hello_correct_witness:
  "axon_parse_client_hello zero_context
     (client_hello_bytes [1, 3, 4, 0] (replicate 32 7) [] [0x1301] [0] (key_share_ext [0, 36, 0, 0x1D] (replicate 32 9) @ []))
     (length (client_hello_bytes [1, 3, 4, 0] (replicate 32 7) [] [0x1301] [0]
       (key_share_ext [0, 36, 0, 0x1D] (replicate 32 9) @ []))) =
   Some (0, zero_context\<lparr>client_random := replicate 32 7, cipher_suite := 0x1301,
     client_pubkey := replicate 32 9, messages_received := messages_received zero_context OR 1\<rparr>)"
proof -
  have "length (key_share_ext [0, 36, 0, 0x1D] (replicate 32 9) @ []) = 42" by (simp add: key_share_ext_def)
  then show ?thesis
    using parse_client_hello_correct [of "[1, 3, 4, 0]" "replicate 32 7" "[]" "[0x1301]" "[0]"
        "key_share_ext [0, 36, 0, 0x1D] (replicate 32 9) @ []" 0 36 0 "0x1D" "replicate 32 9" "[]" zero_context]
    by (simp add: supported_suite_def cipher_defs)
qed

text \<open>
  The parser trusts the length of the session id: in a message of any length from 40 on whose session id
  ends exactly at the end of the message, the length of the cipher suites is read behind it, outside
  the buffer.
\<close>

theorem parse_client_hello_over_read:
  assumes "40 \<le> length data" "unat (data ! 36) = length data - 37"
  shows "axon_parse_client_hello ctx data (length data) = None"
proof -
  have "rd_bytes data 4 32 = Some (take 32 (drop 4 data))" "rd data 36 = Some (data ! 36)"
    using assms(1) by (auto simp: rd_bytes_def rd_def)
  moreover have "rd16 data (length data) = None" by (simp add: rd16_def rd_def)
  ultimately show ?thesis
    using assms by (simp add: axon_parse_client_hello_def Let_def)
qed

lemma parse_client_hello_over_read_witness:
  "axon_parse_client_hello zero_context (replicate 36 0 @ [3, 0, 0, 0]) 40 = None"
  using parse_client_hello_over_read [of "replicate 36 0 @ [3, 0, 0, 0]" zero_context] by (simp add: nth_append)

text \<open>
  C11. The ServerHello: with 32 random bytes available and room for 86 bytes, the message is written exactly, the
  keys are derived from the private key that the context already holds -- only clamped, never
  filled with random bytes -- and the message is appended to the transcript. The two bytes
  where the length of the extensions belongs are 0; the real length, 40, stands behind them.
\<close>

theorem build_server_hello_correct:
  assumes "context_ok ctx" "86 \<le> length out" "length r = 32"
    and "generate_random dev (server_random ctx) 32 = Some (0, r, dev')"
    and "buffer_offset ctx \<le> 8106"
  shows "\<exists>ctx' k pub m.
     k = clamp (server_privkey ctx) \<and> pub = x25519_ladder k BASE_POINT \<and>
     m = [TLS_HANDSHAKE_SERVER_HELLO, 0, 0, 82] @ [3, 4] @ r @ [0] @ [byte_at 8 (cipher_suite ctx), byte_at 0 (cipher_suite ctx), 0]
           @ [0, 0] @ [0, 40] @ [0, 0x22, 0, 0x24, 0, 0x1D, 0, 0x20] @ pub \<and>
     axon_build_server_hello dev (Some ctx) (Some out) (Some n) =
       Some (0, Some ctx', Some (m @ drop 86 out), Some 86, dev') \<and>
     context_ok ctx' \<and> server_random ctx' = r \<and> server_privkey ctx' = k \<and> server_public_key ctx' = pub \<and>
     shared_secret ctx' = x25519_ladder k (client_pubkey ctx) \<and>
     transcript ctx' = transcript ctx @ m"
proof -
  let ?h = "hello_context ctx r"
  let ?m = "message TLS_HANDSHAKE_SERVER_HELLO (server_hello_body r (cipher_suite ctx) (server_public_key ?h))"
  have len: "length (server_hello_body r (cipher_suite ctx) (server_public_key ?h)) = 82"
    by (simp add: length_server_hello_body assms(3) hello_context_def Let_def)
  have ok: "context_ok ?h" by (rule hello_context_ok [OF assms(1,3)])
  have tr: "transcript ?h = transcript ctx" by (simp add: transcript_def hello_context_def Let_def)
  have "transcript (sent ?h 0x02 ?m) = transcript ctx @ ?m"
    using sent_transcript [OF ok, of ?m "0x02"] tr assms(1,5) len by simp
  moreover have "?m = [TLS_HANDSHAKE_SERVER_HELLO, 0, 0, 82] @ server_hello_body r (cipher_suite ctx) (server_public_key ?h)"
    using len by (simp add: message_def)
  ultimately show ?thesis
    using server_hello_eq [OF assms(1-4), of n] sent_ok [OF ok, of "0x02" ?m]
    by (intro exI [of _ "sent ?h 0x02 ?m"] exI conjI)
       (auto simp: sent_def hello_context_def Let_def server_hello_body_def)
qed

lemma build_server_hello_correct_witness:
  "\<exists>ctx' m. axon_build_server_hello \<lparr>can_open = True, chunks = [replicate 32 5]\<rparr> (Some zero_context)
      (Some (replicate 90 0)) (Some 0) = Some (0, Some ctx', Some (m @ drop 86 (replicate 90 0)), Some 86, \<lparr>can_open = True, chunks = []\<rparr>) \<and>
     server_privkey ctx' = clamp (replicate 32 0)"
proof -
  have "generate_random \<lparr>can_open = True, chunks = [replicate 32 5]\<rparr> (server_random zero_context) 32 =
      Some (0, replicate 32 5, \<lparr>can_open = True, chunks = []\<rparr>)"
    by (subst generate_random_chunk [of _ _ "replicate 32 5" _ "[]"]) simp_all
  from build_server_hello_correct [OF context_ok_zero _ _ this, of "replicate 90 0" 0] show ?thesis
    by (auto simp del: drop_replicate)
qed

text \<open>
  C37. The CertificateVerify message proves nothing: its "signature" is the hash of the transcript and the same
  hash backwards, so every party that has seen the handshake, whatever its keys, builds the same
  message. It is undefined when the transcript leaves 56 bytes or more in the last hash block.
\<close>

theorem certificate_verify_unkeyed:
  assumes "context_ok c1" "context_ok c2" "transcript c1 = transcript c2" "74 \<le> length out"
  shows "if length (transcript c1) mod 64 < 56 then
     \<exists>m c1' c2'. m = [TLS_HANDSHAKE_CERTIFICATE_VERIFY, 0, 0, 70, 4, 3, 0, 0, 0, 64] @
           fips_sha256 (transcript c1) @ rev (fips_sha256 (transcript c1)) \<and>
       axon_build_certificate_verify (Some c1) (Some out) (Some n) = Some (0, Some c1', Some (m @ drop 74 out), Some 74) \<and>
       axon_build_certificate_verify (Some c2) (Some out) (Some n) = Some (0, Some c2', Some (m @ drop 74 out), Some 74)
   else axon_build_certificate_verify (Some c1) (Some out) (Some n) = None"
  using certificate_verify_eq [OF assms(1,4), of n] certificate_verify_eq [OF assms(2,4), of n] assms(3)
  by (auto simp: sha_fits_def Let_def message_def signature_of_def)

lemma certificate_verify_unkeyed_witness:
  "\<exists>m c1' c2'. axon_build_certificate_verify (Some zero_context) (Some (replicate 74 0)) (Some 0) =
       Some (0, Some c1', Some m, Some 74) \<and>
     axon_build_certificate_verify (Some (zero_context\<lparr>server_privkey := replicate 32 9\<rparr>)) (Some (replicate 74 0)) (Some 0) =
       Some (0, Some c2', Some m, Some 74)"
proof -
  have "context_ok (zero_context\<lparr>server_privkey := replicate 32 9\<rparr>)" by (simp add: context_ok_def)
  moreover have "transcript (zero_context\<lparr>server_privkey := replicate 32 9\<rparr>) = transcript zero_context"
    by (simp add: transcript_def)
  ultimately show ?thesis
    using certificate_verify_unkeyed [of zero_context "zero_context\<lparr>server_privkey := replicate 32 9\<rparr>" "replicate 74 0" 0]
    by auto
qed

text \<open>
  C12. Finished: what \<open>axon_build_finished\<close> sends, \<open>axon_verify_finished\<close> accepts when the peer has the same master
  secret and the same transcript, and it accepts no other 32 bytes; \<open>handshake_done\<close> is set exactly on acceptance. The
  transcript must have a length that \<open>sha256_final\<close> can pad inside its block (less than 56 modulo 64), else the hash is undefined.
\<close>

theorem finished_verifies:
  assumes "context_ok s" "context_ok r" "take 32 (master_secret s) = take 32 (master_secret r)"
    "transcript s = transcript r" "length (transcript s) mod 64 < 56" "36 \<le> length out"
    "32 \<le> length data"
  shows "\<exists>s' m. axon_build_finished (Some s) (Some out) (Some n) = Some (0, Some s', Some (m @ drop 36 out), Some 36) \<and>
     length m = 36 \<and>
     axon_verify_finished (Some r) (Some data) (length data) =
       (if take 32 data = drop 4 m then Some (0, Some (r\<lparr>handshake_done := 1\<rparr>)) else Some (-1, Some r))"
proof -
  have "finished_of s (transcript s) = finished_of r (transcript r)"
    using assms(3,4) by (simp add: finished_of_def)
  moreover have "rd_bytes data 0 32 = Some (take 32 data)" using assms(7) by (simp add: rd_bytes_def)
  ultimately show ?thesis
    using finished_eq [OF assms(1,6), of n] compute_finished_eq [OF assms(2), of "transcript r"] assms
    by (auto simp: sha_fits_def Let_def axon_verify_finished_def transcript_def [symmetric] message_def)
qed

lemma finished_verifies_witness:
  "\<exists>s' m. axon_build_finished (Some zero_context) (Some (replicate 36 0)) (Some 0) = Some (0, Some s', Some m, Some 36) \<and>
     axon_verify_finished (Some zero_context) (Some (replicate 32 0)) 32 =
       (if replicate 32 0 = drop 4 m then Some (0, Some (zero_context\<lparr>handshake_done := 1\<rparr>)) else Some (-1, Some zero_context))"
  using finished_verifies [of zero_context zero_context "replicate 36 0" "replicate 32 0" 0]
  by (auto split del: if_split)

end
