(* ===== verification/Axon_Engine.thy ===== *)
theory Axon_Engine
  imports Axon_State Axon_Record Axon_Handshake
begin

text \<open>
  The engine of \<open>core/include/axon_engine.h\<close> and \<open>core/source/main.c\<close>: a context, a protocol state and
  a second set of keys. \<open>axon_engine_handshake\<close> takes one ClientHello record and answers with the
  whole flight of the server; \<open>axon_engine_encrypt\<close> and \<open>axon_engine_decrypt\<close> are the application interface.

  An engine pointer is the address of its block in the heap of the secure allocator, together with the struct that the block holds. The functions work on the struct;
  \<open>save_engine\<close> writes its bytes into the block, and \<open>axon_engine_destroy\<close> does so before the block is wiped and released, so that it is the bytes of
  the engine that have to be wiped.
  The flight is described message by message, \<open>flight1\<close> to \<open>flight5\<close> being the context after each of them.
\<close>

section \<open>The engine\<close>

record axon_engine =
  ectx :: axon_context
  estate :: axon_state
  eng_write_key :: "byte list"
  eng_read_key :: "byte list"
  eng_write_iv :: "byte list"
  eng_read_iv :: "byte list"
  eng_sequence_number :: u64

text \<open>\<open>sizeof(axon_engine_t)\<close> with the usual alignment.\<close>

definition sizeof_engine :: nat where
  "sizeof_engine = 8720"

text \<open>The bytes of the two structs, with integers in little-endian order and zeroes for the padding.\<close>

definition le_bytes :: "nat \<Rightarrow> 'a::len word \<Rightarrow> byte list" where
  "le_bytes n w = map (\<lambda>i. byte_at (8 * i) w) [0..<n]"

definition context_bytes :: "axon_context \<Rightarrow> byte list" where
  "context_bytes c =
     client_random c @ server_random c @ session_id c @ master_secret c @ handshake_hash c @ client_pubkey c @
     server_privkey c @ server_public_key c @ shared_secret c @ write_key c @ read_key c @ write_iv c @ read_iv c @
     le_bytes 8 (sequence_number c) @ handshake_buffer c @ le_bytes 8 (of_nat (buffer_offset c) :: u64) @
     le_bytes 4 (messages_received c) @ [handshake_done c, alert_triggered c] @ le_bytes 2 (cipher_suite c) @ [key_phase c] @
     replicate 7 0"

fun state_code :: "axon_state \<Rightarrow> u32" where
  "state_code STATE_INIT = 0"
| "state_code STATE_WAITING_CLIENT_HELLO = 1"
| "state_code STATE_SENT_SERVER_HELLO = 2"
| "state_code STATE_SENT_ENCRYPTED_EXTENSIONS = 3"
| "state_code STATE_SENT_CERTIFICATE = 4"
| "state_code STATE_SENT_CERTIFICATE_VERIFY = 5"
| "state_code STATE_SENT_FINISHED = 6"
| "state_code STATE_WAITING_FINISHED = 7"
| "state_code STATE_HANDSHAKE_COMPLETE = 8"
| "state_code STATE_ALERT_SENT = 9"
| "state_code STATE_ERROR = 10"

definition engine_bytes :: "axon_engine \<Rightarrow> byte list" where
  "engine_bytes e =
     context_bytes (ectx e) @ le_bytes 4 (state_code (estate e)) @ eng_write_key e @ eng_read_key e @ eng_write_iv e @
     eng_read_iv e @ replicate 4 0 @ le_bytes 8 (eng_sequence_number e)"

definition save_engine :: "nat \<Rightarrow> axon_engine \<Rightarrow> heap \<Rightarrow> heap" where
  "save_engine a e h = h\<lparr>blocks := (blocks h)(a \<mapsto> engine_bytes e)\<rparr>"

definition axon_engine_create :: "heap \<Rightarrow> (nat \<times> axon_engine) ptr \<times> heap" where
  "axon_engine_create h =
     (case secure_alloc sizeof_engine h of
        (None, h) \<Rightarrow> (NULL, h)
      | (Some a, h) \<Rightarrow>
          let eng = \<lparr>ectx = axon_context_init zero_context, estate = STATE_INIT,
                     eng_write_key = replicate 32 0, eng_read_key = replicate 32 0,
                     eng_write_iv = replicate 12 0, eng_read_iv = replicate 12 0,
                     eng_sequence_number = 0\<rparr>
          in (Some (a, eng), save_engine a eng h))"

definition axon_engine_destroy :: "(nat \<times> axon_engine) ptr \<Rightarrow> heap \<Rightarrow> heap option" where
  "axon_engine_destroy engp h =
     (case engp of
        None \<Rightarrow> Some h
      | Some (a, eng) \<Rightarrow> do {
          _ \<leftarrow> blocks h a;
          eng \<leftarrow> map_option (\<lambda>ctx. eng\<lparr>ectx := ctx\<rparr>) (axon_context_wipe (Some (ectx eng)));
          let h = save_engine a eng h;
          secure_free (Some a) sizeof_engine h })"

definition axon_engine_reset :: "axon_engine ptr \<Rightarrow> axon_engine ptr" where
  "axon_engine_reset engp =
     (case engp of
        None \<Rightarrow> NULL
      | Some eng \<Rightarrow> do {
          ctx \<leftarrow> axon_context_wipe (Some (ectx eng));
          Some (eng\<lparr>ectx := axon_context_init ctx, estate := STATE_INIT, eng_sequence_number := 0\<rparr>) })"

section \<open>The flight of the server\<close>

text \<open>
  \<open>build(&eng->context, out_ptr, &chunk_len)\<close> with \<open>out_ptr = response + out_total\<close>, and the advance of
  both when it succeeds.
\<close>

definition build_at ::
  "(axon_context ptr \<Rightarrow> byte list ptr \<Rightarrow> nat ptr \<Rightarrow> build_result) \<Rightarrow> axon_engine \<Rightarrow> byte list \<Rightarrow> nat \<Rightarrow>
   (int \<times> axon_engine \<times> byte list \<times> nat) option" where
  "build_at build eng response out_total = do {
     (ret, ctxp, outp, chunk_lenp) \<leftarrow> build (Some (ectx eng)) (Some (drop out_total response)) (Some 0);
     ctx \<leftarrow> ctxp; out \<leftarrow> outp; chunk_len \<leftarrow> chunk_lenp;
     Some (ret, eng\<lparr>ectx := ctx\<rparr>, take out_total response @ out,
           (if ret < 0 then out_total else out_total + chunk_len)) }"

definition advance :: "byte \<Rightarrow> axon_engine \<Rightarrow> axon_engine" where
  "advance msg eng = eng\<lparr>estate := axon_state_machine (Some (ectx eng)) (estate eng) msg\<rparr>"

definition tls13_key_info :: "byte list" where
  "tls13_key_info = [0x74, 0x6C, 0x73, 0x31, 0x33, 0x20, 0x6B, 0x65, 0x79]"

definition derive_engine_keys :: "axon_engine \<Rightarrow> axon_engine option" where
  "derive_engine_keys eng = do {
     (_, prk) \<leftarrow> hkdf_extract (Some (hello_salt (ectx eng))) (Some (shared_secret (ectx eng))) (Some (replicate 32 0));
     (_, key_material) \<leftarrow> hkdf_expand prk (Some tls13_key_info) (Some (replicate 96 0)) 96;
     km \<leftarrow> key_material;
     Some (eng\<lparr>eng_write_key := take 32 km, eng_read_key := take 32 (drop 32 km),
               eng_write_iv := take 12 (drop 64 km), eng_read_iv := take 12 (drop 76 km)\<rparr>) }"

definition server_flight ::
  "urandom \<Rightarrow> axon_engine \<Rightarrow> byte list \<Rightarrow> nat \<Rightarrow> (int \<times> axon_engine \<times> byte list \<times> nat \<times> urandom) option" where
  "server_flight dev eng response resp_len = do {
     let eng = eng\<lparr>estate := axon_state_machine (Some (ectx eng)) STATE_INIT TLS_HANDSHAKE_CLIENT_HELLO\<rparr>;
     (ret, ctxp, outp, chunk_lenp, dev) \<leftarrow> axon_build_server_hello dev (Some (ectx eng)) (Some response) (Some 0);
     ctx \<leftarrow> ctxp; response \<leftarrow> outp; out_total \<leftarrow> chunk_lenp;
     let eng = eng\<lparr>ectx := ctx\<rparr>;
     if ret < 0 then Some (ret, eng, response, resp_len, dev) else do {
     let eng = advance TLS_HANDSHAKE_SERVER_HELLO eng;
     (ret, eng, response, out_total) \<leftarrow> build_at axon_build_encrypted_extensions eng response out_total;
     if ret < 0 then Some (ret, eng, response, resp_len, dev) else do {
     let eng = advance TLS_HANDSHAKE_ENCRYPTED_EXTENSIONS eng;
     ctxp \<leftarrow> axon_derive_handshake_keys (Some (ectx eng));
     ctx \<leftarrow> ctxp;
     let eng = eng\<lparr>ectx := ctx\<rparr>;
     eng \<leftarrow> derive_engine_keys eng;
     (ret, eng, response, out_total) \<leftarrow> build_at axon_build_certificate eng response out_total;
     if ret < 0 then Some (ret, eng, response, resp_len, dev) else do {
     let eng = advance TLS_HANDSHAKE_CERTIFICATE eng;
     (ret, eng, response, out_total) \<leftarrow> build_at axon_build_certificate_verify eng response out_total;
     if ret < 0 then Some (ret, eng, response, resp_len, dev) else do {
     let eng = advance TLS_HANDSHAKE_CERTIFICATE_VERIFY eng;
     (ret, eng, response, out_total) \<leftarrow> build_at axon_build_finished eng response out_total;
     if ret < 0 then Some (ret, eng, response, resp_len, dev) else do {
     let eng = advance TLS_HANDSHAKE_FINISHED eng;
     let eng = eng\<lparr>estate := STATE_SENT_FINISHED\<rparr>;
     Some (0, eng, response, out_total, dev) } } } } } }"

section \<open>The interface\<close>

definition no_record :: axon_record where
  "no_record = \<lparr>content_type = 0, version = 0, rec_length = 0, fragment = NULL\<rparr>"

definition axon_engine_handshake ::
  "urandom \<Rightarrow> axon_engine ptr \<Rightarrow> byte list ptr \<Rightarrow> nat \<Rightarrow> byte list ptr \<Rightarrow> nat ptr \<Rightarrow> heap \<Rightarrow>
   (int \<times> axon_engine ptr \<times> byte list ptr \<times> nat ptr \<times> urandom \<times> heap) option" where
  "axon_engine_handshake dev engp hellop len responsep resp_lenp h =
     (case (engp, hellop, responsep, resp_lenp) of
        (Some eng, Some hello, Some response, Some resp_len) \<Rightarrow> do {
          (ret, recp, h) \<leftarrow> axon_record_read (Some (ectx eng)) hellop len (Some no_record) h;
          r \<leftarrow> recp;
          if ret < 0 then Some (ret, engp, responsep, resp_lenp, dev, h)
          else do {
            let n = unat (rec_length r);
            let alert = Some (eng\<lparr>estate := STATE_ALERT_SENT\<rparr>);
            if content_type r \<noteq> TLS_CONTENT_HANDSHAKE then do {
              h \<leftarrow> secure_free (fragment r) n h;
              Some (-1, alert, responsep, resp_lenp, dev, h) }
            else do {
              a \<leftarrow> fragment r;
              frag \<leftarrow> blocks h a;
              f0 \<leftarrow> rd frag 0;
              if f0 \<noteq> TLS_HANDSHAKE_CLIENT_HELLO then do {
                h \<leftarrow> secure_free (fragment r) n h;
                Some (-1, alert, responsep, resp_lenp, dev, h) }
              else do {
                version \<leftarrow> rd16 frag 1;
                if version \<noteq> 0x0304 then do {
                  h \<leftarrow> secure_free (fragment r) n h;
                  Some (-1, alert, responsep, resp_lenp, dev, h) }
                else do {
                  (ret, ctx) \<leftarrow> axon_parse_client_hello (ectx eng) frag n;
                  ctxp \<leftarrow> axon_context_update_hash (Some ctx) (Some frag) n;
                  ctx \<leftarrow> ctxp;
                  let eng = eng\<lparr>ectx := ctx\<rparr>;
                  h \<leftarrow> secure_free (fragment r) n h;
                  if ret < 0 then Some (ret, Some (eng\<lparr>estate := STATE_ALERT_SENT\<rparr>), responsep, resp_lenp, dev, h)
                  else do {
                    (ret, eng, response, resp_len, dev) \<leftarrow> server_flight dev eng response resp_len;
                    Some (ret, Some eng, Some response, Some resp_len, dev, h) } } } } } }
      | _ \<Rightarrow> Some (-1, engp, responsep, resp_lenp, dev, h))"

definition axon_engine_decrypt ::
  "axon_engine ptr \<Rightarrow> byte list ptr \<Rightarrow> nat \<Rightarrow> byte list ptr \<Rightarrow> nat ptr \<Rightarrow> heap \<Rightarrow>
   (int \<times> axon_engine ptr \<times> byte list ptr \<times> nat ptr \<times> heap) option" where
  "axon_engine_decrypt engp ciphertextp len plaintextp out_lenp h =
     (case (engp, ciphertextp, plaintextp, out_lenp) of
        (Some eng, Some ciphertext, Some plaintext, Some out_len) \<Rightarrow>
          if estate eng \<noteq> STATE_HANDSHAKE_COMPLETE then Some (-1, engp, plaintextp, out_lenp, h)
          else do {
            (ret, recp, h) \<leftarrow> axon_record_read (Some (ectx eng)) ciphertextp len (Some no_record) h;
            r \<leftarrow> recp;
            if ret < 0 then Some (ret, engp, plaintextp, out_lenp, h)
            else if content_type r = TLS_CONTENT_ALERT then do {
              h \<leftarrow> secure_free (fragment r) (unat (rec_length r)) h;
              Some (-1, Some (eng\<lparr>estate := STATE_ALERT_SENT\<rparr>), plaintextp, out_lenp, h) }
            else do {
              (ret, ctxp, _, pt, out_len, h) \<leftarrow> axon_record_decrypt (Some (ectx eng)) (Some r) plaintextp out_lenp h;
              ctx \<leftarrow> ctxp;
              Some (ret, Some (eng\<lparr>ectx := ctx\<rparr>), pt, out_len, h) } }
      | _ \<Rightarrow> Some (-1, engp, plaintextp, out_lenp, h))"

definition axon_engine_encrypt ::
  "axon_engine ptr \<Rightarrow> byte list ptr \<Rightarrow> nat \<Rightarrow> byte list ptr \<Rightarrow> nat ptr \<Rightarrow>
   (int \<times> axon_engine ptr \<times> byte list ptr \<times> nat ptr) option" where
  "axon_engine_encrypt engp plaintextp len ciphertextp out_lenp =
     (case (engp, plaintextp, ciphertextp, out_lenp) of
        (Some eng, Some plaintext, Some ciphertext, Some out_len) \<Rightarrow>
          if estate eng \<noteq> STATE_HANDSHAKE_COMPLETE then Some (-1, engp, ciphertextp, out_lenp)
          else do {
            (ret, ctxp, ct, out_len) \<leftarrow> axon_record_encrypt (Some (ectx eng)) TLS_CONTENT_APPLICATION_DATA
               plaintextp len ciphertextp out_lenp;
            ctx \<leftarrow> ctxp;
            Some (ret, Some (eng\<lparr>ectx := ctx\<rparr>), ct, out_len) }
      | _ \<Rightarrow> Some (-1, engp, ciphertextp, out_lenp))"

section \<open>The block of the engine\<close>

lemma length_le_bytes [simp, length_simps]: "length (le_bytes n w) = n"
  by (simp add: le_bytes_def)

lemma length_engine_bytes:
  assumes "context_ok (ectx e)" "length (eng_write_key e) = 32" "length (eng_read_key e) = 32"
    "length (eng_write_iv e) = 12" "length (eng_read_iv e) = 12"
  shows "length (engine_bytes e) = sizeof_engine"
  using assms by (simp add: engine_bytes_def context_bytes_def sizeof_engine_def context_ok_def)

lemma save_engine_simps [simp]:
  "blocks (save_engine a e h) = (blocks h)(a \<mapsto> engine_bytes e)" "mfail (save_engine a e h) = mfail h"
  "next_addr (save_engine a e h) = next_addr h" "released (save_engine a e h) = released h"
  by (simp_all add: save_engine_def)

lemma heap_ok_save: "heap_ok h \<Longrightarrow> blocks h a = Some b \<Longrightarrow> heap_ok (save_engine a e h)"
  unfolding heap_ok_def save_engine_def by (auto simp: not_le dest: leI)

lemma engine_create_fields:
  assumes "axon_engine_create h = (Some (a, e), h1)"
  shows "context_ok (ectx e)" "length (eng_write_key e) = 32" "length (eng_read_key e) = 32"
    "length (eng_write_iv e) = 12" "length (eng_read_iv e) = 12"
  using assms by (auto simp: axon_engine_create_def Let_def split: prod.splits option.splits)

lemma engine_create_heap:
  assumes "axon_engine_create h = (p, h1)" "heap_ok h"
  shows "heap_ok h1 \<and> (case p of None \<Rightarrow> blocks h1 = blocks h
    | Some (a, e) \<Rightarrow> blocks h a = None \<and> blocks h1 = (blocks h)(a \<mapsto> engine_bytes e))"
proof (cases "secure_alloc sizeof_engine h")
  case (Pair q h2)
  show ?thesis
  proof (cases q)
    case None
    with Pair assms sec.alloc_none [OF assms(2), of sizeof_engine h2] show ?thesis by (simp add: axon_engine_create_def)
  next
    case (Some a)
    with Pair sec.alloc_some [OF assms(2), of sizeof_engine a h2] have
      "heap_ok h2" "blocks h a = None" "blocks h2 = (blocks h)(a \<mapsto> replicate sizeof_engine 0)" by simp_all
    with heap_ok_save [of h2 a] Pair Some assms(1) show ?thesis by (auto simp: axon_engine_create_def Let_def)
  qed
qed

lemma engine_destroy_heap:
  assumes "heap_ok h" "blocks h a = Some b"
    and "length (eng_write_key e) = 32" "length (eng_read_key e) = 32" "length (eng_write_iv e) = 12" "length (eng_read_iv e) = 12"
  shows "\<exists>h'. axon_engine_destroy (Some (a, e)) h = Some h' \<and> heap_ok h' \<and> blocks h' = (blocks h)(a := None)"
proof -
  let ?e = "e\<lparr>ectx := zero_context\<rparr>"
  have l: "length (engine_bytes ?e) = sizeof_engine" by (rule length_engine_bytes) (use assms in simp_all)
  then have "engine_bytes ?e \<noteq> []" by (auto simp: sizeof_engine_def)
  have "heap_ok (save_engine a ?e h)" by (rule heap_ok_save [OF assms(1,2)])
  from sec.free_live [OF this, of a "engine_bytes ?e"] l \<open>engine_bytes ?e \<noteq> []\<close> show ?thesis
    using assms(2) by (auto simp: axon_engine_destroy_def axon_context_wipe_def sizeof_engine_def)
qed

section \<open>The flight, message by message\<close>

lemma build_at_prefix:
  assumes "length ms = k"
    and "build (Some (ectx eng)) (Some (drop k resp)) (Some 0) = Some (0, Some c, Some (m @ drop n (drop k resp)), Some n)"
    and "j = k + n"
  shows "build_at build eng (ms @ drop k resp) k = Some (0, eng\<lparr>ectx := c\<rparr>, (ms @ m) @ drop j resp, j)"
  using assms by (simp add: build_at_def add.commute)

lemma derive_engine_keys_eq:
  assumes "context_ok (ectx eng)"
  shows "\<exists>km. okm_stream sha256_of (handshake_prk (ectx eng)) tls13_key_info 3 = Some km \<and> length km = 96 \<and>
    derive_engine_keys eng = Some (eng\<lparr>eng_write_key := take 32 km, eng_read_key := take 32 (drop 32 km),
      eng_write_iv := take 12 (drop 64 km), eng_read_iv := take 12 (drop 76 km)\<rparr>)"
proof -
  have "chain_fits sha_fits (length tls13_key_info)" by (simp add: tls13_key_info_def chain_fits_def sha_fits_def)
  from expand_keys [OF this, of "ectx eng"] extract_prk [OF assms] show ?thesis
    by (auto simp: derive_engine_keys_def)
qed

definition hello_message :: "axon_context \<Rightarrow> byte list \<Rightarrow> byte list" where
  "hello_message c r = message TLS_HANDSHAKE_SERVER_HELLO
     (server_hello_body r (cipher_suite c) (server_public_key (hello_context c r)))"

abbreviation extensions_message :: "byte list" where
  "extensions_message \<equiv> message TLS_HANDSHAKE_ENCRYPTED_EXTENSIONS [0, 0]"

abbreviation certificate_message :: "byte list" where
  "certificate_message \<equiv> message TLS_HANDSHAKE_CERTIFICATE [0, 0, 0, 0, 0, 0, 0, 0, 0]"

definition verify_message :: "byte list \<Rightarrow> byte list" where
  "verify_message tr = message TLS_HANDSHAKE_CERTIFICATE_VERIFY ([4, 3, 0, 0, 0, 0x40] @ signature_of tr)"

definition finished_message :: "axon_context \<Rightarrow> byte list \<Rightarrow> byte list" where
  "finished_message c tr = message TLS_HANDSHAKE_FINISHED (finished_of c tr)"

lemma flight_lengths [length_simps]:
  "length r = 32 \<Longrightarrow> length (hello_message c r) = 86"
  "length extensions_message = 6" "length certificate_message = 13" "length (verify_message tr) = 74"
  "context_ok c \<Longrightarrow> length (finished_message c tr) = 36"
  by (simp_all add: hello_message_def length_server_hello_body hello_context_def Let_def verify_message_def
      signature_of_def finished_message_def)

lemma sent_fields [simp]:
  "client_random (sent c f m) = client_random c" "server_random (sent c f m) = server_random c"
  "master_secret (sent c f m) = master_secret c" "shared_secret (sent c f m) = shared_secret c"
  "server_privkey (sent c f m) = server_privkey c" "server_public_key (sent c f m) = server_public_key c"
  "client_pubkey (sent c f m) = client_pubkey c"
  "write_key (sent c f m) = write_key c" "read_key (sent c f m) = read_key c"
  "write_iv (sent c f m) = write_iv c" "read_iv (sent c f m) = read_iv c"
  "sequence_number (sent c f m) = sequence_number c" "cipher_suite (sent c f m) = cipher_suite c"
  "messages_received (sent c f m) = messages_received c OR f" "handshake_done (sent c f m) = handshake_done c"
  by (simp_all add: sent_def)

lemma hello_context_fields [simp]:
  "client_random (hello_context c r) = client_random c" "server_random (hello_context c r) = r"
  "client_pubkey (hello_context c r) = client_pubkey c"
  "write_key (hello_context c r) = write_key c" "read_key (hello_context c r) = read_key c"
  "write_iv (hello_context c r) = write_iv c" "read_iv (hello_context c r) = read_iv c"
  "sequence_number (hello_context c r) = sequence_number c" "cipher_suite (hello_context c r) = cipher_suite c"
  "messages_received (hello_context c r) = messages_received c" "handshake_done (hello_context c r) = handshake_done c"
  "server_privkey (hello_context c r) = clamp (server_privkey c)"
  "transcript (hello_context c r) = transcript c"
  by (simp_all add: hello_context_def Let_def transcript_def)

text \<open>The transcript does not depend on the fields that the handshake sets besides it.\<close>

lemma transcript_updates [simp]:
  "transcript (c\<lparr>master_secret := k\<rparr>) = transcript c" "transcript (c\<lparr>handshake_done := d\<rparr>) = transcript c"
  "transcript (c\<lparr>client_random := k\<rparr>) = transcript c" "transcript (c\<lparr>client_pubkey := k\<rparr>) = transcript c"
  "transcript (c\<lparr>cipher_suite := s\<rparr>) = transcript c" "transcript (c\<lparr>messages_received := w\<rparr>) = transcript c"
  by (simp_all add: transcript_def)

lemma context_ok_updates [simp]:
  "context_ok (c\<lparr>handshake_done := d\<rparr>) = context_ok c" "context_ok (c\<lparr>cipher_suite := s\<rparr>) = context_ok c"
  "context_ok (c\<lparr>messages_received := w\<rparr>) = context_ok c"
  by (auto simp: context_ok_def)

lemma context_ok_master: "context_ok c \<Longrightarrow> length k = 48 \<Longrightarrow> context_ok (c\<lparr>master_secret := k\<rparr>)"
  by (simp add: context_ok_def)

lemma handshake_prk_updates [simp]:
  "handshake_prk (sent c f m) = handshake_prk c" "handshake_prk (c\<lparr>master_secret := k\<rparr>) = handshake_prk c"
  by (simp_all add: handshake_prk_def hello_salt_def)

text \<open>The context after each message of the flight; \<open>k\<close> is the master secret, which is derived after the second.\<close>

definition flight1 :: "axon_context \<Rightarrow> byte list \<Rightarrow> axon_context" where
  "flight1 c r = sent (hello_context c r) 0x02 (hello_message c r)"

definition flight2 :: "axon_context \<Rightarrow> byte list \<Rightarrow> axon_context" where
  "flight2 c r = sent (flight1 c r) 0x04 extensions_message"

definition flight3 :: "axon_context \<Rightarrow> byte list \<Rightarrow> byte list \<Rightarrow> axon_context" where
  "flight3 c r k = sent ((flight2 c r)\<lparr>master_secret := k\<rparr>) 0x08 certificate_message"

definition flight4 :: "axon_context \<Rightarrow> byte list \<Rightarrow> byte list \<Rightarrow> axon_context" where
  "flight4 c r k = sent (flight3 c r k) 0x10 (verify_message (transcript (flight3 c r k)))"

definition flight5 :: "axon_context \<Rightarrow> byte list \<Rightarrow> byte list \<Rightarrow> axon_context" where
  "flight5 c r k = sent ((flight4 c r k)\<lparr>handshake_done := 1\<rparr>) 0x20 (finished_message (flight4 c r k) (transcript (flight4 c r k)))"

lemma flight_ok:
  assumes "context_ok c" "length r = 32" "length k = 48"
  shows "context_ok (flight1 c r)" "context_ok (flight2 c r)" "context_ok ((flight2 c r)\<lparr>master_secret := k\<rparr>)"
    "context_ok (flight3 c r k)" "context_ok (flight4 c r k)" "context_ok (flight5 c r k)"
proof -
  show 1: "context_ok (flight1 c r)" unfolding flight1_def by (intro sent_ok hello_context_ok assms)
  show 2: "context_ok (flight2 c r)" unfolding flight2_def by (rule sent_ok [OF 1])
  show m: "context_ok ((flight2 c r)\<lparr>master_secret := k\<rparr>)" by (rule context_ok_master [OF 2 assms(3)])
  show 3: "context_ok (flight3 c r k)" unfolding flight3_def by (rule sent_ok [OF m])
  show 4: "context_ok (flight4 c r k)" unfolding flight4_def by (rule sent_ok [OF 3])
  show "context_ok (flight5 c r k)" unfolding flight5_def by (rule sent_ok) (simp add: 4)
qed

lemma flight_transcripts:
  assumes c: "context_ok c" and r: "length r = 32" and k: "length k = 48" and room: "length (transcript c) + 215 \<le> 8192"
  shows "transcript (flight3 c r k) = transcript c @ hello_message c r @ extensions_message @ certificate_message"
    "transcript (flight4 c r k) = transcript (flight3 c r k) @ verify_message (transcript (flight3 c r k))"
    "transcript (flight5 c r k) = transcript (flight4 c r k) @ finished_message (flight4 c r k) (transcript (flight4 c r k))"
proof -
  note ok = flight_ok [OF c r k] and len = flight_lengths(1) [OF r] flight_lengths(4) flight_lengths(5) [OF flight_ok(5) [OF c r k]]
  have 1: "transcript (flight1 c r) = transcript c @ hello_message c r"
    using sent_transcript [OF hello_context_ok [OF c r], of "hello_message c r" "0x02"] room len c by (simp add: flight1_def)
  have 2: "transcript (flight2 c r) = transcript (flight1 c r) @ extensions_message"
    using sent_transcript [OF ok(1), of extensions_message "0x04"] room len 1 by (simp add: flight2_def)
  show 3: "transcript (flight3 c r k) = transcript c @ hello_message c r @ extensions_message @ certificate_message"
    using sent_transcript [OF ok(3), of certificate_message "0x08"] room len 1 2 by (simp add: flight3_def)
  show 4: "transcript (flight4 c r k) = transcript (flight3 c r k) @ verify_message (transcript (flight3 c r k))"
    using sent_transcript [OF ok(4), of "verify_message (transcript (flight3 c r k))" "0x10"] room len 3
    by (simp add: flight4_def)
  show "transcript (flight5 c r k) = transcript (flight4 c r k) @ finished_message (flight4 c r k) (transcript (flight4 c r k))"
    using sent_transcript [of "(flight4 c r k)\<lparr>handshake_done := 1\<rparr>" "finished_message (flight4 c r k) (transcript (flight4 c r k))" "0x20"]
      ok(5) room len 3 4 by (simp add: flight5_def)
qed

lemma flight_fields [simp]:
  "handshake_prk (flight2 c r) = handshake_prk (hello_context c r)" "master_secret (flight4 c r k) = k"
  "write_key (flight5 c r k) = write_key c" "read_key (flight5 c r k) = read_key c"
  "write_iv (flight5 c r k) = write_iv c" "read_iv (flight5 c r k) = read_iv c"
  "sequence_number (flight5 c r k) = sequence_number c" "server_privkey (flight5 c r k) = clamp (server_privkey c)"
  "handshake_done (flight5 c r k) = 1"
  by (simp_all add: flight1_def flight2_def flight3_def flight4_def flight5_def)

text \<open>The five messages.\<close>

definition flight :: "axon_context \<Rightarrow> byte list \<Rightarrow> byte list \<Rightarrow> byte list" where
  "flight c r k = hello_message c r @ extensions_message @ certificate_message @
     verify_message (transcript (flight3 c r k)) @ finished_message (flight4 c r k) (transcript (flight4 c r k))"

definition keyed :: "axon_engine \<Rightarrow> byte list \<Rightarrow> axon_engine" where
  "keyed e km = e\<lparr>eng_write_key := take 32 km, eng_read_key := take 32 (drop 32 km),
     eng_write_iv := take 12 (drop 64 km), eng_read_iv := take 12 (drop 76 km)\<rparr>"

lemma keyed_fields [simp]:
  "ectx (keyed e km) = ectx e" "estate (keyed e km) = estate e"
  "eng_write_key (keyed e km) = take 32 km" "eng_read_key (keyed e km) = take 32 (drop 32 km)"
  "eng_write_iv (keyed e km) = take 12 (drop 64 km)" "eng_read_iv (keyed e km) = take 12 (drop 76 km)"
  by (simp_all add: keyed_def)

text \<open>The builders write the messages behind each other into the response.\<close>

lemma flight_builders:
  assumes c: "context_ok c" and r: "length r = 32" and k: "length k = 48" and resp: "215 \<le> length response"
    and room: "length (transcript c) + 215 \<le> 8192"
    and fits: "sha_fits (length (transcript c) + 105)" "sha_fits (length (transcript c) + 179)"
  defines "m1 \<equiv> hello_message c r" and "m4 \<equiv> verify_message (transcript (flight3 c r k))"
    and "m5 \<equiv> finished_message (flight4 c r k) (transcript (flight4 c r k))"
  shows "ectx e = flight1 c r \<Longrightarrow> build_at axon_build_encrypted_extensions e (m1 @ drop 86 response) 86 =
      Some (0, e\<lparr>ectx := flight2 c r\<rparr>, (m1 @ extensions_message) @ drop 92 response, 92)"
    and "ectx e = (flight2 c r)\<lparr>master_secret := k\<rparr> \<Longrightarrow> build_at axon_build_certificate e ((m1 @ extensions_message) @ drop 92 response) 92 =
      Some (0, e\<lparr>ectx := flight3 c r k\<rparr>, ((m1 @ extensions_message) @ certificate_message) @ drop 105 response, 105)"
    and "ectx e = flight3 c r k \<Longrightarrow>
      build_at axon_build_certificate_verify e (((m1 @ extensions_message) @ certificate_message) @ drop 105 response) 105 =
      Some (0, e\<lparr>ectx := flight4 c r k\<rparr>, (((m1 @ extensions_message) @ certificate_message) @ m4) @ drop 179 response, 179)"
    and "ectx e = flight4 c r k \<Longrightarrow>
      build_at axon_build_finished e ((((m1 @ extensions_message) @ certificate_message) @ m4) @ drop 179 response) 179 =
      Some (0, e\<lparr>ectx := flight5 c r k\<rparr>, ((((m1 @ extensions_message) @ certificate_message) @ m4) @ m5) @ drop 215 response, 215)"
proof -
  note ok = flight_ok [OF c r k] and tr = flight_transcripts [OF c r k room]
  have len: "length m1 = 86" "length m4 = 74" "length m5 = 36"
    using flight_lengths(1,4,5) r ok(5) by (simp_all add: m1_def m4_def m5_def)
  have f: "sha_fits (length (transcript (flight3 c r k)))" "sha_fits (length (transcript (flight4 c r k)))"
    using fits len tr by (simp_all add: m1_def m4_def add.commute add.left_commute)
  show "ectx e = flight1 c r \<Longrightarrow> build_at axon_build_encrypted_extensions e (m1 @ drop 86 response) 86 =
      Some (0, e\<lparr>ectx := flight2 c r\<rparr>, (m1 @ extensions_message) @ drop 92 response, 92)"
    by (rule build_at_prefix)
      (use encrypted_extensions_eq [OF ok(1), of "drop 86 response" 0] resp len in \<open>simp_all add: flight2_def Let_def\<close>)
  show "ectx e = (flight2 c r)\<lparr>master_secret := k\<rparr> \<Longrightarrow> build_at axon_build_certificate e ((m1 @ extensions_message) @ drop 92 response) 92 =
      Some (0, e\<lparr>ectx := flight3 c r k\<rparr>, ((m1 @ extensions_message) @ certificate_message) @ drop 105 response, 105)"
    by (rule build_at_prefix)
      (use certificate_eq [OF ok(3), of "drop 92 response" 0] resp len in \<open>simp_all add: flight3_def Let_def\<close>)
  show "ectx e = flight3 c r k \<Longrightarrow>
      build_at axon_build_certificate_verify e (((m1 @ extensions_message) @ certificate_message) @ drop 105 response) 105 =
      Some (0, e\<lparr>ectx := flight4 c r k\<rparr>, (((m1 @ extensions_message) @ certificate_message) @ m4) @ drop 179 response, 179)"
    by (rule build_at_prefix)
      (use certificate_verify_eq [OF ok(4), of "drop 105 response" 0] resp len f(1)
        in \<open>simp_all add: flight4_def m4_def verify_message_def Let_def\<close>)
  show "ectx e = flight4 c r k \<Longrightarrow>
      build_at axon_build_finished e ((((m1 @ extensions_message) @ certificate_message) @ m4) @ drop 179 response) 179 =
      Some (0, e\<lparr>ectx := flight5 c r k\<rparr>, ((((m1 @ extensions_message) @ certificate_message) @ m4) @ m5) @ drop 215 response, 215)"
    by (rule build_at_prefix)
      (use finished_eq [OF ok(5), of "drop 179 response" 0] resp len f(2)
        in \<open>simp_all add: flight5_def m5_def finished_message_def Let_def\<close>)
qed

lemma server_flight_eq:
  assumes c: "context_ok (ectx eng)" and r: "length r = 32"
    and rnd: "generate_random dev (server_random (ectx eng)) 32 = Some (0, r, dev')"
    and resp: "215 \<le> length response"
    and room: "length (transcript (ectx eng)) + 215 \<le> 8192"
    and fits: "sha_fits (length (transcript (ectx eng)) + 105)" "sha_fits (length (transcript (ectx eng)) + 179)"
  shows "\<exists>k km. length k = 48 \<and> length km = 96 \<and>
    (\<exists>km. okm_stream sha256_of (handshake_prk (hello_context (ectx eng) r)) keys_info 3 = Some km \<and> k = take 48 km) \<and>
    okm_stream sha256_of (handshake_prk (hello_context (ectx eng) r)) tls13_key_info 3 = Some km \<and>
    server_flight dev eng response n =
      Some (0, keyed (eng\<lparr>ectx := flight5 (ectx eng) r k, estate := STATE_SENT_FINISHED\<rparr>) km,
            flight (ectx eng) r k @ drop 215 response, 215, dev')"
proof -
  define c0 where "c0 = ectx eng"
  have c0: "context_ok c0" using c by (simp add: c0_def)
  obtain km where km: "okm_stream sha256_of (handshake_prk (hello_context c0 r)) keys_info 3 = Some km" "length km = 96"
    "axon_derive_handshake_keys (Some (flight2 c0 r)) = Some (Some ((flight2 c0 r)\<lparr>master_secret := take 48 km\<rparr>))"
    using derive_keys_eq [OF flight_ok(2) [OF c0 r, of "replicate 48 0"]] by auto
  define k where "k = take 48 km"
  have k: "length k = 48" using km(2) by (simp add: k_def)
  obtain km' where km': "okm_stream sha256_of (handshake_prk (hello_context c0 r)) tls13_key_info 3 = Some km'" "length km' = 96"
    using derive_engine_keys_eq [of "eng\<lparr>ectx := (flight2 c0 r)\<lparr>master_secret := k\<rparr>\<rparr>"] flight_ok(3) [OF c0 r k] by auto
  have dk: "derive_engine_keys e = Some (keyed e km')" if "ectx e = (flight2 c0 r)\<lparr>master_secret := k\<rparr>" for e
    using derive_engine_keys_eq [of e] flight_ok(3) [OF c0 r k] that km' by (auto simp: keyed_def)
  have b1: "axon_build_server_hello dev (Some c0) (Some response) (Some 0) =
      Some (0, Some (flight1 c0 r), Some (hello_message c0 r @ drop 86 response), Some 86, dev')"
    using server_hello_eq [OF c0 _ r rnd [folded c0_def], of response 0] resp by (simp add: flight1_def hello_message_def)
  have "server_flight dev eng response n = Some (0, keyed (eng\<lparr>ectx := flight5 c0 r k, estate := STATE_SENT_FINISHED\<rparr>) km',
      flight c0 r k @ drop 215 response, 215, dev')"
    using c0_def [symmetric] flight_builders [OF c0 r k resp, folded c0_def] room fits
    by (simp add: server_flight_def Let_def advance_def b1 km(3) k_def [symmetric] dk del: append_assoc machine_Some)
      (simp add: keyed_def flight_def)
  with km km' k show ?thesis unfolding c0_def k_def by blast
qed

section \<open>The handshake on a fragment\<close>

text \<open>
  What the handshake does with the fragment of a record that was accepted; \<open>h\<close> is the heap after the
  fragment has been freed, which happens on every path.
\<close>

definition on_fragment ::
  "urandom \<Rightarrow> axon_engine \<Rightarrow> byte \<Rightarrow> byte list \<Rightarrow> byte list \<Rightarrow> nat \<Rightarrow> heap \<Rightarrow>
   (int \<times> axon_engine ptr \<times> byte list ptr \<times> nat ptr \<times> urandom \<times> heap) option" where
  "on_fragment dev eng ctype frag response resp_len h =
     (let reject = (\<lambda>ret eng. Some (ret, Some (eng\<lparr>estate := STATE_ALERT_SENT\<rparr>), Some response, Some resp_len, dev, h)) in
      if ctype \<noteq> TLS_CONTENT_HANDSHAKE \<or> frag ! 0 \<noteq> TLS_HANDSHAKE_CLIENT_HELLO then reject (-1) eng
      else do {
        version \<leftarrow> rd16 frag 1;
        if version \<noteq> 0x0304 then reject (-1) eng
        else do {
          (ret, ctx) \<leftarrow> axon_parse_client_hello (ectx eng) frag (length frag);
          ctxp \<leftarrow> axon_context_update_hash (Some ctx) (Some frag) (length frag);
          ctx \<leftarrow> ctxp;
          if ret < 0 then reject ret (eng\<lparr>ectx := ctx\<rparr>)
          else do {
            (ret, eng, response, resp_len, dev) \<leftarrow> server_flight dev (eng\<lparr>ectx := ctx\<rparr>) response resp_len;
            Some (ret, Some eng, Some response, Some resp_len, dev, h) } } })"

lemma on_fragment_simps:
  "ctype \<noteq> TLS_CONTENT_HANDSHAKE \<or> frag ! 0 \<noteq> TLS_HANDSHAKE_CLIENT_HELLO \<Longrightarrow>
    on_fragment dev eng ctype frag response n h =
      Some (-1, Some (eng\<lparr>estate := STATE_ALERT_SENT\<rparr>), Some response, Some n, dev, h)"
  "ctype = TLS_CONTENT_HANDSHAKE \<Longrightarrow> frag ! 0 = TLS_HANDSHAKE_CLIENT_HELLO \<Longrightarrow> rd16 frag 1 = None \<Longrightarrow>
    on_fragment dev eng ctype frag response n h = None"
  "ctype = TLS_CONTENT_HANDSHAKE \<Longrightarrow> frag ! 0 = TLS_HANDSHAKE_CLIENT_HELLO \<Longrightarrow> rd16 frag 1 = Some v \<Longrightarrow> v \<noteq> 0x0304 \<Longrightarrow>
    on_fragment dev eng ctype frag response n h =
      Some (-1, Some (eng\<lparr>estate := STATE_ALERT_SENT\<rparr>), Some response, Some n, dev, h)"
  by (auto simp: on_fragment_def)

lemma handshake_null [simp]:
  "axon_engine_handshake dev NULL hellop len resp n h = Some (-1, NULL, resp, n, dev, h)"
  by (simp add: axon_engine_handshake_def)

lemma handshake_reject:
  assumes "len \<le> length hello" "len < 2 ^ 64" "\<not> well_framed hello len"
  shows "axon_engine_handshake dev (Some eng) (Some hello) len (Some response) (Some n) h =
    Some (-1, Some eng, Some response, Some n, dev, h)"
  using record_read_reject [OF assms, of "ectx eng" no_record h] by (auto simp: axon_engine_handshake_def)

lemma handshake_accept:
  assumes "len \<le> length hello" "len < 2 ^ 64" "well_framed hello len" "heap_ok h"
  shows "\<exists>h'. heap_ok h' \<and> blocks h' = blocks h \<and>
    axon_engine_handshake dev (Some eng) (Some hello) len (Some response) (Some n) h =
      (if fst (secure_alloc (frame_len hello) h) = None
       then Some (-1, Some eng, Some response, Some n, dev, h')
       else on_fragment dev eng (hello ! 0) (take (frame_len hello) (drop 5 hello)) response n h')"
proof (cases "fst (secure_alloc (frame_len hello) h)")
  case None
  with record_read_accept [OF assms, of "ectx eng" no_record] show ?thesis
    by (auto simp: axon_engine_handshake_def)
next
  case (Some a)
  let ?n = "frame_len hello" and ?frag = "take (frame_len hello) (drop 5 hello)"
  from record_read_accept [OF assms, of "ectx eng" no_record] Some obtain h1 where h1:
    "heap_ok h1" "blocks h a = None" "blocks h1 = (blocks h)(a \<mapsto> ?frag)"
    "axon_record_read (Some (ectx eng)) (Some hello) len (Some no_record) h =
       Some (0, Some (read_header hello no_record\<lparr>fragment := Some a\<rparr>), h1)" by auto
  have n: "unat (rec_length (read_header hello no_record\<lparr>fragment := Some a\<rparr>)) = ?n"
    by (simp add: read_header_def frame_len_def)
  have len: "length ?frag = ?n" "?frag \<noteq> []" "0 < ?n" using assms(1,3) by (auto simp: well_framed_def)
  obtain h2 where h2: "secure_free (Some a) ?n h1 = Some h2" "heap_ok h2" "blocks h2 = (blocks h1)(a := None)"
    using sec.free_live [OF h1(1), of a ?frag] h1(3) len by auto
  have "rd ?frag 0 = Some (?frag ! 0)" using len by (simp add: rd_def)
  then have "axon_engine_handshake dev (Some eng) (Some hello) len (Some response) (Some n) h =
      on_fragment dev eng (hello ! 0) ?frag response n h2"
    using h1(3,4) h2(1) n len(1)
    by (auto simp: axon_engine_handshake_def on_fragment_def Let_def read_header_def split: Option.bind_splits)
  moreover have "blocks h2 = blocks h" using h2(3) h1(2,3) by (auto simp: fun_upd_idem)
  ultimately show ?thesis using h2(2) Some by auto
qed

section \<open>Properties\<close>

text \<open>A handshake record around a fragment.\<close>

definition handshake_record :: "byte \<Rightarrow> byte \<Rightarrow> byte list \<Rightarrow> byte list" where
  "handshake_record v1 v2 frag = [TLS_CONTENT_HANDSHAKE, v1, v2] @ len16 (length frag) @ frag"

lemma length_handshake_record [simp]: "length (handshake_record v1 v2 frag) = length frag + 5"
  by (simp add: handshake_record_def len16_def)

lemma handshake_record_header:
  assumes "length frag < 65536"
  shows "frame_len (handshake_record v1 v2 frag @ rest) = length frag"
    "(handshake_record v1 v2 frag @ rest) ! 0 = TLS_CONTENT_HANDSHAKE"
    "be16 ((handshake_record v1 v2 frag @ rest) ! 1) ((handshake_record v1 v2 frag @ rest) ! 2) = be16 v1 v2"
    "drop 5 (handshake_record v1 v2 frag @ rest) = frag @ rest"
  using unat_be16_of_nat [OF assms] by (simp_all add: handshake_record_def frame_len_def len16_def)

text \<open>What the handshake makes of a hello in the parser's layout.\<close>

definition heard :: "axon_context \<Rightarrow> byte list \<Rightarrow> u16 \<Rightarrow> byte list \<Rightarrow> axon_context" where
  "heard c rnd s pk = c\<lparr>client_random := rnd, cipher_suite := s, client_pubkey := pk,
     messages_received := messages_received c OR 1\<rparr>"

lemma heard_ok: "context_ok c \<Longrightarrow> length rnd = 32 \<Longrightarrow> length pk = 32 \<Longrightarrow> context_ok (heard c rnd s pk)"
  by (simp add: heard_def context_ok_def)

lemma heard_prk:
  assumes "length rnd = 32" "length r = 32"
  shows "handshake_prk (hello_context (log_add (heard c rnd s pk) m) r) =
    fips_sha256 (xor_bytes rnd r @ x25519_ladder (clamp (server_privkey c)) pk)"
proof -
  have "map (\<lambda>i. rnd ! i XOR r ! i) [0..<32] = xor_bytes rnd r"
    using map_xor_upt [of 32 rnd r] assms by (simp del: upt_rec_numeral)
  then show ?thesis
    by (simp add: handshake_prk_def hello_salt_def hello_context_def heard_def Let_def del: upt_rec_numeral)
qed

lemma generate_random_length:
  assumes "generate_random dev buf len = Some (ret, r, dev')" "len \<le> length buf"
  shows "length r = length buf"
  using generate_random_total [OF assms(2), of dev] assms(1) by auto

lemma heard_logged:
  assumes "context_ok c" "length rnd = 32" "length pk = 32" "length (transcript c) + length frag \<le> 8192"
  shows "context_ok (log_add (heard c rnd s pk) frag)" "transcript (log_add (heard c rnd s pk) frag) = transcript c @ frag"
    "write_key (log_add (heard c rnd s pk) frag) = write_key c" "read_key (log_add (heard c rnd s pk) frag) = read_key c"
    "write_iv (log_add (heard c rnd s pk) frag) = write_iv c" "read_iv (log_add (heard c rnd s pk) frag) = read_iv c"
    "server_random (log_add (heard c rnd s pk) frag) = server_random c"
proof -
  have ok: "context_ok (heard c rnd s pk)" by (rule heard_ok [OF assms(1-3)])
  have tr: "transcript (heard c rnd s pk) = transcript c" by (simp add: heard_def)
  show "context_ok (log_add (heard c rnd s pk) frag)" by (rule tlog.ok_add [OF ok])
  show "transcript (log_add (heard c rnd s pk) frag) = transcript c @ frag"
    using tlog.add_fits [OF ok, of frag] tr assms(4) by simp
qed (simp_all add: log_add_fields heard_def)

text \<open>The hello has been parsed, so the answer is the flight over its context.\<close>

lemma on_fragment_flight:
  assumes "context_ok (ectx eng)" "length rnd = 32" "length pk = 32" "length frag < 2 ^ 63"
    and head: "frag ! 0 = TLS_HANDSHAKE_CLIENT_HELLO" "rd16 frag 1 = Some 0x0304"
    and parse: "axon_parse_client_hello (ectx eng) frag (length frag) = Some (0, heard (ectx eng) rnd s pk)"
    and rnd: "generate_random dev (server_random (ectx eng)) 32 = Some (0, r, dev')"
    and room: "length (transcript (ectx eng)) + length frag + 215 \<le> 8192" "215 \<le> length response"
    and fits: "(length (transcript (ectx eng)) + length frag + 105) mod 64 < 56"
      "(length (transcript (ectx eng)) + length frag + 179) mod 64 < 56"
  defines "c \<equiv> log_add (heard (ectx eng) rnd s pk) frag"
  shows "\<exists>k km. length k = 48 \<and> length km = 96 \<and>
    okm_stream sha256_of (fips_sha256 (xor_bytes rnd r @ x25519_ladder (clamp (server_privkey (ectx eng))) pk))
       tls13_key_info 3 = Some km \<and>
    on_fragment dev eng TLS_CONTENT_HANDSHAKE frag response n h =
      Some (0, Some (keyed (eng\<lparr>ectx := flight5 c r k, estate := STATE_SENT_FINISHED\<rparr>) km),
            Some (flight c r k @ drop 215 response), Some 215, dev', h)"
proof -
  have fit: "length (transcript (ectx eng)) + length frag \<le> 8192" using room(1) by simp
  note L = heard_logged [OF assms(1-3) fit, of s, folded c_def]
  have r: "length r = 32"
    using generate_random_length [OF rnd] assms(1) by (simp add: context_ok_def)
  have upd: "axon_context_update_hash (Some (heard (ectx eng) rnd s pk)) (Some frag) (length frag) = Some (Some c)"
    unfolding c_def using update_hash_eq [OF heard_ok [OF assms(1-3)] order_refl assms(4)] by simp
  have of: "on_fragment dev eng TLS_CONTENT_HANDSHAKE frag response n h =
      do { (ret, eng, response, resp_len, dev) \<leftarrow> server_flight dev (eng\<lparr>ectx := c\<rparr>) response n;
           Some (ret, Some eng, Some response, Some resp_len, dev, h) }"
    by (simp add: on_fragment_def head(1) head(2) [unfolded One_nat_def] parse upd)
  have e: "ectx (eng\<lparr>ectx := c\<rparr>) = c" by simp
  have rnd': "generate_random dev (server_random c) 32 = Some (0, r, dev')" using rnd L(7) by simp
  have room': "length (transcript c) + 215 \<le> 8192" "sha_fits (length (transcript c) + 105)" "sha_fits (length (transcript c) + 179)"
    using room(1) fits by (simp_all add: sha_fits_def L(2))
  from server_flight_eq [of "eng\<lparr>ectx := c\<rparr>" r dev dev' response n, unfolded e, OF L(1) r rnd' room(2) room']
  show ?thesis unfolding of c_def heard_prk [OF assms(2) r] by fastforce
qed

lemma flight_shape:
  assumes "context_ok c" "length r = 32" "length k = 48"
  shows "\<exists>b1 b4 b5. flight c r k = message TLS_HANDSHAKE_SERVER_HELLO b1 @ message TLS_HANDSHAKE_ENCRYPTED_EXTENSIONS [0, 0] @
       message TLS_HANDSHAKE_CERTIFICATE (replicate 9 0) @ message TLS_HANDSHAKE_CERTIFICATE_VERIFY b4 @
       message TLS_HANDSHAKE_FINISHED b5 \<and> length b1 = 82 \<and> length b4 = 70 \<and> length b5 = 32"
proof -
  have "[0, 0, 0, 0, 0, 0, 0, 0, 0] = replicate 9 (0 :: byte)" by (simp add: numeral_eq_Suc)
  moreover have "length (server_hello_body r (cipher_suite c) (server_public_key (hello_context c r))) = 82"
    "length ([4, 3, 0, 0, 0, 0x40] @ signature_of t) = 70" for t
    using assms by (simp_all add: length_server_hello_body hello_context_def Let_def signature_of_def)
  moreover have "length (finished_of (flight4 c r k) t) = 32" for t using flight_ok(5) [OF assms] by simp
  ultimately show ?thesis unfolding flight_def hello_message_def verify_message_def finished_message_def by fastforce
qed

lemma on_fragment_success:
  assumes "context_ok (ectx eng)" "length rnd = 32" "length pk = 32" "length frag < 2 ^ 63"
    and head: "frag ! 0 = TLS_HANDSHAKE_CLIENT_HELLO" "rd16 frag 1 = Some 0x0304"
    and parse: "axon_parse_client_hello (ectx eng) frag (length frag) = Some (0, heard (ectx eng) rnd s pk)"
    and rnd: "generate_random dev (server_random (ectx eng)) 32 = Some (0, r, dev')"
    and room: "length (transcript (ectx eng)) + length frag + 215 \<le> 8192" "215 \<le> length response"
    and fits: "(length (transcript (ectx eng)) + length frag + 105) mod 64 < 56"
      "(length (transcript (ectx eng)) + length frag + 179) mod 64 < 56"
  shows "\<exists>eng' b1 b4 b5 ms km.
     on_fragment dev eng TLS_CONTENT_HANDSHAKE frag response n h =
       Some (0, Some eng', Some (ms @ drop 215 response), Some 215, dev', h) \<and>
     ms = message TLS_HANDSHAKE_SERVER_HELLO b1 @ message TLS_HANDSHAKE_ENCRYPTED_EXTENSIONS [0, 0] @
       message TLS_HANDSHAKE_CERTIFICATE (replicate 9 0) @ message TLS_HANDSHAKE_CERTIFICATE_VERIFY b4 @
       message TLS_HANDSHAKE_FINISHED b5 \<and> length b1 = 82 \<and> length b4 = 70 \<and> length b5 = 32 \<and>
     estate eng' = STATE_SENT_FINISHED \<and> handshake_done (ectx eng') = 1 \<and>
     context_ok (ectx eng') \<and> transcript (ectx eng') = transcript (ectx eng) @ frag @ ms \<and>
     okm_stream sha256_of (fips_sha256 (xor_bytes rnd r @ x25519_ladder (clamp (server_privkey (ectx eng))) pk))
       tls13_key_info 3 = Some km \<and> length km = 96 \<and>
     eng_write_key eng' = take 32 km \<and> eng_read_key eng' = take 32 (drop 32 km) \<and>
     eng_write_iv eng' = take 12 (drop 64 km) \<and> eng_read_iv eng' = take 12 (drop 76 km) \<and>
     write_key (ectx eng') = write_key (ectx eng) \<and> read_key (ectx eng') = read_key (ectx eng) \<and>
     write_iv (ectx eng') = write_iv (ectx eng) \<and> read_iv (ectx eng') = read_iv (ectx eng)"
proof -
  define c where "c = log_add (heard (ectx eng) rnd s pk) frag"
  have fit: "length (transcript (ectx eng)) + length frag \<le> 8192" using room(1) by simp
  note L = heard_logged [OF assms(1-3) fit, of s, folded c_def]
  have r: "length r = 32"
    using generate_random_length [OF rnd] assms(1) by (simp add: context_ok_def)
  have room': "length (transcript c) + 215 \<le> 8192" using room(1) by (simp add: L(2))
  from on_fragment_flight [OF assms(1-4) head parse rnd room fits, of n h, folded c_def] obtain k km where
    k: "length k = 48" "length km = 96"
      "okm_stream sha256_of (fips_sha256 (xor_bytes rnd r @ x25519_ladder (clamp (server_privkey (ectx eng))) pk)) tls13_key_info 3 = Some km"
    and run: "on_fragment dev eng TLS_CONTENT_HANDSHAKE frag response n h =
      Some (0, Some (keyed (eng\<lparr>ectx := flight5 c r k, estate := STATE_SENT_FINISHED\<rparr>) km),
            Some (flight c r k @ drop 215 response), Some 215, dev', h)" by blast
  from flight_shape [OF L(1) r k(1)] obtain b1 b4 b5 where
    "flight c r k = message TLS_HANDSHAKE_SERVER_HELLO b1 @ message TLS_HANDSHAKE_ENCRYPTED_EXTENSIONS [0, 0] @
       message TLS_HANDSHAKE_CERTIFICATE (replicate 9 0) @ message TLS_HANDSHAKE_CERTIFICATE_VERIFY b4 @
       message TLS_HANDSHAKE_FINISHED b5" "length b1 = 82" "length b4 = 70" "length b5 = 32" by blast
  moreover have "context_ok (flight5 c r k)" by (rule flight_ok(6) [OF L(1) r k(1)])
  moreover have "transcript (flight5 c r k) = transcript (ectx eng) @ frag @ flight c r k"
    using flight_transcripts [OF L(1) r k(1) room'] by (simp add: flight_def L(2))
  ultimately show ?thesis
    unfolding run
    by (intro exI [of _ "keyed (eng\<lparr>ectx := flight5 c r k, estate := STATE_SENT_FINISHED\<rparr>) km"]
        exI [of _ b1] exI [of _ b4] exI [of _ b5] exI [of _ "flight c r k"] exI [of _ km])
      (simp add: k L(3-6))
qed

lemma conforming_reject:
  assumes "heap_ok h" and "3 \<le> length frag" "length frag < 65536"
    and frag: "frag ! 0 = TLS_HANDSHAKE_CLIENT_HELLO" "frag ! 1 = 0"
    and hello: "hello = handshake_record v1 v2 frag @ rest" "len \<le> length hello" "len < 2 ^ 64"
  shows "\<exists>eng' h'. axon_engine_handshake dev (Some eng) (Some hello) len (Some response) (Some n) h =
           Some (-1, Some eng', Some response, Some n, dev, h') \<and>
         ectx eng' = ectx eng \<and> estate eng' \<in> {estate eng, STATE_ALERT_SENT} \<and> heap_ok h' \<and> blocks h' = blocks h"
proof (cases "well_framed hello len")
  case False
  with handshake_reject [OF hello(2,3)] assms(1) show ?thesis by auto
next
  case True
  note hdr = handshake_record_header [OF assms(3), of v1 v2 rest, folded hello(1)]
  have cut: "take (frame_len hello) (drop 5 hello) = frag" using hdr by simp
  have "be16 0 b \<noteq> 0x0304" for b
  proof
    assume "be16 0 b = (0x0304 :: u16)"
    then have "bit (be16 0 b) 8 = bit (0x0304 :: u16) 8" by simp
    then show False by (auto simp: be16_def bit_simps dest: bit_imp_le_length)
  qed
  moreover have "rd16 frag 1 = Some (be16 0 (frag ! 2))"
    using assms(2) frag(2) by (simp add: rd16_def rd_def numeral_2_eq_2)
  ultimately have "on_fragment dev eng (hello ! 0) frag response n h' =
      Some (-1, Some (eng\<lparr>estate := STATE_ALERT_SENT\<rparr>), Some response, Some n, dev, h')" for h'
    by (intro on_fragment_simps(3) [OF hdr(2) frag(1)])
  then show ?thesis
    using handshake_accept [OF hello(2,3) True assms(1), of dev eng response n] cut
    by (auto split: if_splits)
qed

text \<open>
  C2. The engine rejects every ClientHello that a conforming client can send in one record. Where the code
  looks for a version, at bytes 1 and 2 of the fragment, a handshake message has the upper bytes of its
  24-bit length, and in a record of at most 65535 bytes the first of them is 0, not 3. Whatever the engine's
  state, the record's version, the memory situation, the bytes behind the record and the length that is passed, the result is -1, nothing is
  written to the response, the context stays as it is and no block of memory is left.
\<close>

theorem conforming_hello_rejected:
  assumes "heap_ok h" and "3 \<le> length frag" "length frag < 65536"
    and frag: "frag ! 0 = TLS_HANDSHAKE_CLIENT_HELLO" "frag ! 1 = 0"
    and hello: "hello = handshake_record v1 v2 frag @ rest" "len \<le> length hello" "len < 2 ^ 64"
  shows "\<exists>eng' h'. axon_engine_handshake dev (Some eng) (Some hello) len (Some response) (Some n) h =
           Some (-1, Some eng', Some response, Some n, dev, h') \<and>
         ectx eng' = ectx eng \<and> estate eng' \<in> {estate eng, STATE_ALERT_SENT} \<and> blocks h' = blocks h"
  using conforming_reject [OF assms, of dev eng response n] by blast

definition idle_engine :: axon_engine where
  "idle_engine = \<lparr>ectx = zero_context, estate = STATE_INIT, eng_write_key = replicate 32 0, eng_read_key = replicate 32 0,
     eng_write_iv = replicate 12 0, eng_read_iv = replicate 12 0, eng_sequence_number = 0\<rparr>"

text \<open>The fragment that \<open>tests/c/test_handshake.c\<close> sends.\<close>

definition test_fragment :: "byte list" where
  "test_fragment = [0x01, 0x00, 0x00, 0x20, 0x03, 0x04] @ map of_nat [0..<32] @ [0x00, 0x02, 0x13, 0x01, 0x01]"

lemma conforming_hello_rejected_witness:
  "\<exists>eng' h'. axon_engine_handshake \<lparr>can_open = False, chunks = []\<rparr> (Some idle_engine) (Some (handshake_record 3 4 test_fragment)) 48
      (Some (replicate 4096 0)) (Some 0) (empty_heap (\<lambda>_. False)) =
    Some (-1, Some eng', Some (replicate 4096 0), Some 0, \<lparr>can_open = False, chunks = []\<rparr>, h') \<and> ectx eng' = zero_context"
proof -
  have "length test_fragment = 43" "test_fragment ! 0 = 1" "test_fragment ! 1 = 0"
    by (simp_all add: test_fragment_def del: upt_rec_numeral)
  then show ?thesis
    using conforming_hello_rejected [OF heap_ok_empty [of "\<lambda>_. False"], of test_fragment
        "handshake_record 3 4 test_fragment" 3 4 "[]" 48 "\<lparr>can_open = False, chunks = []\<rparr>" idle_engine "replicate 4096 0" 0]
    by (auto simp: idle_engine_def message_type_defs)
qed

text \<open>The record with a hello in the layout of the parser.\<close>

lemma handshake_on_layout:
  assumes "heap_ok h"
    and frag: "frag = client_hello_bytes [TLS_HANDSHAKE_CLIENT_HELLO, 3, 4, x] rnd sid suites comps (key_share_ext [a, b, c, d] key @ rest)"
    and sizes: "length rnd = 32" "length key = 32" "length sid < 256" "length comps < 256" "find supported_suite suites = Some s"
    and hello: "hello = handshake_record 3 4 frag" "fst (secure_alloc (length frag) h) \<noteq> NULL"
    and room: "length frag \<le> 8192"
    and pk: "pk = (if 38 + length sid + 2 * length suites + length comps < 42 + length rest then key else client_pubkey (ectx eng))"
  shows "\<exists>h'. axon_engine_handshake dev (Some eng) (Some hello) (length hello) (Some response) (Some n) h =
      on_fragment dev eng TLS_CONTENT_HANDSHAKE frag response n h' \<and> blocks h' = blocks h \<and>
    length frag < 2 ^ 63 \<and> frag ! 0 = TLS_HANDSHAKE_CLIENT_HELLO \<and> rd16 frag 1 = Some 0x0304 \<and>
    axon_parse_client_hello (ectx eng) frag (length frag) = Some (0, heard (ectx eng) rnd s pk)"
proof -
  let ?exts = "key_share_ext [a, b, c, d] key @ rest"
  have ls: "length (concat (map suite_bytes suites)) = 2 * length suites" for suites
    by (induction suites) (simp_all add: suite_bytes_def)
  have le: "length ?exts = 42 + length rest" using sizes(2) by (simp add: key_share_ext_def)
  have lf: "length frag = 42 + length sid + 2 * length suites + length comps + 42 + length rest"
    unfolding frag client_hello_bytes_def using sizes(1) ls [of suites] le by (simp add: len16_def)
  have small: "2 * length suites < 65536" "length ?exts < 65536" "length frag < 65536" "length frag < 2 ^ 63"
    using room lf le by simp_all
  have parse: "axon_parse_client_hello (ectx eng) frag (length frag) = Some (0, heard (ectx eng) rnd s pk)"
    using parse_layout_eq [of "[TLS_HANDSHAKE_CLIENT_HELLO, 3, 4, x]" rnd sid suites comps ?exts a b c d key rest "ectx eng"]
      sizes small(1,2) le by (simp add: frag pk heard_def)
  have head: "frag ! 0 = TLS_HANDSHAKE_CLIENT_HELLO" "rd16 frag 1 = Some 0x0304"
    by (simp_all add: frag client_hello_bytes_def rd16_def rd_def be16_def)
  note hdr = handshake_record_header [OF small(3), of 3 4 "[]", unfolded append_Nil2, folded hello(1)]
  have wf: "well_framed hello (length hello)"
    using hdr small lf by (simp add: well_framed_def hello(1) content_type_defs be16_def)
  have "length hello < 2 ^ 64" using small(3) by (simp add: hello(1))
  from handshake_accept [OF order_refl this wf assms(1), of dev eng response n] hello(2) hdr
  obtain h' where h': "blocks h' = blocks h" "axon_engine_handshake dev (Some eng) (Some hello) (length hello) (Some response) (Some n) h =
      on_fragment dev eng TLS_CONTENT_HANDSHAKE frag response n h'"
    by (auto split: if_splits)
  with small(4) head parse show ?thesis by blast
qed

text \<open>
  C3. A handshake succeeds. For a hello in the layout the parser expects, whose second and third byte are 3 and 4, with
  the memory for the record, 32 random bytes, room for the flight and a transcript that the hash can
  process, the engine answers 0 and 215 bytes: ServerHello, EncryptedExtensions, Certificate, CertificateVerify and
  Finished. Hello and answer are appended to the transcript, the engine's keys are cut from the HKDF chain over
  both randoms and the X25519 secret, and the fragment's block is freed. The state is \<open>STATE_SENT_FINISHED\<close>, with \<open>handshake_done\<close>
  already set before the client's Finished, and the keys that the record layer uses are unchanged: the derived ones
  never get there.
\<close>

theorem handshake_success:
  assumes "context_ok (ectx eng)" "heap_ok h"
    and frag: "frag = client_hello_bytes [TLS_HANDSHAKE_CLIENT_HELLO, 3, 4, x] rnd sid suites comps (key_share_ext [a, b, c, d] key @ rest)"
    and sizes: "length rnd = 32" "length key = 32" "length sid < 256" "length comps < 256" "find supported_suite suites = Some s"
    and hello: "hello = handshake_record 3 4 frag" "fst (secure_alloc (length frag) h) \<noteq> NULL"
    and rnd: "generate_random dev (server_random (ectx eng)) 32 = Some (0, r, dev')"
    and room: "length (transcript (ectx eng)) + length frag + 215 \<le> 8192" "215 \<le> length response"
    and fits: "(length (transcript (ectx eng)) + length frag + 105) mod 64 < 56"
      "(length (transcript (ectx eng)) + length frag + 179) mod 64 < 56"
    and pk: "pk = (if 38 + length sid + 2 * length suites + length comps < 42 + length rest then key else client_pubkey (ectx eng))"
  shows "\<exists>eng' h' b1 b4 b5 ms km.
     axon_engine_handshake dev (Some eng) (Some hello) (length hello) (Some response) (Some n) h =
       Some (0, Some eng', Some (ms @ drop 215 response), Some 215, dev', h') \<and> blocks h' = blocks h \<and>
     ms = message TLS_HANDSHAKE_SERVER_HELLO b1 @ message TLS_HANDSHAKE_ENCRYPTED_EXTENSIONS [0, 0] @
       message TLS_HANDSHAKE_CERTIFICATE (replicate 9 0) @ message TLS_HANDSHAKE_CERTIFICATE_VERIFY b4 @
       message TLS_HANDSHAKE_FINISHED b5 \<and> length b1 = 82 \<and> length b4 = 70 \<and> length b5 = 32 \<and>
     estate eng' = STATE_SENT_FINISHED \<and> handshake_done (ectx eng') = 1 \<and>
     context_ok (ectx eng') \<and> transcript (ectx eng') = transcript (ectx eng) @ frag @ ms \<and>
     okm_stream sha256_of (fips_sha256 (xor_bytes rnd r @ x25519_ladder (clamp (server_privkey (ectx eng))) pk))
       tls13_key_info 3 = Some km \<and> length km = 96 \<and>
     eng_write_key eng' = take 32 km \<and> eng_read_key eng' = take 32 (drop 32 km) \<and>
     eng_write_iv eng' = take 12 (drop 64 km) \<and> eng_read_iv eng' = take 12 (drop 76 km) \<and>
     write_key (ectx eng') = write_key (ectx eng) \<and> read_key (ectx eng') = read_key (ectx eng) \<and>
     write_iv (ectx eng') = write_iv (ectx eng) \<and> read_iv (ectx eng') = read_iv (ectx eng)"
proof -
  have pk32: "length pk = 32" using pk sizes(2) assms(1) by (simp add: context_ok_def)
  have "length frag \<le> 8192" using room(1) by simp
  from handshake_on_layout [OF assms(2) frag sizes hello this pk, of dev response n] obtain h' where h':
    "axon_engine_handshake dev (Some eng) (Some hello) (length hello) (Some response) (Some n) h =
      on_fragment dev eng TLS_CONTENT_HANDSHAKE frag response n h'" "blocks h' = blocks h" "length frag < 2 ^ 63"
    "frag ! 0 = TLS_HANDSHAKE_CLIENT_HELLO" "rd16 frag 1 = Some 0x0304"
    "axon_parse_client_hello (ectx eng) frag (length frag) = Some (0, heard (ectx eng) rnd s pk)" by blast
  from on_fragment_success [OF assms(1) sizes(1) pk32 h'(3-6) rnd room fits, of n h'] h'(2)
  show ?thesis unfolding h'(1) by blast
qed

lemma handshake_success_witness:
  "\<exists>eng' h' ms. axon_engine_handshake \<lparr>can_open = True, chunks = [replicate 32 5]\<rparr> (Some idle_engine)
      (Some (handshake_record 3 4 (client_hello_bytes [1, 3, 4, 0] (replicate 32 7) [] [0x1301] [0]
         (key_share_ext [0, 36, 0, 0x1D] (replicate 32 9) @ [])))) 92
      (Some (replicate 300 0)) (Some 0) (empty_heap (\<lambda>_. False)) =
    Some (0, Some eng', Some (ms @ drop 215 (replicate 300 0)), Some 215, \<lparr>can_open = True, chunks = []\<rparr>, h') \<and>
    estate eng' = STATE_SENT_FINISHED \<and> write_key (ectx eng') = replicate 32 0"
proof -
  let ?f = "client_hello_bytes [TLS_HANDSHAKE_CLIENT_HELLO, 3, 4, 0] (replicate 32 7) [] [0x1301] [0]
         (key_share_ext [0, 36, 0, 0x1D] (replicate 32 9) @ [])"
  have e: "ectx idle_engine = zero_context" by (simp add: idle_engine_def)
  have lf: "length ?f = 87"
    by (simp add: client_hello_bytes_def key_share_ext_def len16_def suite_bytes_def)
  have g: "generate_random \<lparr>can_open = True, chunks = [replicate 32 5]\<rparr> (server_random (ectx idle_engine)) 32 =
      Some (0, replicate 32 5, \<lparr>can_open = True, chunks = []\<rparr>)"
    by (subst generate_random_chunk [of _ _ "replicate 32 5" _ "[]"]) (simp_all add: e)
  have a: "fst (secure_alloc (length ?f) (empty_heap (\<lambda>_. False))) \<noteq> NULL"
    unfolding lf by (simp add: secure_alloc_def Let_def)
  have s: "find supported_suite [0x1301] = Some 0x1301" by (simp add: supported_suite_def cipher_defs)
  show ?thesis
    using handshake_success [OF _ heap_ok_empty refl _ _ _ _ s refl a g _ _ _ _ refl, of "replicate 300 0" 0] lf
    by (auto simp: e message_type_defs simp del: drop_replicate)
qed

end
