(* ===== verification/Axon_Invariant.thy ===== *)
theory Axon_Invariant
  imports Axon_Engine
begin

text \<open>
  What the operations of the engine keep of its context. A \<open>log_invariant\<close> is a predicate that survives the growth of the transcript, and with
  it every message that the server builds; a \<open>context_invariant\<close> also survives the updates that the parser and the key exchange make, and with them
  a whole handshake, whatever the arguments are and at whichever point the handshake stops. Both are proved once for all such predicates, and used for
  the types, here, for the keys of reachable engines, in \<open>Axon_System\<close>, and for the inputs of the key derivation, in \<open>Axon_Listener\<close>.
\<close>

section \<open>Invariants of the context\<close>

locale log_invariant =
  fixes I :: "axon_context \<Rightarrow> bool"
  assumes I_ok: "I c \<Longrightarrow> context_ok c"
    and I_flags: "I (c\<lparr>messages_received := m\<rparr>) = I c" "I (c\<lparr>handshake_done := d\<rparr>) = I c"
    and I_master: "I c \<Longrightarrow> length ms = 48 \<Longrightarrow> I (c\<lparr>master_secret := ms\<rparr>)"
    and I_log: "I c \<Longrightarrow> length buf = length (handshake_buffer c) \<Longrightarrow> n \<le> length buf \<Longrightarrow>
      I (c\<lparr>handshake_buffer := buf, buffer_offset := n\<rparr>)"

locale context_invariant = log_invariant +
  assumes I_suite: "I (c\<lparr>cipher_suite := s\<rparr>) = I c"
    and I_arrays: "I c \<Longrightarrow> length k = 32 \<Longrightarrow> I (c\<lparr>client_random := k\<rparr>)" "I c \<Longrightarrow> length k = 32 \<Longrightarrow> I (c\<lparr>client_pubkey := k\<rparr>)"
      "I c \<Longrightarrow> length k = 32 \<Longrightarrow> I (c\<lparr>server_random := k\<rparr>)"
    and I_exchange: "I c \<Longrightarrow> length pk = 32 \<Longrightarrow> length ss = 32 \<Longrightarrow>
      I (c\<lparr>server_privkey := clamp (server_privkey c), server_public_key := pk, shared_secret := ss\<rparr>)"

text \<open>An engine whose context satisfies the invariant and whose own key arrays have their lengths.\<close>

definition engine_sat :: "(axon_context \<Rightarrow> bool) \<Rightarrow> axon_engine \<Rightarrow> bool" where
  "engine_sat I e \<longleftrightarrow> I (ectx e) \<and> length (eng_write_key e) = 32 \<and> length (eng_read_key e) = 32 \<and>
     length (eng_write_iv e) = 12 \<and> length (eng_read_iv e) = 12"

lemma engine_sat_updates [simp]:
  "engine_sat I (e\<lparr>estate := s\<rparr>) = engine_sat I e" "engine_sat I (advance m e) = engine_sat I e"
  by (simp_all add: engine_sat_def advance_def)

lemma engine_sat_ectx: "engine_sat I e \<Longrightarrow> I c \<Longrightarrow> engine_sat I (e\<lparr>ectx := c\<rparr>)"
  by (simp add: engine_sat_def)

text \<open>A function that adds a message to the transcript and keeps the invariant; it cannot fail.\<close>

definition safe_builder ::
  "(axon_context \<Rightarrow> bool) \<Rightarrow> (axon_context ptr \<Rightarrow> byte list ptr \<Rightarrow> nat ptr \<Rightarrow> build_result) \<Rightarrow> bool" where
  "safe_builder I build \<longleftrightarrow> (\<forall>c out n ret p outp np.
     build (Some c) (Some out) (Some n) = Some (ret, p, outp, np) \<longrightarrow> I c \<longrightarrow> ret = 0 \<and> (\<exists>c'. p = Some c' \<and> I c'))"

lemma rd_bytes_prefix: "i + n \<le> k \<Longrightarrow> rd_bytes xs i n = Some r \<Longrightarrow> rd_bytes (take k xs @ ys) i n = Some r"
  by (auto simp: rd_bytes_def drop_take min_def split: if_splits)

context log_invariant
begin

lemma update_hash_keeps:
  assumes "I c" "axon_context_update_hash (Some c) d len = Some p"
  shows "\<exists>c'. p = Some c' \<and> I c'"
proof -
  from assms(2) consider "p = Some c"
    | x buf y where "rd_bytes y 0 len = Some x" "wr_bytes (handshake_buffer c) (buffer_offset c) x = Some buf"
        "p = Some (c\<lparr>handshake_buffer := buf, buffer_offset := buffer_offset c + len\<rparr>)"
    by (auto simp: axon_context_update_hash_def split: option.splits if_splits Option.bind_splits)
  then show ?thesis
  proof cases
    case 2
    have "length x = len" using 2(1) by (rule rd_bytes_length)
    moreover have "length buf = length (handshake_buffer c)" using 2(2) by (rule wr_bytes_length)
    moreover have "buffer_offset c + length x \<le> length (handshake_buffer c)"
      using 2(2) by (simp add: wr_bytes_def split: if_splits)
    ultimately show ?thesis using 2(3) by (auto intro!: I_log [OF assms(1)])
  qed (use assms(1) in simp)
qed

lemma finish_message_keeps:
  assumes "finish_message c out k flag = Some (ret, p, outp, np)" "I c"
  shows "ret = 0 \<and> (\<exists>c'. p = Some c' \<and> I c')"
  using assms update_hash_keeps [of "c\<lparr>messages_received := messages_received c OR flag\<rparr>"]
  by (auto simp: finish_message_def I_flags split: Option.bind_splits)

lemma safe_builders:
  "safe_builder I axon_build_encrypted_extensions" "safe_builder I axon_build_certificate"
  "safe_builder I axon_build_certificate_verify" "safe_builder I axon_build_finished"
  unfolding safe_builder_def
  by (auto simp: axon_build_encrypted_extensions_def axon_build_certificate_def axon_build_certificate_verify_def
      axon_build_finished_def Let_def I_flags split: Option.bind_splits dest!: finish_message_keeps)

text \<open>The message goes behind what has been written, and only the context of the engine changes.\<close>

lemma build_at_stepE:
  assumes "do { (ret, eng, response, k) \<leftarrow> build_at build e response k;
       if ret < 0 then Some (ret, eng, response, n, dev) else f eng response k } = Some x"
    and "safe_builder I build" "engine_sat I e"
  obtains c response' k' where "f (e\<lparr>ectx := c\<rparr>) response' k' = Some x" "engine_sat I (e\<lparr>ectx := c\<rparr>)" "k \<le> k'"
    "\<And>i n r. i + n \<le> k \<Longrightarrow> rd_bytes response i n = Some r \<Longrightarrow> rd_bytes response' i n = Some r"
proof -
  from assms(1) obtain ret c out k1 where b:
    "build (Some (ectx e)) (Some (drop k response)) (Some 0) = Some (ret, Some c, Some out, Some k1)"
    by (auto simp: build_at_def split: Option.bind_splits)
  from assms(2,3) b have "ret = 0" "I c" unfolding safe_builder_def engine_sat_def by blast+
  with assms(1,3) b show thesis
    by (intro that [of c "take k response @ out" "k + k1"]) (auto simp: build_at_def engine_sat_ectx rd_bytes_prefix)
qed

lemma derive_stepE:
  assumes "do { ctxp \<leftarrow> axon_derive_handshake_keys (Some (ectx e)); ctx \<leftarrow> ctxp;
       eng \<leftarrow> derive_engine_keys (e\<lparr>ectx := ctx\<rparr>); f eng } = Some x" "engine_sat I e"
  obtains c e' where "f e' = Some x" "derive_engine_keys (e\<lparr>ectx := c\<rparr>) = Some e'" "I c" "ectx e' = c" "engine_sat I e'"
proof -
  have I: "I (ectx e)" using assms(2) by (simp add: engine_sat_def)
  from derive_keys_eq [OF I_ok [OF I]] obtain km where km: "length km = 96"
    "axon_derive_handshake_keys (Some (ectx e)) = Some (Some ((ectx e)\<lparr>master_secret := take 48 km\<rparr>))" by blast
  let ?c = "(ectx e)\<lparr>master_secret := take 48 km\<rparr>"
  have c: "I ?c" using km(1) by (intro I_master I) simp
  from derive_engine_keys_eq [of "e\<lparr>ectx := ?c\<rparr>"] I_ok [OF c] obtain e' where
    "derive_engine_keys (e\<lparr>ectx := ?c\<rparr>) = Some e'" "ectx e' = ?c" "engine_sat I e'" using c by (auto simp: engine_sat_def)
  with that [of e' ?c] c km(2) assms(1) show thesis by simp
qed

end

context context_invariant
begin

lemma server_hello_keeps:
  assumes "axon_build_server_hello dev (Some c) (Some out) (Some n) = Some (ret, p, outp, np, dev')" "I c"
  shows "ret \<in> {0, -1} \<and> (\<exists>c'. p = Some c' \<and> I c')"
proof -
  obtain ret1 r dev1 where g: "generate_random dev (server_random c) 32 = Some (ret1, r, dev1)" "length r = 32" "ret1 \<in> {0, -1}"
    using generate_random_total [of 32 "server_random c" dev] I_ok [OF assms(2)]
    by (auto simp: context_ok_def)
  let ?c = "c\<lparr>server_random := r\<rparr>"
  have u: "I ?c" by (rule I_arrays(3) [OF assms(2) g(2)])
  let ?k = "clamp (server_privkey c)"
  have len: "length (server_privkey c) = 32" "length (server_public_key c) = 32" "length (shared_secret c) = 32"
    "length (client_pubkey c) = 32" "length ?k = 32"
    using I_ok [OF assms(2)] by (simp_all add: context_ok_def)
  let ?d = "?c\<lparr>server_privkey := ?k, server_public_key := x25519_ladder ?k BASE_POINT, shared_secret := x25519_ladder ?k (client_pubkey c)\<rparr>"
  have d: "I ?d" using I_exchange [OF u, of "x25519_ladder ?k BASE_POINT" "x25519_ladder ?k (client_pubkey c)"] by simp
  show ?thesis
  proof (cases "ret1 < 0")
    case True
    with assms(1) g u show ?thesis by (auto simp: axon_build_server_hello_def Let_def)
  next
    case False
    with assms(1) g d len show ?thesis
      by (auto simp: axon_build_server_hello_def Let_def generate_keypair_eq shared_secret_eq
          split: Option.bind_splits dest!: finish_message_keeps)
  qed
qed

lemma ext_loop_keeps: "ext_loop c data len n offset = Some c' \<Longrightarrow> I c \<Longrightarrow> I c'"
  by (auto dest!: ext_loop_returns intro: I_arrays)

lemma parse_keeps:
  assumes "axon_parse_client_hello c data len = Some (ret, c')" "I c"
  shows "ret \<in> {0, -1} \<and> I c'"
  using assms
  by (auto simp: axon_parse_client_hello_def Let_def I_arrays I_flags I_suite
      split: if_splits Option.bind_splits option.splits dest!: rd_bytes_length ext_loop_keeps)

lemma server_flight_keeps:
  assumes "server_flight dev e response n = Some (ret, e', response', n', dev')" "engine_sat I e"
  shows "engine_sat I e' \<and>
    (ret = 0 \<and> estate e' = STATE_SENT_FINISHED \<or> ret = -1 \<and> estate e' = STATE_WAITING_CLIENT_HELLO)"
proof -
  have I: "I (ectx e)" using assms(2) by (simp add: engine_sat_def)
  from assms(1) obtain ret1 ctxp outp np dev1 where sh:
    "axon_build_server_hello dev (Some (ectx e)) (Some response) (Some 0) = Some (ret1, ctxp, outp, np, dev1)"
    by (auto simp: server_flight_def Let_def split: Option.bind_splits)
  from server_hello_keeps [OF sh I] obtain c1 where c1: "ret1 \<in> {0, -1}" "ctxp = Some c1" "I c1" by blast
  from assms(1) sh c1 obtain resp1 k1 where r1: "outp = Some resp1" "np = Some k1"
    by (auto simp: server_flight_def Let_def split: Option.bind_splits)
  show ?thesis
  proof (cases "ret1 < 0")
    case True
    with assms sh c1 r1 show ?thesis
      by (auto simp: server_flight_def Let_def axon_state_machine_def engine_sat_ectx)
  next
    case False
    with assms(1) show ?thesis
      apply (simp add: server_flight_def Let_def sh c1(2) r1)
      apply (unfold Let_def)
      apply (elim build_at_stepE [OF _ safe_builders(1)] build_at_stepE [OF _ safe_builders(2)]
          build_at_stepE [OF _ safe_builders(3)] build_at_stepE [OF _ safe_builders(4)] derive_stepE)
      using c1(3) assms(2) apply (simp_all add: engine_sat_ectx)
      apply auto
      done
  qed
qed

text \<open>One handshake, from the arguments to the answer.\<close>

lemma handshake_keeps:
  assumes "axon_engine_handshake dev (Some e) hellop len responsep resp_lenp h =
      Some (ret, p, response', resp_len', d, h')" "engine_sat I e" "heap_ok h"
  shows "\<exists>e'. p = Some e' \<and> engine_sat I e' \<and> heap_ok h' \<and> blocks h' = blocks h \<and>
    (ret = 0 \<and> estate e' = STATE_SENT_FINISHED \<or>
     ret = -1 \<and> estate e' \<in> {estate e, STATE_ALERT_SENT, STATE_WAITING_CLIENT_HELLO})"
proof (cases "hellop = NULL \<or> responsep = NULL \<or> resp_lenp = NULL")
  case True
  with assms show ?thesis by (auto simp: axon_engine_handshake_def split: option.splits)
next
  case False
  then obtain hello response resp_len where args: "hellop = Some hello" "responsep = Some response" "resp_lenp = Some resp_len"
    by auto
  with assms(1) obtain ret1 p1 h1 where rr: "axon_record_read (Some (ectx e)) (Some hello) len (Some no_record) h = Some (ret1, p1, h1)"
    by (auto simp: axon_engine_handshake_def split: Option.bind_splits)
  from record_read_returns [OF rr assms(3)] obtain r where r: "heap_ok h1" "p1 = Some r"
    "ret1 = -1 \<and> blocks h1 = blocks h \<or> ret1 = 0 \<and> (\<exists>a frag. fragment r = Some a \<and> blocks h a = None \<and>
       blocks h1 = (blocks h)(a \<mapsto> frag) \<and> length frag = unat (rec_length r) \<and> frag \<noteq> [])" by blast
  from r(3) show ?thesis
  proof (elim disjE conjE exE)
    assume "ret1 = -1" "blocks h1 = blocks h"
    with assms args rr r(1,2) show ?thesis by (auto simp: axon_engine_handshake_def)
  next
    fix a frag
    assume f: "ret1 = 0" "fragment r = Some a" "blocks h a = None" "blocks h1 = (blocks h)(a \<mapsto> frag)"
      "length frag = unat (rec_length r)" "frag \<noteq> []"
    obtain h2 where h2: "secure_free (Some a) (unat (rec_length r)) h1 = Some h2" "heap_ok h2" "blocks h2 = (blocks h1)(a := None)"
      using sec.free_live [OF r(1), of a frag] f by auto
    have b2: "blocks h2 = blocks h" using h2(3) f(3,4) by (auto simp: fun_upd_idem)
    have I: "I (ectx e)" using assms(2) by (simp add: engine_sat_def)
    show ?thesis
      using assms(1,2) args rr r(2) f h2(1,2) b2 I
      by (auto simp: axon_engine_handshake_def Let_def engine_sat_ectx split: if_splits Option.bind_splits
          dest!: parse_keeps update_hash_keeps [rotated] server_flight_keeps)
  qed
qed

end

section \<open>Types\<close>

definition engine_ok :: "axon_engine \<Rightarrow> bool" where
  "engine_ok e \<longleftrightarrow> context_ok (ectx e) \<and> length (eng_write_key e) = 32 \<and> length (eng_read_key e) = 32 \<and>
     length (eng_write_iv e) = 12 \<and> length (eng_read_iv e) = 12"

lemma engine_ok_sat: "engine_ok e = engine_sat context_ok e"
  by (simp add: engine_ok_def engine_sat_def)

interpretation types: context_invariant context_ok
  by unfold_locales (auto simp: context_ok_def)

lemma encrypt_keeps:
  assumes "axon_engine_encrypt (Some e) pt len ct n = Some (ret, p, ct', n')" "engine_ok e"
  shows "\<exists>e'. p = Some e' \<and> engine_ok e' \<and> estate e' = estate e \<and> ret \<in> {0, -1}"
  using assms
  by (auto simp: axon_engine_encrypt_def engine_ok_def split: if_splits option.splits Option.bind_splits
      dest!: record_encrypt_returns)

lemma decrypt_keeps:
  assumes "axon_engine_decrypt (Some e) ct len pt n h = Some (ret, p, pt', n', h')" "engine_ok e" "heap_ok h"
  shows "\<exists>e'. p = Some e' \<and> engine_ok e' \<and> ret \<in> {0, -1} \<and> heap_ok h' \<and> blocks h \<subseteq>\<^sub>m blocks h' \<and>
    (ret = 0 \<longrightarrow> blocks h' = blocks h)"
proof (cases "estate e \<noteq> STATE_HANDSHAKE_COMPLETE \<or> ct = NULL \<or> pt = NULL \<or> n = NULL")
  case True
  with assms show ?thesis by (auto simp: axon_engine_decrypt_def split: option.splits)
next
  case False
  then obtain d out m where args: "ct = Some d" "pt = Some out" "n = Some m" by auto
  with assms(1) False obtain ret1 p1 h1 where rr: "axon_record_read (Some (ectx e)) (Some d) len (Some no_record) h = Some (ret1, p1, h1)"
    by (auto simp: axon_engine_decrypt_def split: Option.bind_splits)
  from record_read_returns [OF rr assms(3)] obtain r where r: "heap_ok h1" "p1 = Some r"
    "ret1 = -1 \<and> blocks h1 = blocks h \<or> ret1 = 0 \<and> (\<exists>a frag. fragment r = Some a \<and> blocks h a = None \<and>
       blocks h1 = (blocks h)(a \<mapsto> frag) \<and> length frag = unat (rec_length r) \<and> frag \<noteq> [])" by blast
  from r(3) show ?thesis
  proof (elim disjE conjE exE)
    assume "ret1 = -1" "blocks h1 = blocks h"
    with assms False args rr r(1,2) show ?thesis by (auto simp: axon_engine_decrypt_def)
  next
    fix a frag
    assume f: "ret1 = 0" "fragment r = Some a" "blocks h a = None" "blocks h1 = (blocks h)(a \<mapsto> frag)"
      "length frag = unat (rec_length r)" "frag \<noteq> []"
    obtain h2 where h2: "secure_free (Some a) (unat (rec_length r)) h1 = Some h2" "heap_ok h2" "blocks h2 = (blocks h1)(a := None)"
      using sec.free_live [OF r(1), of a frag] f by auto
    have b: "(blocks h1)(a := None) = blocks h" "blocks h \<subseteq>\<^sub>m blocks h1"
      using f(3,4) by (auto simp: fun_upd_idem map_le_def)
    note dec = record_decrypt_returns [OF _ r(1) f(2) _ f(5,6)]
    show ?thesis
      using assms(1,2) False args rr r(2) f(1-4) h2 b
      by (auto simp: axon_engine_decrypt_def engine_ok_def split: if_splits Option.bind_splits dest!: dec)
  qed
qed

section \<open>Properties\<close>

text \<open>
  C7. The engine is type-safe in use: from any well-formed engine, in any protocol state, with any arguments whatever (null pointers, wrong lengths,
  hostile records), every call of the interface that is defined answers 0 or -1 and leaves a well-formed engine whose arrays
  all have their lengths, and a heap whose released blocks were wiped. A handshake keeps the allocated blocks as they were and succeeds in \<open>STATE_SENT_FINISHED\<close> only; a decryption loses none of the caller's, and adds none when it succeeds.
\<close>

theorem engine_types:
  assumes "engine_ok e" "heap_ok h"
  shows "(\<forall>dev hello len response n ret p response' n' dev' h'.
       axon_engine_handshake dev (Some e) hello len response n h = Some (ret, p, response', n', dev', h') \<longrightarrow>
       (\<exists>e'. p = Some e' \<and> engine_ok e' \<and> heap_ok h' \<and> blocks h' = blocks h \<and>
         (ret = 0 \<and> estate e' = STATE_SENT_FINISHED \<or>
          ret = -1 \<and> estate e' \<in> {estate e, STATE_ALERT_SENT, STATE_WAITING_CLIENT_HELLO}))) \<and>
     (\<forall>pt len ct n ret p ct' n'. axon_engine_encrypt (Some e) pt len ct n = Some (ret, p, ct', n') \<longrightarrow>
       (\<exists>e'. p = Some e' \<and> engine_ok e' \<and> estate e' = estate e \<and> ret \<in> {0, -1})) \<and>
     (\<forall>ct len pt n ret p pt' n' h'. axon_engine_decrypt (Some e) ct len pt n h = Some (ret, p, pt', n', h') \<longrightarrow>
       (\<exists>e'. p = Some e' \<and> engine_ok e' \<and> ret \<in> {0, -1} \<and> heap_ok h' \<and> blocks h \<subseteq>\<^sub>m blocks h' \<and>
         (ret = 0 \<longrightarrow> blocks h' = blocks h))) \<and>
     (\<exists>e'. axon_engine_reset (Some e) = Some e' \<and> engine_ok e' \<and> estate e' = STATE_INIT)"
proof (intro conjI allI impI)
  show "\<exists>e'. axon_engine_reset (Some e) = Some e' \<and> engine_ok e' \<and> estate e' = STATE_INIT"
    using assms(1) by (simp add: axon_engine_reset_def axon_context_wipe_def engine_ok_def)
  show "\<exists>e'. p = Some e' \<and> engine_ok e' \<and> heap_ok h' \<and> blocks h' = blocks h \<and>
      (ret = 0 \<and> estate e' = STATE_SENT_FINISHED \<or>
       ret = -1 \<and> estate e' \<in> {estate e, STATE_ALERT_SENT, STATE_WAITING_CLIENT_HELLO})"
    if "axon_engine_handshake dev (Some e) hello len response n h = Some (ret, p, response', n', dev', h')"
    for dev hello len response n ret p response' n' dev' h'
    using types.handshake_keeps [OF that _ assms(2)] assms(1) by (auto simp: engine_ok_sat)
  show "\<exists>e'. p = Some e' \<and> engine_ok e' \<and> estate e' = estate e \<and> ret \<in> {0, -1}"
    if "axon_engine_encrypt (Some e) pt len ct n = Some (ret, p, ct', n')" for pt len ct n ret p ct' n'
    using encrypt_keeps [OF that assms(1)] .
  show "\<exists>e'. p = Some e' \<and> engine_ok e' \<and> ret \<in> {0, -1} \<and> heap_ok h' \<and> blocks h \<subseteq>\<^sub>m blocks h' \<and>
      (ret = 0 \<longrightarrow> blocks h' = blocks h)"
    if "axon_engine_decrypt (Some e) ct len pt n h = Some (ret, p, pt', n', h')" for ct len pt n ret p pt' n' h'
    using decrypt_keeps [OF that assms] .
qed

lemma engine_types_witness:
  "\<exists>e'. axon_engine_handshake \<lparr>can_open = False, chunks = []\<rparr> (Some idle_engine) (Some [0x15, 3, 3, 0, 0]) 5 (Some []) (Some 0)
     (empty_heap (\<lambda>_. False)) = Some (-1, Some e', Some [], Some 0, \<lparr>can_open = False, chunks = []\<rparr>, empty_heap (\<lambda>_. False)) \<and>
   engine_ok e'"
proof -
  have run: "axon_engine_handshake \<lparr>can_open = False, chunks = []\<rparr> (Some idle_engine) (Some [0x15, 3, 3, 0, 0]) 5 (Some []) (Some 0)
     (empty_heap (\<lambda>_. False)) = Some (-1, Some idle_engine, Some [], Some 0, \<lparr>can_open = False, chunks = []\<rparr>, empty_heap (\<lambda>_. False))"
    by (simp add: axon_engine_handshake_def axon_record_read_def rd_def be16_def size_sub_def content_type_defs)
  have "engine_ok idle_engine" by (simp add: engine_ok_def idle_engine_def)
  from engine_types [THEN conjunct1, rule_format, OF this heap_ok_empty run] show ?thesis by (auto simp: run)
qed

end
