(* ===== verification/Axon_System.thy ===== *)
theory Axon_System
  imports Axon_Invariant
begin

text \<open>
  The library in use: one client that creates an engine, calls its functions in any order and with any arguments,
  and destroys it, over the heap of the secure allocator and the random source. A world is reachable when such a
  client can get there; the properties are invariants over all of them, whatever the network delivers,
  whichever allocations fail and whatever the random source supplies.
\<close>

section \<open>Steps of a client\<close>

text \<open>A call of the engine changes the struct that the block of the engine holds, so the block has its bytes after every step.\<close>

record world =
  wheap :: heap
  wdev :: urandom
  weng :: "(nat \<times> axon_engine) ptr"

definition fresh_world :: "(nat \<Rightarrow> bool) \<Rightarrow> urandom \<Rightarrow> world" where
  "fresh_world f dev = \<lparr>wheap = empty_heap f, wdev = dev, weng = NULL\<rparr>"

inductive axon_step :: "world \<Rightarrow> world \<Rightarrow> bool" where
  step_create: "weng w = NULL \<Longrightarrow> axon_engine_create (wheap w) = (p, h) \<Longrightarrow>
    axon_step w (w\<lparr>wheap := h, weng := p\<rparr>)"
| step_destroy: "axon_engine_destroy (weng w) (wheap w) = Some h \<Longrightarrow>
    axon_step w (w\<lparr>wheap := h, weng := NULL\<rparr>)"
| step_handshake: "weng w = Some (a, e) \<Longrightarrow>
    axon_engine_handshake (wdev w) (Some e) hello len response resp_len (wheap w) =
      Some (ret, Some e', response', resp_len', d, h) \<Longrightarrow>
    axon_step w (w\<lparr>wheap := save_engine a e' h, wdev := d, weng := Some (a, e')\<rparr>)"
| step_encrypt: "weng w = Some (a, e) \<Longrightarrow>
    axon_engine_encrypt (Some e) plaintext len ciphertext out_len = Some (ret, Some e', ciphertext', out_len') \<Longrightarrow>
    axon_step w (w\<lparr>wheap := save_engine a e' (wheap w), weng := Some (a, e')\<rparr>)"
| step_decrypt: "weng w = Some (a, e) \<Longrightarrow>
    axon_engine_decrypt (Some e) ciphertext len plaintext out_len (wheap w) =
      Some (ret, Some e', plaintext', out_len', h) \<Longrightarrow>
    axon_step w (w\<lparr>wheap := save_engine a e' h, weng := Some (a, e')\<rparr>)"
| step_reset: "weng w = Some (a, e) \<Longrightarrow> axon_engine_reset (Some e) = Some e' \<Longrightarrow>
    axon_step w (w\<lparr>wheap := save_engine a e' (wheap w), weng := Some (a, e')\<rparr>)"

definition reachable :: "world \<Rightarrow> bool" where
  "reachable w \<longleftrightarrow> (\<exists>f dev. axon_step\<^sup>*\<^sup>* (fresh_world f dev) w)"

section \<open>What the operations keep\<close>

definition unkeyed :: "axon_context \<Rightarrow> bool" where
  "unkeyed c \<longleftrightarrow> context_ok c \<and> write_key c = replicate 32 0 \<and> read_key c = replicate 32 0 \<and>
     write_iv c = replicate 12 0 \<and> read_iv c = replicate 12 0 \<and> sequence_number c = 0 \<and>
     server_privkey c \<in> {replicate 32 0, clamp (replicate 32 0)}"

definition engine_inv :: "axon_engine \<Rightarrow> bool" where
  "engine_inv e \<longleftrightarrow> engine_sat unkeyed e \<and>
     estate e \<in> {STATE_INIT, STATE_ALERT_SENT, STATE_WAITING_CLIENT_HELLO, STATE_SENT_FINISHED}"

definition world_inv :: "world \<Rightarrow> bool" where
  "world_inv w \<longleftrightarrow> heap_ok (wheap w) \<and>
     (case weng w of
        None \<Rightarrow> blocks (wheap w) = Map.empty
      | Some (a, e) \<Rightarrow> engine_inv e \<and> blocks (wheap w) = [a \<mapsto> engine_bytes e])"

lemma unkeyed_init [simp]: "unkeyed (axon_context_init c)" "unkeyed zero_context"
  by (simp_all add: unkeyed_def axon_context_init_def)

lemma clamp_zero: "clamp (clamp (replicate 32 0)) = clamp (replicate 32 0)"
  by code_simp

interpretation unkeyed: context_invariant unkeyed
  by unfold_locales (auto simp: unkeyed_def clamp_zero context_ok_def)

section \<open>Every step keeps the invariant\<close>

lemma handshake_inv:
  assumes "axon_engine_handshake dev (Some e) hellop len responsep resp_lenp h =
      Some (ret, Some e', response', resp_len', d, h')" "engine_inv e" "heap_ok h"
  shows "engine_inv e' \<and> heap_ok h' \<and> blocks h' = blocks h"
  using unkeyed.handshake_keeps [OF assms(1) _ assms(3)] assms(2) by (auto simp: engine_inv_def)

lemma application_closed:
  assumes "estate e \<noteq> STATE_HANDSHAKE_COMPLETE"
  shows "axon_engine_encrypt (Some e) p len c n = Some (-1, Some e, c, n)"
    and "axon_engine_decrypt (Some e) c len p n h = Some (-1, Some e, p, n, h)"
  using assms by (simp_all add: axon_engine_encrypt_def axon_engine_decrypt_def split: option.splits)

lemma reset_inv: "axon_engine_reset (Some e) = Some e' \<Longrightarrow> engine_inv e \<Longrightarrow> engine_inv e'"
  by (auto simp: axon_engine_reset_def axon_context_wipe_def engine_inv_def engine_sat_def)

lemma create_inv:
  assumes "axon_engine_create h = (p, h')" "heap_ok h" "blocks h = Map.empty"
  shows "world_inv \<lparr>wheap = h', wdev = d, weng = p\<rparr>"
proof (cases p)
  case None
  with engine_create_heap [OF assms(1,2)] assms(3) show ?thesis by (simp add: world_inv_def)
next
  case (Some q)
  obtain a e where q: "q = (a, e)" by fastforce
  with Some assms(1) have "engine_inv e"
    by (auto simp: axon_engine_create_def Let_def engine_inv_def engine_sat_def split: prod.splits option.splits)
  with engine_create_heap [OF assms(1,2)] assms(3) Some q show ?thesis by (simp add: world_inv_def)
qed

lemma destroy_inv:
  assumes "world_inv w" "axon_engine_destroy (weng w) (wheap w) = Some h"
  shows "heap_ok h \<and> blocks h = Map.empty"
proof (cases "weng w")
  case None
  with assms show ?thesis by (auto simp: world_inv_def axon_engine_destroy_def)
next
  case (Some q)
  obtain a e where q: "q = (a, e)" by fastforce
  with assms(1) Some have "heap_ok (wheap w)" "blocks (wheap w) a = Some (engine_bytes e)"
    "length (eng_write_key e) = 32" "length (eng_read_key e) = 32" "length (eng_write_iv e) = 12" "length (eng_read_iv e) = 12"
    by (simp_all add: world_inv_def engine_inv_def engine_sat_def)
  from engine_destroy_heap [OF this] assms Some q show ?thesis by (auto simp: world_inv_def)
qed

text \<open>The engine that a step leaves is saved in its block.\<close>

lemma saved_inv:
  assumes "world_inv w" "weng w = Some (a, e)" "engine_inv e'" "heap_ok h" "blocks h = blocks (wheap w)"
  shows "world_inv (w\<lparr>wheap := save_engine a e' h, wdev := d, weng := Some (a, e')\<rparr>)"
  using assms heap_ok_save [OF assms(4), of a] by (simp add: world_inv_def)

lemma axon_step_inv: "axon_step w w' \<Longrightarrow> world_inv w \<Longrightarrow> world_inv w'"
proof (induction rule: axon_step.induct)
  case (step_create w p h)
  then have "heap_ok (wheap w)" "blocks (wheap w) = Map.empty" by (simp_all add: world_inv_def)
  from create_inv [OF step_create(2) this, of "wdev w"] show ?case
    by (simp add: world_inv_def split: option.splits prod.splits)
next
  case (step_destroy w h)
  from destroy_inv [OF step_destroy(2,1)] show ?case by (simp add: world_inv_def)
next
  case (step_handshake w a e hello len response resp_len ret e' response' resp_len' d h)
  then have "engine_inv e" "heap_ok (wheap w)" by (simp_all add: world_inv_def)
  from handshake_inv [OF step_handshake(2) this] show ?case
    by (intro saved_inv [OF step_handshake(3,1)]) simp_all
next
  case (step_encrypt w a e plaintext len ciphertext out_len ret e' ciphertext' out_len')
  then have "engine_inv e'" "heap_ok (wheap w)" by (auto simp: world_inv_def engine_inv_def application_closed)
  from saved_inv [OF step_encrypt(3,1) this refl, of "wdev w"] show ?case by simp
next
  case (step_decrypt w a e ciphertext len plaintext out_len ret e' plaintext' out_len' h)
  then have "engine_inv e'" "heap_ok h" "blocks h = blocks (wheap w)"
    by (auto simp: world_inv_def engine_inv_def application_closed)
  from saved_inv [OF step_decrypt(3,1) this, of "wdev w"] show ?case by simp
next
  case (step_reset w a e e')
  then have "engine_inv e'" "heap_ok (wheap w)" using reset_inv [OF step_reset(2)] by (simp_all add: world_inv_def)
  from saved_inv [OF step_reset(3,1) this refl, of "wdev w"] show ?case by simp
qed

lemma reachable_inv: "reachable w \<Longrightarrow> world_inv w"
proof -
  assume "reachable w"
  then obtain f dev where "axon_step\<^sup>*\<^sup>* (fresh_world f dev) w" by (auto simp: reachable_def)
  then show ?thesis
  proof (induction rule: rtranclp_induct)
    case base
    then show ?case by (simp add: fresh_world_def world_inv_def heap_ok_empty)
  next
    case (step y z)
    then show ?case by (blast intro: axon_step_inv)
  qed
qed

lemma reachable_fresh: "reachable (fresh_world f dev)"
  by (auto simp: reachable_def)

lemma reachable_step: "reachable w \<Longrightarrow> axon_step w w' \<Longrightarrow> reachable w'"
  by (auto simp: reachable_def intro: rtranclp.rtrancl_into_rtrancl)

text \<open>The world after a successful creation.\<close>

definition new_engine :: axon_engine where
  "new_engine = \<lparr>ectx = axon_context_init zero_context, estate = STATE_INIT, eng_write_key = replicate 32 0,
     eng_read_key = replicate 32 0, eng_write_iv = replicate 12 0, eng_read_iv = replicate 12 0, eng_sequence_number = 0\<rparr>"

lemma create_step:
  assumes "\<not> f 0"
  shows "\<exists>w. axon_step (fresh_world f dev) w \<and> weng w = Some (0, new_engine) \<and> wdev w = dev \<and> mfail (wheap w) = f \<and>
    next_addr (wheap w) = 1 \<and> heap_ok (wheap w)"
proof -
  obtain h where h: "axon_engine_create (empty_heap f) = (Some (0, new_engine), h)" "mfail h = f" "next_addr h = 1"
    using assms by (simp add: axon_engine_create_def secure_alloc_def sizeof_engine_def new_engine_def Let_def)
  have s: "axon_step (fresh_world f dev) ((fresh_world f dev)\<lparr>wheap := h, weng := Some (0, new_engine)\<rparr>)"
    by (rule step_create) (simp_all add: fresh_world_def h)
  moreover have "heap_ok h"
    using reachable_inv [OF reachable_step [OF reachable_fresh s]] by (simp add: world_inv_def)
  ultimately show ?thesis using h(2,3) by (intro exI conjI) (assumption | simp add: fresh_world_def)+
qed

section \<open>A handshake from any point\<close>

text \<open>A hello that the parser accepts, and what the engine makes of it when its context is fresh.\<close>

definition first_hello :: "byte list" where
  "first_hello = client_hello_bytes [TLS_HANDSHAKE_CLIENT_HELLO, 3, 4, 0] (replicate 32 7) [] [0x1301] [0]
     (key_share_ext [0, 36, 0, 0x1D] (replicate 32 9) @ [])"

lemma length_first_hello: "length first_hello = 87"
  by (simp add: first_hello_def client_hello_bytes_def key_share_ext_def len16_def suite_bytes_def)

text \<open>The five messages of the flight.\<close>

definition is_flight :: "byte list \<Rightarrow> bool" where
  "is_flight ms \<longleftrightarrow> (\<exists>b1 b4 b5.
     ms = message TLS_HANDSHAKE_SERVER_HELLO b1 @ message TLS_HANDSHAKE_ENCRYPTED_EXTENSIONS [0, 0] @
       message TLS_HANDSHAKE_CERTIFICATE (replicate 9 0) @ message TLS_HANDSHAKE_CERTIFICATE_VERIFY b4 @
       message TLS_HANDSHAKE_FINISHED b5 \<and> length b1 = 82 \<and> length b4 = 70 \<and> length b5 = 32)"

lemma first_handshake:
  assumes "heap_ok h" "ectx e = axon_context_init c" "\<not> mfail h (next_addr h)" "can_open dev" "chunks dev = r # cs" "length r = 32"
    and "215 \<le> length response"
  shows "\<exists>e' ms h'.
    axon_engine_handshake dev (Some e) (Some (handshake_record 3 4 first_hello)) 92 (Some response) (Some n) h =
      Some (0, Some e', Some (ms @ drop 215 response), Some 215, dev\<lparr>chunks := cs\<rparr>, h') \<and>
    is_flight ms \<and> estate e' = STATE_SENT_FINISHED \<and> handshake_done (ectx e') = 1 \<and> transcript (ectx e') = first_hello @ ms"
proof -
  have t: "transcript (ectx e) = []" "length (server_random (ectx e)) = 32" "context_ok (ectx e)"
    by (simp_all add: assms(2) axon_context_init_def transcript_def context_ok_def)
  have g: "generate_random dev (server_random (ectx e)) 32 = Some (0, r, dev\<lparr>chunks := cs\<rparr>)"
    by (rule generate_random_chunk [OF t(2) assms(6) _ assms(4,5)]) simp
  have a: "fst (secure_alloc (length first_hello) h) \<noteq> NULL"
    using assms(3) by (simp add: length_first_hello secure_alloc_def Let_def)
  have s: "find supported_suite [0x1301] = Some 0x1301" by (simp add: supported_suite_def cipher_defs)
  obtain h' where h': "axon_engine_handshake dev (Some e) (Some (handshake_record 3 4 first_hello)) 92 (Some response) (Some n) h =
        on_fragment dev e TLS_CONTENT_HANDSHAKE first_hello response n h'" "length first_hello < 2 ^ 63"
    "first_hello ! 0 = TLS_HANDSHAKE_CLIENT_HELLO" "rd16 first_hello 1 = Some 0x0304"
    "axon_parse_client_hello (ectx e) first_hello (length first_hello) = Some (0, heard (ectx e) (replicate 32 7) 0x1301 (replicate 32 9))"
    using handshake_on_layout [OF assms(1) first_hello_def _ _ _ _ s refl a _ refl,
        where eng = e and dev = dev and response = response and n = n] by (auto simp: length_first_hello)
  have pre: "length (replicate 32 7 :: byte list) = 32" "length (replicate 32 9 :: byte list) = 32"
    "length (transcript (ectx e)) + length first_hello + 215 \<le> 8192"
    "(length (transcript (ectx e)) + length first_hello + 105) mod 64 < 56"
    "(length (transcript (ectx e)) + length first_hello + 179) mod 64 < 56"
    by (simp_all add: t(1) length_first_hello)
  show ?thesis
    using on_fragment_success [OF t(3) pre(1,2) h'(2-5) g pre(3) assms(7) pre(4,5), of n h']
    unfolding h'(1) is_flight_def t(1) append_Nil by (elim exE conjE) (intro exI conjI, assumption+)
qed

text \<open>A fresh context, in one call.\<close>

lemma fresh_context:
  assumes "world_inv w" "\<not> mfail (wheap w) (next_addr (wheap w))"
  obtains a e c h where "weng w = NULL \<and> axon_engine_create (wheap w) = (Some (a, e), h) \<or>
      (\<exists>e0. weng w = Some (a, e0) \<and> axon_engine_reset (Some e0) = Some e \<and> h = save_engine a e (wheap w))"
    "axon_step w (w\<lparr>wheap := h, weng := Some (a, e)\<rparr>)" "ectx e = axon_context_init c"
    "mfail h = mfail (wheap w)" "next_addr h \<in> {next_addr (wheap w), Suc (next_addr (wheap w))}"
proof (cases "weng w")
  case None
  obtain h where h: "axon_engine_create (wheap w) = (Some (next_addr (wheap w), new_engine), h)" "mfail h = mfail (wheap w)"
    "next_addr h = Suc (next_addr (wheap w))"
    using assms(2) by (simp add: axon_engine_create_def secure_alloc_def sizeof_engine_def new_engine_def Let_def)
  show thesis by (rule that [OF _ step_create [OF None h(1)]]) (use None h in \<open>simp_all add: new_engine_def\<close>)
next
  case (Some q)
  obtain a e where q: "weng w = Some (a, e)" using Some by (cases q) simp
  have r: "axon_engine_reset (Some e) =
      Some (e\<lparr>ectx := axon_context_init zero_context, estate := STATE_INIT, eng_sequence_number := 0\<rparr>)"
    by (simp add: axon_engine_reset_def axon_context_wipe_def)
  show thesis by (rule that [OF _ step_reset [OF q r]]) (use q r in simp_all)
qed

lemma two_calls:
  assumes "reachable w" "\<not> mfail (wheap w) (next_addr (wheap w))" "\<not> mfail (wheap w) (Suc (next_addr (wheap w)))"
    and "can_open (wdev w)" "chunks (wdev w) = r # cs" "length r = 32" "215 \<le> length response"
  shows "\<exists>a e h e' ms h'.
    (weng w = NULL \<and> axon_engine_create (wheap w) = (Some (a, e), h) \<or>
     (\<exists>e0. weng w = Some (a, e0) \<and> axon_engine_reset (Some e0) = Some e \<and> h = save_engine a e (wheap w))) \<and>
    axon_engine_handshake (wdev w) (Some e) (Some (handshake_record 3 4 first_hello)) 92 (Some response) (Some n) h =
      Some (0, Some e', Some (ms @ drop 215 response), Some 215, (wdev w)\<lparr>chunks := cs\<rparr>, h') \<and>
    is_flight ms \<and> estate e' = STATE_SENT_FINISHED \<and> handshake_done (ectx e') = 1 \<and> transcript (ectx e') = first_hello @ ms \<and>
    axon_step\<^sup>*\<^sup>* w (w\<lparr>wheap := save_engine a e' h', wdev := (wdev w)\<lparr>chunks := cs\<rparr>, weng := Some (a, e')\<rparr>)"
proof -
  from fresh_context [OF reachable_inv [OF assms(1)] assms(2)] obtain a e c h where
    f: "weng w = NULL \<and> axon_engine_create (wheap w) = (Some (a, e), h) \<or>
      (\<exists>e0. weng w = Some (a, e0) \<and> axon_engine_reset (Some e0) = Some e \<and> h = save_engine a e (wheap w))"
    "axon_step w (w\<lparr>wheap := h, weng := Some (a, e)\<rparr>)" "ectx e = axon_context_init c"
    "mfail h = mfail (wheap w)" "next_addr h \<in> {next_addr (wheap w), Suc (next_addr (wheap w))}" by metis
  have ok: "heap_ok h"
    using reachable_inv [OF reachable_step [OF assms(1) f(2)]] by (simp add: world_inv_def)
  have nf: "\<not> mfail h (next_addr h)" using f(4,5) assms(2,3) by auto
  from first_handshake [OF ok f(3) nf assms(4-7), of n] obtain e' ms h' where
    r: "axon_engine_handshake (wdev w) (Some e) (Some (handshake_record 3 4 first_hello)) 92 (Some response) (Some n) h =
      Some (0, Some e', Some (ms @ drop 215 response), Some 215, (wdev w)\<lparr>chunks := cs\<rparr>, h')"
    "is_flight ms" "estate e' = STATE_SENT_FINISHED" "handshake_done (ectx e') = 1" "transcript (ectx e') = first_hello @ ms" by blast
  have "axon_step (w\<lparr>wheap := h, weng := Some (a, e)\<rparr>)
      (w\<lparr>wheap := save_engine a e' h', wdev := (wdev w)\<lparr>chunks := cs\<rparr>, weng := Some (a, e')\<rparr>)"
    using step_handshake [of "w\<lparr>wheap := h, weng := Some (a, e)\<rparr>" a e _ _ _ _ 0 e'] r(1) by fastforce
  with f(2) have "axon_step\<^sup>*\<^sup>* w (w\<lparr>wheap := save_engine a e' h', wdev := (wdev w)\<lparr>chunks := cs\<rparr>, weng := Some (a, e')\<rparr>)"
    by (rule converse_rtranclp_into_rtranclp [OF _ r_into_rtranclp])
  with f(1) r show ?thesis by blast
qed

lemma reachable_steps: "reachable w \<Longrightarrow> axon_step\<^sup>*\<^sup>* w w' \<Longrightarrow> reachable w'"
  by (auto simp: reachable_def intro: rtranclp_trans)

section \<open>Properties\<close>

text \<open>
  C1. In every reachable world the engine is well-formed and its block, which holds the bytes of its struct, is the only one allocated, so that no sequence of calls
  leaks or loses memory. Every block that was ever given back -- the fragments of records, and the engines that were destroyed, whose keys the
  block held until then -- had been wiped from its first to its last byte. The engine's state is one of four, none of them \<open>STATE_HANDSHAKE_COMPLETE\<close>. The keys, IVs and the sequence number that the record layer would use
  are still zero, and the private key of the key exchange is one of two constants, zero or its clamped form.
\<close>

theorem reachable_engine:
  assumes "reachable w"
  shows "heap_ok (wheap w) \<and> list_all wiped (released (wheap w)) \<and>
    (case weng w of
       None \<Rightarrow> blocks (wheap w) = Map.empty
     | Some (a, e) \<Rightarrow> blocks (wheap w) = [a \<mapsto> engine_bytes e] \<and> engine_ok e \<and>
         estate e \<in> {STATE_INIT, STATE_ALERT_SENT, STATE_WAITING_CLIENT_HELLO, STATE_SENT_FINISHED} \<and>
         write_key (ectx e) = replicate 32 0 \<and> read_key (ectx e) = replicate 32 0 \<and>
         write_iv (ectx e) = replicate 12 0 \<and> read_iv (ectx e) = replicate 12 0 \<and> sequence_number (ectx e) = 0 \<and>
         server_privkey (ectx e) \<in> {replicate 32 0, clamp (replicate 32 0)})"
  using reachable_inv [OF assms] by (auto simp: world_inv_def engine_inv_def engine_sat_def engine_ok_def unkeyed_def heap_ok_def split: option.splits if_splits)

lemma reachable_engine_witness:
  "\<exists>w a e. reachable w \<and> weng w = Some (a, e) \<and> blocks (wheap w) = [a \<mapsto> engine_bytes e] \<and>
     server_privkey (ectx e) \<in> {replicate 32 0, clamp (replicate 32 0)}"
proof -
  obtain w where w: "axon_step (fresh_world (\<lambda>_. False) \<lparr>can_open = False, chunks = []\<rparr>) w" "weng w = Some (0, new_engine)"
    using create_step [of "\<lambda>_. False"] by blast
  have "reachable w" by (rule reachable_step [OF reachable_fresh w(1)])
  with reachable_engine [OF this] w(2) show ?thesis by auto
qed

text \<open>
  C4. No application data ever passes: in every reachable world, after any number of handshakes, \<open>axon_engine_encrypt\<close> and
  \<open>axon_engine_decrypt\<close> answer -1 for all arguments and change neither the engine nor the output nor the heap.
\<close>

theorem no_application_data:
  assumes "reachable w" "weng w = Some (a, e)"
  shows "axon_engine_encrypt (Some e) plaintext len ciphertext out_len = Some (-1, Some e, ciphertext, out_len) \<and>
    axon_engine_decrypt (Some e) ciphertext len plaintext out_len (wheap w) =
      Some (-1, Some e, plaintext, out_len, wheap w)"
  using reachable_inv [OF assms(1)] assms(2) application_closed [of e] by (auto simp: world_inv_def engine_inv_def)

lemma no_application_data_witness:
  "\<exists>w a e. reachable w \<and> weng w = Some (a, e) \<and>
     axon_engine_encrypt (Some e) (Some [1]) 1 (Some (replicate 22 0)) (Some 0) = Some (-1, Some e, Some (replicate 22 0), Some 0)"
proof -
  obtain w where w: "axon_step (fresh_world (\<lambda>_. False) \<lparr>can_open = False, chunks = []\<rparr>) w" "weng w = Some (0, new_engine)"
    using create_step [of "\<lambda>_. False"] by blast
  have "reachable w" by (rule reachable_step [OF reachable_fresh w(1)])
  with no_application_data [OF this w(2), of "Some [1]" 1 "Some (replicate 22 0)" "Some 0"] w(2) show ?thesis by blast
qed



end
