(* ===== verification/Axon_Listener.thy ===== *)
theory Axon_Listener
  imports Axon_System
begin

text \<open>
  What somebody learns who only listens to the connection. The listener's functions take the bytes that were sent and nothing else; they run the functions
  of the library on them. Axon keeps nothing from it: neither the keys of the engine nor the key of Finished.
\<close>

section \<open>What the listener computes\<close>

text \<open>The keys, from the record with the hello and the answer. The private key of the server is that of an engine whose array was never filled.\<close>

definition overheard_keys :: "byte list \<Rightarrow> byte list \<Rightarrow> axon_engine option" where
  "overheard_keys hello answer = do {
     (_, c) \<leftarrow> axon_parse_client_hello zero_context (take (frame_len hello) (drop 5 hello)) (frame_len hello);
     r \<leftarrow> rd_bytes answer 6 32;
     (_, shared) \<leftarrow> x25519_shared_secret (Some (replicate 32 0)) (Some (client_pubkey c)) (Some (replicate 32 0));
     s \<leftarrow> shared;
     derive_engine_keys (idle_engine\<lparr>ectx := c\<lparr>server_random := r, shared_secret := s\<rparr>\<rparr>) }"

text \<open>
  Whether the parser takes the key share of a hello: what it leaves in \<open>client_pubkey\<close> does not depend on what was there before. Otherwise
  the engine falls back on the share of an earlier hello, or on the zeroes of a fresh context.
\<close>

definition takes_share :: "byte list \<Rightarrow> bool" where
  "takes_share hello =
     (let parse = (\<lambda>pk. map_option (client_pubkey \<circ> snd) (axon_parse_client_hello (zero_context\<lparr>client_pubkey := pk\<rparr>)
        (take (frame_len hello) (drop 5 hello)) (frame_len hello)))
      in parse (replicate 32 0) = parse (replicate 32 1))"

text \<open>A Finished for the transcript \<open>tr'\<close>, from one that was sent for the transcript \<open>tr\<close>, and the secret behind it.\<close>

definition forged_finished :: "byte list \<Rightarrow> byte list \<Rightarrow> byte list \<Rightarrow> byte list option" where
  "forged_finished tr fin tr' = do {
     d \<leftarrow> sha256 (Some tr);
     d' \<leftarrow> sha256 (Some tr');
     Some (xor_bytes (xor_bytes fin d) d') }"

definition overheard_secret :: "byte list \<Rightarrow> byte list \<Rightarrow> byte list option" where
  "overheard_secret tr fin = do { d \<leftarrow> sha256 (Some tr); Some (map (\<lambda>b. b XOR 0x5C) (xor_bytes fin d)) }"

section \<open>The inputs of the key derivation\<close>

definition exchanged :: "byte list \<Rightarrow> byte list \<Rightarrow> byte list \<Rightarrow> axon_context \<Rightarrow> bool" where
  "exchanged cr sr ss c \<longleftrightarrow> context_ok c \<and> client_random c = cr \<and> server_random c = sr \<and> shared_secret c = ss"

interpretation exchange: log_invariant "exchanged cr sr ss" for cr sr ss
  by unfold_locales (auto simp: exchanged_def context_ok_def)

definition same_keys :: "axon_engine \<Rightarrow> axon_engine \<Rightarrow> bool" where
  "same_keys e f \<longleftrightarrow> eng_write_key e = eng_write_key f \<and> eng_read_key e = eng_read_key f \<and>
     eng_write_iv e = eng_write_iv f \<and> eng_read_iv e = eng_read_iv f"

lemma same_keys_simps [simp]:
  "same_keys e e" "same_keys (e\<lparr>ectx := c\<rparr>) f = same_keys e f" "same_keys (e\<lparr>estate := st\<rparr>) f = same_keys e f"
  "same_keys (advance m e) f = same_keys e f"
  by (simp_all add: same_keys_def advance_def)

text \<open>The keys depend on the context by these inputs only.\<close>

lemma exchanged_keys:
  assumes "exchanged cr sr ss (ectx e)" "exchanged cr sr ss (ectx f)" "derive_engine_keys e = Some e'" "derive_engine_keys f = Some f'"
  shows "same_keys e' f'"
proof -
  have "hello_salt (ectx e) = hello_salt (ectx f)" "shared_secret (ectx e) = shared_secret (ectx f)"
    using assms(1,2) by (simp_all add: exchanged_def hello_salt_def)
  then have "handshake_prk (ectx e) = handshake_prk (ectx f)" by (simp add: handshake_prk_def)
  with derive_engine_keys_eq [of e] derive_engine_keys_eq [of f] assms show ?thesis
    by (auto simp: exchanged_def same_keys_def)
qed

section \<open>What the answer carries\<close>

lemma emit_room:
  "emit ys (out, k) = Some (out', k') \<Longrightarrow> length out' = length out \<and> k' = k + length ys \<and> k + length ys \<le> length out"
  by (auto simp: emit_def wr_bytes_def split: Option.bind_splits if_splits)

lemma write_server_hello_room:
  assumes "write_server_hello c out = Some x" "length (server_random c) = 32" "length (server_public_key c) = 32"
  shows "86 \<le> length out"
  using assms by (auto simp: write_server_hello_def Let_def split: Option.bind_splits dest!: emit_room)

lemma server_hello_sent:
  assumes "axon_build_server_hello dev (Some c) (Some out) (Some n) = Some (ret, p, outp, np, dev')" "\<not> ret < 0" "context_ok c"
  obtains r c' out' where "ret = 0" "p = Some c'" "outp = Some out'" "np = Some 86" "length r = 32" "rd_bytes out' 6 32 = Some r"
    "exchanged (client_random c) r (x25519_ladder (clamp (server_privkey c)) (client_pubkey c)) c'"
proof -
  obtain ret1 r dev1 where g: "generate_random dev (server_random c) 32 = Some (ret1, r, dev1)" "length r = 32" "ret1 \<in> {0, -1}"
    using generate_random_total [of 32 "server_random c" dev] assms(3) by (auto simp: context_ok_def)
  with assms(1,2) have z: "ret1 = 0" by (auto simp: axon_build_server_hello_def Let_def)
  let ?h = "hello_context c r"
  let ?m = "message TLS_HANDSHAKE_SERVER_HELLO (server_hello_body r (cipher_suite c) (server_public_key ?h))"
  have h: "?h = c\<lparr>server_random := r, server_privkey := clamp (server_privkey c),
      server_public_key := x25519_ladder (clamp (server_privkey c)) BASE_POINT,
      shared_secret := x25519_ladder (clamp (server_privkey c)) (client_pubkey c)\<rparr>"
    by (simp add: hello_context_def Let_def)
  obtain x where "write_server_hello ?h out = Some x"
    using assms(1,3) g z
    by (auto simp: axon_build_server_hello_def Let_def generate_keypair_eq shared_secret_eq h context_ok_def split: Option.bind_splits)
  from write_server_hello_room [OF this] g(2) have room: "86 \<le> length out" by (simp add: h)
  note eq = server_hello_eq [OF assms(3) room g(2) g(1) [unfolded z], of n]
  have m: "length ?m = 86" "take 32 (drop 6 ?m) = r"
    using g(2) by (simp_all add: length_server_hello_body h) (simp add: message_def server_hello_body_def)
  have "context_ok (sent ?h 0x02 ?m)" by (intro sent_ok hello_context_ok assms(3) g(2))
  then have "exchanged (client_random c) r (x25519_ladder (clamp (server_privkey c)) (client_pubkey c)) (sent ?h 0x02 ?m)"
    by (simp add: exchanged_def) (simp add: h)
  moreover have "rd_bytes (?m @ drop 86 out) 6 32 = Some r" using m room by (simp add: rd_bytes_def)
  ultimately show thesis using that [of "sent ?h 0x02 ?m" "?m @ drop 86 out" r] eq assms(1) m(1) room g(2) by simp
qed

text \<open>The random of the server, as the answer shows it, is what the keys of the engine were derived with; the later messages go behind it.\<close>

lemma server_flight_keys:
  assumes "server_flight dev e response n = Some (0, e', response', n', dev')" "engine_ok e"
  shows "\<exists>r e2 e3. rd_bytes response' 6 32 = Some r \<and> length r = 32 \<and>
    exchanged (client_random (ectx e)) r (x25519_ladder (clamp (server_privkey (ectx e))) (client_pubkey (ectx e))) (ectx e2) \<and>
    derive_engine_keys e2 = Some e3 \<and> same_keys e' e3"
proof -
  have ok: "context_ok (ectx e)" using assms(2) by (simp add: engine_ok_def)
  from assms(1) obtain ret p outp np dev1 where sh:
    "axon_build_server_hello dev (Some (ectx e)) (Some response) (Some 0) = Some (ret, p, outp, np, dev1)" "\<not> ret < 0"
    by (auto simp: server_flight_def Let_def split: Option.bind_splits if_splits)
  from server_hello_sent [OF sh ok] obtain r c1 out1 where s: "ret = 0" "p = Some c1" "outp = Some out1" "np = Some 86" "length r = 32"
    "rd_bytes out1 6 32 = Some r"
    "exchanged (client_random (ectx e)) r (x25519_ladder (clamp (server_privkey (ectx e))) (client_pubkey (ectx e))) c1" by metis
  let ?I = "exchanged (client_random (ectx e)) r (x25519_ladder (clamp (server_privkey (ectx e))) (client_pubkey (ectx e)))"
  have e1: "engine_sat ?I (e\<lparr>estate := st, ectx := c1\<rparr>)" for st using s(7) assms(2) by (simp add: engine_sat_def engine_ok_def)
  note E = exchange.build_at_stepE [where cr = "client_random (ectx e)" and sr = r
      and ss = "x25519_ladder (clamp (server_privkey (ectx e))) (client_pubkey (ectx e))"]
  from assms(1) show ?thesis
    apply (simp add: server_flight_def Let_def sh s(1-4))
    apply (unfold Let_def)
    apply (erule E [OF _ exchange.safe_builders(1)])
     apply (simp add: e1)
    apply (erule exchange.derive_stepE)
     apply (simp add: engine_sat_ectx)
    apply (erule E [OF _ exchange.safe_builders(2)], simp)
    apply (erule E [OF _ exchange.safe_builders(3)], simp)
    apply (erule E [OF _ exchange.safe_builders(4)], simp)
    apply simp
    subgoal premises p for c response1 k1 c2 e2 c3 response2 k2 c4 response3 k3 c5
    proof (intro exI conjI)
      show "rd_bytes response' 6 32 = Some r" by (intro p(3,10,13,17) s(6)) (use p(2,9,12) in simp_all)
      show "length r = 32" by (rule s(5))
      show "exchanged (client_random (ectx e)) r (x25519_ladder (clamp (server_privkey (ectx e))) (client_pubkey (ectx e)))
          (ectx (advance TLS_HANDSHAKE_ENCRYPTED_EXTENSIONS
            (advance TLS_HANDSHAKE_SERVER_HELLO (e\<lparr>estate := STATE_WAITING_CLIENT_HELLO, ectx := c1\<rparr>)\<lparr>ectx := c\<rparr>)\<lparr>ectx := c2\<rparr>))"
        using p(5) by simp
      show "same_keys e' e2" using p(14) by auto
    qed (rule p(4))
    done
qed

section \<open>What the hello carries\<close>

text \<open>The parser reads the same fields out of the bytes, whatever the context is.\<close>

definition take_share :: "byte list option \<Rightarrow> axon_context \<Rightarrow> axon_context" where
  "take_share k c = (case k of None \<Rightarrow> c | Some k \<Rightarrow> c\<lparr>client_pubkey := k\<rparr>)"

lemma ext_loop_uniform:
  fixes c :: axon_context
  shows "\<exists>f. \<forall>d. ext_loop d data len n offset = map_option (\<lambda>k. take_share k d) f"
proof (induction c data len n offset rule: ext_loop.induct)
  case (1 c data len n offset)
  let ?go = "offset + 4 \<le> len \<and> size_sub offset 4 < n"
  consider "\<not> ?go" | "?go" "rd16 data offset = None \<or> rd16 data (offset + 2) = None"
    | t l where "?go" "rd16 data offset = Some t" "rd16 data (offset + 2) = Some l" "t = TLS_EXTENSION_KEY_SHARE \<and> 32 \<le> unat l"
    | t l where "?go" "rd16 data offset = Some t" "rd16 data (offset + 2) = Some l" "\<not> (t = TLS_EXTENSION_KEY_SHARE \<and> 32 \<le> unat l)"
    by (cases "rd16 data offset"; cases "rd16 data (offset + 2)") auto
  then show ?case
  proof cases
    case 1
    then have "ext_loop d data len n offset = Some d" for d by (subst ext_loop.simps) auto
    then show ?thesis by (intro exI [of _ "Some None"]) (simp add: take_share_def)
  next
    case 2
    then have "ext_loop d data len n offset = None" for d by (subst ext_loop.simps) (auto split: Option.bind_splits)
    then show ?thesis by (intro exI [of _ None]) simp
  next
    case 3
    then have "ext_loop d data len n offset = map_option (\<lambda>k. take_share k d) (do {
        _ \<leftarrow> rd16 data (offset + 4 + 2); key_len \<leftarrow> rd16 data (offset + 4 + 2 + 2);
        if key_len = 32 \<and> offset + 4 + 2 + 2 + 2 + 32 \<le> len then map_option Some (rd_bytes data (offset + 4 + 2 + 2 + 2) 32)
        else Some None })" for d
      by (subst ext_loop.simps) (auto simp: Let_def take_share_def split: Option.bind_splits)
    then show ?thesis by blast
  next
    case 4
    then have "ext_loop d data len n offset = ext_loop d data len n (offset + 4 + unat l)" for d
      by (subst ext_loop.simps) (auto simp: Let_def)
    then show ?thesis using "1.IH" [OF 4(1-3) refl 4(4)] by simp
  qed
qed

lemma parse_uniform:
  assumes "axon_parse_client_hello c data len = Some (0, c')"
  shows "\<exists>r s k. \<forall>d. axon_parse_client_hello d data len =
    Some (0, (take_share k (d\<lparr>client_random := r, cipher_suite := s\<rparr>))\<lparr>messages_received := messages_received d OR 1\<rparr>)"
proof -
  from assms obtain r a b s m x c1 where p: "\<not> len < 40" "rd_bytes data 4 32 = Some r" "rd data 36 = Some a"
    "\<not> len < 37 + unat a" "rd16 data (37 + unat a) = Some b" "\<not> len < 37 + unat a + 2 + unat b"
    "suite_loop data (37 + unat a + 2) (unat b) 0 = Some (Some s)" "rd data (37 + unat a + 2 + unat b) = Some m"
    "\<not> len < 37 + unat a + 2 + unat b + 1 + unat m" "\<not> len < 37 + unat a + 2 + unat b + 1 + unat m + 2"
    "rd16 data (37 + unat a + 2 + unat b + 1 + unat m) = Some x"
    "ext_loop (c\<lparr>client_random := r, cipher_suite := s\<rparr>) data len (unat x) (37 + unat a + 2 + unat b + 1 + unat m + 2) = Some c1"
    by (auto simp: axon_parse_client_hello_def Let_def ac_simps split: if_splits Option.bind_splits option.splits)
  obtain f where f: "\<And>d. ext_loop d data len (unat x) (37 + unat a + 2 + unat b + 1 + unat m + 2) = map_option (\<lambda>k. take_share k d) f"
    using ext_loop_uniform by blast
  with p(12) obtain k where k: "f = Some k" by auto
  have o: "4 + 32 = (36 :: nat)" "36 + 1 = (37 :: nat)" by simp_all
  have "axon_parse_client_hello d data len =
    Some (0, (take_share k (d\<lparr>client_random := r, cipher_suite := s\<rparr>))\<lparr>messages_received := messages_received d OR 1\<rparr>)" for d
    unfolding axon_parse_client_hello_def Let_def
    by (simp only: o p(1-11) f k if_False Option.bind.simps option.case option.map) (simp add: take_share_def split: option.split)
  then show ?thesis by blast
qed

section \<open>The keys\<close>

lemma ladder_clamp: "clamp k = clamp l \<Longrightarrow> x25519_ladder k p = x25519_ladder l p"
  by (simp add: x25519_ladder_def)

lemma handshake_inverted:
  assumes "axon_engine_handshake dev (Some e) (Some hello) len (Some response) (Some n) h = Some (0, Some e', Some answer, n', dev', h')"
    and "len \<le> length hello" "len < 2 ^ 64" "heap_ok h" "context_ok (ectx e)"
  obtains c1 c2 m where "axon_parse_client_hello (ectx e) (take (frame_len hello) (drop 5 hello)) (frame_len hello) = Some (0, c1)"
    "axon_context_update_hash (Some c1) (Some (take (frame_len hello) (drop 5 hello))) (frame_len hello) = Some (Some c2)"
    "server_flight dev (e\<lparr>ectx := c2\<rparr>) response n = Some (0, e', answer, m, dev')"
proof -
  have wf: "well_framed hello len" using handshake_reject [OF assms(2,3), of dev e response n h] assms(1) by auto
  from handshake_accept [OF assms(2,3) wf assms(4), of dev e response n] assms(1) obtain h1 where
    o: "on_fragment dev e (hello ! 0) (take (frame_len hello) (drop 5 hello)) response n h1 = Some (0, Some e', Some answer, n', dev', h')"
    by (auto split: if_splits)
  have l: "length (take (frame_len hello) (drop 5 hello)) = frame_len hello"
    using wf assms(2) by (auto simp: well_framed_def)
  from o obtain ret c1 p where p: "axon_parse_client_hello (ectx e) (take (frame_len hello) (drop 5 hello)) (frame_len hello) = Some (ret, c1)"
    "axon_context_update_hash (Some c1) (Some (take (frame_len hello) (drop 5 hello))) (frame_len hello) = Some p" "\<not> ret < 0"
    by (auto simp: on_fragment_def Let_def l simp del: length_take split: if_splits Option.bind_splits)
  with types.parse_keeps [OF p(1) assms(5)] types.update_hash_keeps [OF _ p(2)] obtain c2 where "ret = 0" "p = Some c2" by auto
  with o p that [of c1 c2] show thesis
    by (auto simp: on_fragment_def Let_def l simp del: length_take split: if_splits Option.bind_splits)
qed

lemma hello_heard:
  assumes "axon_parse_client_hello c (take (frame_len hello) (drop 5 hello)) (frame_len hello) = Some (0, c1)"
    and "axon_context_update_hash (Some c1) (Some frag) n = Some (Some c2)" "context_ok c"
    and "client_pubkey c = replicate 32 0 \<or> takes_share hello"
  obtains l where "axon_parse_client_hello zero_context (take (frame_len hello) (drop 5 hello)) (frame_len hello) = Some (0, l)"
    "context_ok l" "client_random l = client_random c2" "client_pubkey l = client_pubkey c2"
    "context_ok c2" "server_privkey c2 = server_privkey c"
proof -
  let ?data = "take (frame_len hello) (drop 5 hello)"
  obtain rnd s k where p: "\<And>d. axon_parse_client_hello d ?data (frame_len hello) =
    Some (0, (take_share k (d\<lparr>client_random := rnd, cipher_suite := s\<rparr>))\<lparr>messages_received := messages_received d OR 1\<rparr>)"
    using parse_uniform [OF assms(1)] by blast
  have "replicate 32 0 \<noteq> (replicate 32 1 :: byte list)" by simp
  with assms(4) p have k: "client_pubkey c = replicate 32 0 \<or> k \<noteq> None"
    by (auto simp: takes_share_def take_share_def)
  obtain l where l: "axon_parse_client_hello zero_context ?data (frame_len hello) = Some (0, l)" "client_random l = client_random c1"
    "client_pubkey l = client_pubkey c1" "server_privkey c1 = server_privkey c"
    using p [of c] p [of zero_context] assms(1) k by (auto simp: take_share_def split: option.splits)
  have c1: "context_ok c1" using types.parse_keeps [OF assms(1,3)] by simp
  have c2: "client_random c2 = client_random c1" "client_pubkey c2 = client_pubkey c1" "server_privkey c2 = server_privkey c1"
    using assms(2) by (auto simp: axon_context_update_hash_def split: if_splits Option.bind_splits)
  have "context_ok l" using types.parse_keeps [OF l(1) context_ok_zero] by simp
  moreover have "context_ok c2" using types.update_hash_keeps [OF c1 assms(2)] by simp
  ultimately show thesis using that [of l] l c2 by simp
qed

lemma listener_keys:
  assumes "axon_engine_handshake dev (Some e) (Some hello) len (Some response) (Some n) h = Some (0, Some e', Some answer, n', dev', h')"
    and "len \<le> length hello" "len < 2 ^ 64" "heap_ok h" "engine_ok e" "clamp (server_privkey (ectx e)) = clamp (replicate 32 0)"
    and "client_pubkey (ectx e) = replicate 32 0 \<or> takes_share hello"
  shows "\<exists>l. overheard_keys hello answer = Some l \<and> same_keys l e'"
proof -
  have ok: "context_ok (ectx e)" using assms(5) by (simp add: engine_ok_def)
  obtain c1 c2 m where c: "axon_parse_client_hello (ectx e) (take (frame_len hello) (drop 5 hello)) (frame_len hello) = Some (0, c1)"
    "axon_context_update_hash (Some c1) (Some (take (frame_len hello) (drop 5 hello))) (frame_len hello) = Some (Some c2)"
    "server_flight dev (e\<lparr>ectx := c2\<rparr>) response n = Some (0, e', answer, m, dev')"
    by (rule handshake_inverted [OF assms(1-4) ok])
  from hello_heard [OF c(1,2) ok assms(7)] obtain l where l:
    "axon_parse_client_hello zero_context (take (frame_len hello) (drop 5 hello)) (frame_len hello) = Some (0, l)"
    "context_ok l" "client_random l = client_random c2" "client_pubkey l = client_pubkey c2"
    "context_ok c2" "server_privkey c2 = server_privkey (ectx e)" by metis
  let ?ss = "x25519_ladder (replicate 32 0) (client_pubkey c2)"
  have ss: "x25519_ladder (clamp (server_privkey c2)) (client_pubkey c2) = ?ss"
    by (rule ladder_clamp) (simp add: l(6) assms(6) clamp_zero)
  have "engine_ok (e\<lparr>ectx := c2\<rparr>)" using assms(5) l(5) by (simp add: engine_ok_def)
  from server_flight_keys [OF c(3) this] obtain r e2 e3 where r: "rd_bytes answer 6 32 = Some r" "length r = 32"
    "exchanged (client_random c2) r ?ss (ectx e2)" "derive_engine_keys e2 = Some e3" "same_keys e' e3" by (auto simp: ss)
  let ?e = "idle_engine\<lparr>ectx := l\<lparr>server_random := r, shared_secret := ?ss\<rparr>\<rparr>"
  have x: "exchanged (client_random c2) r ?ss (ectx ?e)"
    using l(2,3) r(2) by (simp add: exchanged_def context_ok_def)
  obtain l' where l': "derive_engine_keys ?e = Some l'"
    using derive_engine_keys_eq [of ?e] x by (auto simp: exchanged_def)
  have "length (client_pubkey c2) = 32" using l(5) by (simp add: context_ok_def)
  then have "overheard_keys hello answer = Some l'"
    by (simp add: overheard_keys_def l(1,4) r(1) l' shared_secret_eq)
  moreover have "same_keys l' e3" by (rule exchanged_keys [OF x r(3) l' r(4)])
  ultimately show ?thesis using r(5) by (auto simp: same_keys_def)
qed

section \<open>Finished\<close>

lemma finished_unmasked:
  assumes "context_ok c" "length tr mod 64 < 56"
  shows "overheard_secret tr (finished_of c tr) = Some (take 32 (master_secret c))"
    and "length tr' mod 64 < 56 \<Longrightarrow> forged_finished tr (finished_of c tr) tr' = Some (finished_of c tr')"
proof -
  let ?k = "map (\<lambda>b. b XOR 0x5C) (take 32 (master_secret c))"
  have k: "length ?k = 32" using assms(1) by (simp add: context_ok_def)
  have "xor_bytes (finished_of c tr) (fips_sha256 tr) = ?k"
    unfolding finished_of_def xor_bytes_commute [of "fips_sha256 tr"] by (rule xor_bytes_cancel) (simp add: k)
  moreover have "map (\<lambda>b. b XOR 0x5C) ?k = take 32 (master_secret c)" by (simp add: comp_def xor.assoc)
  ultimately show "overheard_secret tr (finished_of c tr) = Some (take 32 (master_secret c))"
    "length tr' mod 64 < 56 \<Longrightarrow> forged_finished tr (finished_of c tr) tr' = Some (finished_of c tr')"
    using assms(2) by (simp_all add: overheard_secret_def forged_finished_def sha256_eq sha_fits_def finished_of_def [of c tr']
        xor_bytes_commute [of ?k])
qed

section \<open>Properties\<close>

text \<open>
  C6. Whoever sees one handshake has its keys. From the record with the hello and the bytes of the answer, and nothing else, the listener
  computes the keys and IVs that a successful handshake leaves in the engine, in every reachable world, if the engine takes the key share of this hello, or has taken none
  since it was created or reset. The private key of the key exchange is never filled, so that
  the secret is a function of the client's share; the rest of the derivation is public.
\<close>

theorem eavesdropper:
  assumes "reachable w" "weng w = Some (a, e)" "len \<le> length hello" "len < 2 ^ 64"
    and "axon_engine_handshake (wdev w) (Some e) (Some hello) len (Some response) (Some n) (wheap w) =
      Some (0, Some e', Some answer, n', dev', h')"
    and "takes_share hello \<or> client_pubkey (ectx e) = replicate 32 0"
  shows "\<exists>l. overheard_keys hello answer = Some l \<and>
    eng_write_key l = eng_write_key e' \<and> eng_read_key l = eng_read_key e' \<and>
    eng_write_iv l = eng_write_iv e' \<and> eng_read_iv l = eng_read_iv e'"
proof -
  have inv: "heap_ok (wheap w)" "engine_sat unkeyed e"
    using reachable_inv [OF assms(1)] assms(2) by (simp_all add: world_inv_def engine_inv_def)
  then have "engine_ok e" "clamp (server_privkey (ectx e)) = clamp (replicate 32 0)"
    using clamp_zero by (auto simp: engine_ok_def engine_sat_def unkeyed_def)
  moreover have "client_pubkey (ectx e) = replicate 32 0 \<or> takes_share hello" using assms(6) by blast
  ultimately show ?thesis using listener_keys [OF assms(5,3,4) inv(1)] by (fastforce simp: same_keys_def)
qed

lemma eavesdropper_witness:
  "\<exists>w a e e' answer n' dev' h' l. reachable w \<and> weng w = Some (a, e) \<and>
     axon_engine_handshake (wdev w) (Some e) (Some (handshake_record 3 4 first_hello)) 92 (Some (replicate 215 0)) (Some 0) (wheap w) =
       Some (0, Some e', Some answer, n', dev', h') \<and>
     overheard_keys (handshake_record 3 4 first_hello) answer = Some l \<and> eng_write_key l = eng_write_key e'"
proof -
  let ?dev = "\<lparr>can_open = True, chunks = [replicate 32 5]\<rparr>"
  obtain w where w: "axon_step (fresh_world (\<lambda>_. False) ?dev) w" "weng w = Some (0, new_engine)" "wdev w = ?dev"
    "mfail (wheap w) = (\<lambda>_. False)" "heap_ok (wheap w)" using create_step [of "\<lambda>_. False"] by blast
  have reach: "reachable w" by (rule reachable_step [OF reachable_fresh w(1)])
  have c: "ectx new_engine = axon_context_init zero_context" by (simp add: new_engine_def)
  then have z: "client_pubkey (ectx new_engine) = replicate 32 0" by (simp add: axon_context_init_def)
  obtain e' answer n h' where
    run: "axon_engine_handshake ?dev (Some new_engine) (Some (handshake_record 3 4 first_hello)) 92 (Some (replicate 215 0)) (Some 0) (wheap w) =
      Some (0, Some e', Some answer, Some n, ?dev\<lparr>chunks := []\<rparr>, h')"
    using first_handshake [OF w(5) c, of ?dev "replicate 32 5" "[]" "replicate 215 0" 0] w(4) by auto
  obtain l where l: "overheard_keys (handshake_record 3 4 first_hello) answer = Some l" "eng_write_key l = eng_write_key e'"
    using eavesdropper [OF reach w(2) _ _ run [folded w(3)] disjI2 [OF z]] by (auto simp: length_first_hello)
  show ?thesis by (intro exI conjI, rule reach, rule w(2), rule run [folded w(3)], rule l(1), rule l(2))
qed

text \<open>
  C13. Finished protects nothing. The message is the hash of the transcript XORed with a fixed piece of the master secret, so one that was sent
  gives 32 bytes of that secret to everybody who knows the transcript, and turns by two further XORs into the Finished for any other transcript,
  which every peer with the same secret accepts, provided that the peer can hash its transcript (a length less than 56 modulo 64).
\<close>

theorem finished_forgery:
  assumes "context_ok s" "context_ok r" "take 32 (master_secret s) = take 32 (master_secret r)"
    and "36 \<le> length out" "axon_build_finished (Some s) (Some out) (Some n) = Some (0, Some s', Some out', m)"
    and "length (transcript r) mod 64 < 56"
  shows "\<exists>f. forged_finished (transcript s) (take 32 (drop 4 out')) (transcript r) = Some f \<and>
    axon_verify_finished (Some r) (Some f) 32 = Some (0, Some (r\<lparr>handshake_done := 1\<rparr>)) \<and>
    overheard_secret (transcript s) (take 32 (drop 4 out')) = Some (take 32 (master_secret s))"
proof -
  from finished_eq [OF assms(1,4), of n] assms(5) have fits: "length (transcript s) mod 64 < 56"
    and out': "out' = message TLS_HANDSHAKE_FINISHED (finished_of s (transcript s)) @ drop 36 out"
    by (auto simp: sha_fits_def Let_def split: if_splits)
  have fin: "take 32 (drop 4 out') = finished_of s (transcript s)"
    using assms(1) by (simp add: out' message_def)
  have f: "finished_of s (transcript r) = finished_of r (transcript r)" using assms(3) by (simp add: finished_of_def)
  have l: "length (finished_of r (transcript r)) = 32" using assms(2) by simp
  have "axon_verify_finished (Some r) (Some (finished_of r (transcript r))) 32 = Some (0, Some (r\<lparr>handshake_done := 1\<rparr>))"
    using compute_finished_eq [OF assms(2), of "transcript r"] assms(6) l
    by (simp add: axon_verify_finished_def transcript_def [symmetric] sha_fits_def rd_bytes_def)
  then show ?thesis using finished_unmasked(1) [OF assms(1) fits] finished_unmasked(2) [OF assms(1) fits assms(6)] unfolding fin f by simp
qed

lemma finished_forgery_witness:
  "\<exists>s' m f. axon_build_finished (Some zero_context) (Some (replicate 36 0)) (Some 0) = Some (0, Some s', Some m, Some 36) \<and>
     forged_finished [] (take 32 (drop 4 m)) [1, 2, 3] = Some f \<and>
     axon_verify_finished (Some (zero_context\<lparr>handshake_buffer := [1, 2, 3] @ replicate 8189 0, buffer_offset := 3\<rparr>)) (Some f) 32 =
       Some (0, Some (zero_context\<lparr>handshake_buffer := [1, 2, 3] @ replicate 8189 0, buffer_offset := 3, handshake_done := 1\<rparr>))"
proof -
  let ?r = "zero_context\<lparr>handshake_buffer := [1, 2, 3] @ replicate 8189 0, buffer_offset := 3\<rparr>"
  have ok: "context_ok zero_context" "context_ok ?r" "transcript ?r = [1, 2, 3]" "transcript zero_context = []"
    by (simp_all add: context_ok_def transcript_def)
  obtain s' m where b: "axon_build_finished (Some zero_context) (Some (replicate 36 0)) (Some 0) = Some (0, Some s', Some m, Some 36)"
    using finished_eq [OF ok(1), where out = "replicate 36 0" and n = 0] ok(4) by (auto simp: sha_fits_def Let_def)
  from finished_forgery [OF ok(1,2) _ _ b] ok(3,4) b show ?thesis by auto
qed

end
