(* ===== verification/Axon_Stream.thy ===== *)
theory Axon_Stream
  imports Axon_Record
begin

text \<open>
  The record layer over a whole connection: one peer protects a list of messages with \<open>axon_record_encrypt\<close>, the bytes of all records
  arrive in one piece, and the other peer takes record after record off with \<open>axon_record_read\<close> and \<open>axon_record_decrypt\<close>. The two loops are those of a
  client of the library; they only call it and pass its results on.
\<close>

section \<open>Sender and receiver\<close>

fun send_all :: "axon_context \<Rightarrow> byte list list \<Rightarrow> (axon_context \<times> byte list) option" where
  "send_all ctx [] = Some (ctx, [])"
| "send_all ctx (p # ps) = do {
     (ret, ctxp, outp, out_lenp) \<leftarrow> axon_record_encrypt (Some ctx) TLS_CONTENT_APPLICATION_DATA (Some p) (length p)
        (Some (replicate (length p + 21) 0)) (Some 0);
     ctx \<leftarrow> ctxp; out \<leftarrow> outp; out_len \<leftarrow> out_lenp;
     if ret < 0 then None
     else do { (ctx, wire) \<leftarrow> send_all ctx ps; Some (ctx, take out_len out @ wire) } }"

definition new_record :: axon_record where
  "new_record = \<lparr>content_type = 0, version = 0, rec_length = 0, fragment = NULL\<rparr>"

text \<open>Every buffer for a plaintext has the room that one record can need. The messages before the first rejected record are delivered.\<close>

fun receive_all :: "nat \<Rightarrow> axon_context \<Rightarrow> byte list \<Rightarrow> heap \<Rightarrow> (axon_context \<times> byte list list \<times> byte list \<times> heap) option" where
  "receive_all 0 ctx wire h = Some (ctx, [], wire, h)"
| "receive_all (Suc k) ctx wire h = do {
     (ret, rp, h) \<leftarrow> axon_record_read (Some ctx) (Some wire) (length wire) (Some new_record) h;
     r \<leftarrow> rp;
     if ret < 0 then Some (ctx, [], wire, h)
     else do {
       let wire = drop (5 + unat (rec_length r)) wire;
       (ret, ctxp, _, ptp, pt_lenp, h) \<leftarrow> axon_record_decrypt (Some ctx) (Some r) (Some (replicate 65536 0)) (Some 0) h;
       ctx \<leftarrow> ctxp; pt \<leftarrow> ptp; pt_len \<leftarrow> pt_lenp;
       if ret < 0 then Some (ctx, [], wire, h)
       else do {
         (ctx, ps, wire, h) \<leftarrow> receive_all k ctx wire h;
         Some (ctx, take pt_len pt # ps, wire, h) } } }"

section \<open>One record at the head of the stream\<close>

abbreviation seal_of :: "axon_context \<Rightarrow> byte list \<Rightarrow> byte list" where
  "seal_of s p \<equiv> sealed_record TLS_CONTENT_APPLICATION_DATA s p"

lemma send_all_Cons:
  assumes "context_ok s" "length p \<le> 16384"
  shows "send_all s (p # ps) = do { (s', wire) \<leftarrow> send_all (next_seq s) ps; Some (s', seal_of s p @ wire) }"
  using record_encrypt_eq [OF assms, of "replicate (length p + 21) 0" TLS_CONTENT_APPLICATION_DATA 0] length_sealed_record [OF assms(1)]
  by simp

lemma receive_all_Suc:
  assumes "context_ok s" "context_ok r" "write_key s = read_key r" "length p \<le> 16384" "heap_ok h" "mfail h = (\<lambda>_. False)"
    and "length (seal_of s p @ wire) < 2 ^ 64"
    and seal: "gcm_seal (write_key s) (nonce_of (write_iv s) (sequence_number s)) p = (ct, tag)"
    and opened: "gcm_open (read_key r) (nonce_of (read_iv r) (sequence_number r)) ct tag = (st, pt)" "length pt = length p"
  shows "\<exists>h'. heap_ok h' \<and> blocks h' = blocks h \<and> mfail h' = (\<lambda>_. False) \<and>
    receive_all (Suc k) r (seal_of s p @ wire) h =
      (if st < 0 then Some (next_seq r, [], wire, h')
       else do { (r', ps, wire, h) \<leftarrow> receive_all k (next_seq r) wire h'; Some (r', pt # ps, wire, h) })"
proof -
  note b = sealed_body [OF assms(1) seal]
  let ?body = "ct @ tag"
  have len: "length (seal_of s p @ wire) = length ?body + 5 + length wire" by (simp add: b(1))
  have "\<not> mfail h (next_addr h)" by (simp add: assms(6))
  from record_receive [OF assms(2,5) this b(3) _ _ refl, where ct = ct and buf = "replicate 65536 0"
      and n = "length (seal_of s p @ wire)" and rest = wire and ?rec0.0 = new_record and m = 0]
  obtain rec rec' h1 h2 where
    "axon_record_read (Some r) (Some (seal_of s p @ wire)) (length (seal_of s p @ wire)) (Some new_record) h = Some (0, Some rec, h1)"
    "unat (rec_length rec) = length ?body"
    "axon_record_decrypt (Some r) (Some rec) (Some (replicate 65536 0)) (Some 0) h1 =
       Some (st, Some (next_seq r), Some rec', Some (pt @ drop (length ct) (replicate 65536 0)), Some (length ct), h2)"
    "heap_ok h2" "blocks h2 = blocks h" "mfail h2 = mfail h"
    using assms(4,7) b len opened by (auto simp: b(1))
  moreover have "drop (5 + length ?body) (seal_of s p @ wire) = wire" by (simp add: b(1))
  ultimately show ?thesis
    using b(2) opened(2) assms(6) by (intro exI [of _ h2]) (simp add: Let_def split: Option.bind_split)
qed

section \<open>The whole stream\<close>

fun wire_of :: "axon_context \<Rightarrow> byte list list \<Rightarrow> byte list" where
  "wire_of s [] = []"
| "wire_of s (p # ps) = seal_of s p @ wire_of (next_seq s) ps"

definition advanced :: "nat \<Rightarrow> axon_context \<Rightarrow> axon_context" where
  "advanced n c = c\<lparr>sequence_number := sequence_number c + of_nat n\<rparr>"

lemma advanced_next [simp]: "advanced n (next_seq c) = advanced (Suc n) c" "advanced 0 c = c"
  by (simp_all add: advanced_def next_seq_def ac_simps)

lemma advanced_simps [simp]:
  "context_ok (advanced n c) = context_ok c" "write_key (advanced n c) = write_key c" "read_key (advanced n c) = read_key c"
  "write_iv (advanced n c) = write_iv c" "read_iv (advanced n c) = read_iv c"
  "sequence_number (advanced n c) = sequence_number c + of_nat n"
  by (simp_all add: advanced_def context_ok_def)

text \<open>Every payload fits into a record.\<close>

definition sendable :: "byte list list \<Rightarrow> bool" where
  "sendable ps \<longleftrightarrow> list_all (\<lambda>p. length p \<le> 16384) ps"

lemma send_all_eq:
  "context_ok s \<Longrightarrow> sendable ps \<Longrightarrow> send_all s ps = Some (advanced (length ps) s, wire_of s ps)"
proof (induction ps arbitrary: s)
  case (Cons p ps)
  then have p: "length p \<le> 16384" "sendable ps" by (simp_all add: sendable_def)
  with Cons show ?case unfolding send_all_Cons [OF Cons.prems(1) p(1)] by simp
qed simp

lemma length_wire_of: "context_ok s \<Longrightarrow> length (wire_of s ps) = (\<Sum>p\<leftarrow>ps. length p + 21)"
  by (induction ps arbitrary: s) (simp_all add: length_sealed_record)

lemma length_le_wire:
  assumes "context_ok s"
  shows "length ps \<le> length (wire_of s ps)"
proof -
  have "length ps \<le> (\<Sum>p\<leftarrow>ps. length p + 21)" by (induction ps) simp_all
  then show ?thesis by (simp add: length_wire_of [OF assms])
qed

text \<open>A count below the width of the sequence number does not wrap around to 0.\<close>

lemma of_nat_eq_0_iff_small: "n < 2 ^ 64 \<Longrightarrow> (of_nat n :: u64) = 0 \<longleftrightarrow> n = 0"
  by (auto simp: word_of_nat_eq_0_iff dest: dvd_imp_le)

definition in_step :: "axon_context \<Rightarrow> axon_context \<Rightarrow> bool" where
  "in_step s r \<longleftrightarrow> context_ok s \<and> context_ok r \<and> write_key s = read_key r \<and> write_iv s = read_iv r"

lemma in_step_open:
  assumes "in_step s r" "sequence_number s = sequence_number r"
    "gcm_seal (write_key s) (nonce_of (write_iv s) (sequence_number s)) p = (ct, tag)"
  shows "gcm_open (read_key r) (nonce_of (read_iv r) (sequence_number r)) ct tag = (0, p)"
  using gcm.open_seal [OF _ assms(3)] assms(1,2) by (simp add: in_step_def context_ok_def)

lemma receive_stream:
  "in_step s r \<Longrightarrow> sequence_number s = sequence_number r \<Longrightarrow> sendable ps \<Longrightarrow> heap_ok h \<Longrightarrow> mfail h = (\<lambda>_. False) \<Longrightarrow>
    length (wire_of s ps @ tail) < 2 ^ 64 \<Longrightarrow>
    \<exists>h'. heap_ok h' \<and> blocks h' = blocks h \<and> mfail h' = (\<lambda>_. False) \<and>
      receive_all (length ps + k) r (wire_of s ps @ tail) h =
        do { (r', qs, wire, h) \<leftarrow> receive_all k (advanced (length ps) r) tail h'; Some (r', ps @ qs, wire, h) }"
proof (induction ps arbitrary: s r h)
  case Nil
  then show ?case by (intro exI [of _ h]) (simp split: Option.bind_split)
next
  case (Cons p ps)
  have p: "length p \<le> 16384" "sendable ps" using Cons.prems(3) by (simp_all add: sendable_def)
  have c: "context_ok s" "context_ok r" "write_key s = read_key r" using Cons.prems(1) by (simp_all add: in_step_def)
  obtain ct tag where seal: "gcm_seal (write_key s) (nonce_of (write_iv s) (sequence_number s)) p = (ct, tag)" by fastforce
  note opened = in_step_open [OF Cons.prems(1,2) seal]
  have "length (seal_of s p @ wire_of (next_seq s) ps @ tail) < 2 ^ 64" using Cons.prems(6) by simp
  from receive_all_Suc [OF c p(1) Cons.prems(4,5) this seal opened refl, of "length ps + k"]
  obtain h1 where h1: "heap_ok h1" "blocks h1 = blocks h" "mfail h1 = (\<lambda>_. False)"
    "receive_all (Suc (length ps + k)) r (seal_of s p @ wire_of (next_seq s) ps @ tail) h =
       do { (r', ps', wire, h) \<leftarrow> receive_all (length ps + k) (next_seq r) (wire_of (next_seq s) ps @ tail) h1; Some (r', p # ps', wire, h) }"
    by auto
  have "in_step (next_seq s) (next_seq r)" "sequence_number (next_seq s) = sequence_number (next_seq r)"
    "length (wire_of (next_seq s) ps @ tail) < 2 ^ 64"
    using Cons.prems by (simp_all add: in_step_def)
  from Cons.IH [OF this(1,2) p(2) h1(1,3) this(3)] obtain h2 where
    "heap_ok h2" "blocks h2 = blocks h1" "mfail h2 = (\<lambda>_. False)"
    "receive_all (length ps + k) (next_seq r) (wire_of (next_seq s) ps @ tail) h1 =
      do { (r', qs, wire, h) \<leftarrow> receive_all k (advanced (length ps) (next_seq r)) tail h2; Some (r', ps @ qs, wire, h) }" by blast
  with h1 show ?case by (intro exI [of _ h2]) (simp split: Option.bind_split)
qed

text \<open>A stream that the receiver is not in step with: the first record is taken off and rejected.\<close>

lemma receive_out_of_step:
  assumes "in_step s r" "sequence_number s \<noteq> sequence_number r" "sendable ps" "heap_ok h" "mfail h = (\<lambda>_. False)"
    "length (wire_of s ps) < 2 ^ 64" "ps \<noteq> []"
  shows "\<exists>rest h'. blocks h' = blocks h \<and> receive_all (Suc k) r (wire_of s ps) h = Some (next_seq r, [], rest, h')"
proof -
  obtain p qs where ps: "ps = p # qs" using assms(7) by (cases ps) simp_all
  have c: "context_ok s" "context_ok r" "write_key s = read_key r" using assms(1) by (simp_all add: in_step_def)
  obtain ct tag where seal: "gcm_seal (write_key s) (nonce_of (write_iv s) (sequence_number s)) p = (ct, tag)" by fastforce
  then have "fst (gcm_open (read_key r) (nonce_of (read_iv r) (sequence_number r)) ct tag) = -1"
    using gcm_wrong_nonce [OF _ _ _ _ seal] nonce_of_inj assms(1,2) by (simp add: in_step_def context_ok_def)
  then obtain pt where o: "gcm_open (read_key r) (nonce_of (read_iv r) (sequence_number r)) ct tag = (-1, pt)"
    by (metis prod.collapse)
  have "length pt = length p"
    using o sealed_body(2,3) [OF c(1) seal] c(2) by (auto simp: gcm_open_eq context_ok_def)
  from receive_all_Suc [OF c _ assms(4,5) _ seal o this, of "wire_of (next_seq s) qs" k] assms(3,6) show ?thesis
    by (auto simp: sendable_def ps simp del: receive_all.simps)
qed

section \<open>Properties\<close>

text \<open>
  C8. A connection delivers what was sent: from the same keys and the same sequence number, any list of messages
  of at most 16384 bytes each is protected, and the receiver gets exactly these messages in this order out of the
  concatenated records, whatever bytes follow them, which are left untouched. Both sequence numbers have advanced
  by the number of messages, and every fragment's block has been freed. The receiver's \<open>malloc\<close> is assumed to succeed.
\<close>

theorem stream_delivered:
  assumes "context_ok s" "context_ok r" "write_key s = read_key r" "write_iv s = read_iv r"
    "sequence_number s = sequence_number r" "list_all (\<lambda>p. length p \<le> 16384) ps"
    "heap_ok h" "mfail h = (\<lambda>_. False)" "(\<Sum>p\<leftarrow>ps. length p + 21) + length tail < 2 ^ 64"
  shows "\<exists>wire h'. send_all s ps = Some (s\<lparr>sequence_number := sequence_number s + of_nat (length ps)\<rparr>, wire) \<and>
     length wire = (\<Sum>p\<leftarrow>ps. length p + 21) \<and>
     receive_all (length ps) r (wire @ tail) h =
       Some (r\<lparr>sequence_number := sequence_number r + of_nat (length ps)\<rparr>, ps, tail, h') \<and> blocks h' = blocks h"
proof -
  have "in_step s r" "sendable ps" using assms by (simp_all add: in_step_def sendable_def)
  with receive_stream [OF this(1) assms(5) this(2) assms(7,8), of tail 0] send_all_eq [OF assms(1)] assms(9)
  show ?thesis by (fastforce simp: length_wire_of [OF assms(1)] advanced_def)
qed

lemma stream_delivered_witness:
  "\<exists>wire h'. send_all zero_context [replicate 3 7, []] = Some (zero_context\<lparr>sequence_number := 2\<rparr>, wire) \<and> length wire = 45 \<and>
     receive_all 2 zero_context (wire @ [1]) (empty_heap (\<lambda>_. False)) =
       Some (zero_context\<lparr>sequence_number := 2\<rparr>, [replicate 3 7, []], [1], h')"
  using stream_delivered [of zero_context zero_context "[replicate 3 7, []]" "empty_heap (\<lambda>_. False)" "[1]"]
  by (auto simp: heap_ok_empty numeral_2_eq_2 [symmetric] simp del: send_all.simps receive_all.simps)

text \<open>
  C29. A recorded connection cannot be replayed: when the attacker sends all records a second time, the receiver
  delivers every message once, rejects the first replayed record, and stops there with its sequence number one
  further; however many records it was going to read.
\<close>

theorem stream_replay:
  assumes "context_ok s" "context_ok r" "write_key s = read_key r" "write_iv s = read_iv r"
    "sequence_number s = sequence_number r" "list_all (\<lambda>p. length p \<le> 16384) ps"
    "heap_ok h" "mfail h = (\<lambda>_. False)" "2 * (\<Sum>p\<leftarrow>ps. length p + 21) < 2 ^ 64" "ps \<noteq> []"
  shows "\<exists>wire rest h'. send_all s ps = Some (s\<lparr>sequence_number := sequence_number s + of_nat (length ps)\<rparr>, wire) \<and>
     receive_all (length ps + Suc k) r (wire @ wire) h =
       Some (r\<lparr>sequence_number := sequence_number r + of_nat (length ps) + 1\<rparr>, ps, rest, h') \<and> blocks h' = blocks h"
proof -
  have step: "in_step s r" "in_step s (advanced (length ps) r)" "sendable ps"
    using assms by (simp_all add: in_step_def sendable_def)
  have short: "length (wire_of s ps) < 2 ^ 64" "length (wire_of s ps @ wire_of s ps) < 2 ^ 64"
    using assms(9) by (simp_all add: length_wire_of [OF assms(1)])
  have late: "sequence_number s \<noteq> sequence_number (advanced (length ps) r)"
    using length_le_wire [OF assms(1), of ps] short(1) assms(5,10) by (simp add: of_nat_eq_0_iff_small)
  from receive_stream [OF step(1) assms(5) step(3) assms(7,8) short(2), of "Suc k"] obtain h1 where
    h1: "heap_ok h1" "blocks h1 = blocks h" "mfail h1 = (\<lambda>_. False)"
    "receive_all (length ps + Suc k) r (wire_of s ps @ wire_of s ps) h =
       do { (r', qs, wire, h) \<leftarrow> receive_all (Suc k) (advanced (length ps) r) (wire_of s ps) h1; Some (r', ps @ qs, wire, h) }"
    by blast
  from receive_out_of_step [OF step(2) late step(3) h1(1,3) short(1) assms(10), of k] obtain rest h2 where
    h2: "blocks h2 = blocks h1" "receive_all (Suc k) (advanced (length ps) r) (wire_of s ps) h1 =
      Some (next_seq (advanced (length ps) r), [], rest, h2)"
    by blast
  from send_all_eq [OF assms(1) step(3)] h1(4) h1(2) h2 show ?thesis
    by (simp add: advanced_def next_seq_def ac_simps del: receive_all.simps)
qed

lemma stream_replay_witness:
  "\<exists>wire rest h'. send_all zero_context [replicate 3 7] = Some (zero_context\<lparr>sequence_number := 1\<rparr>, wire) \<and>
     receive_all 2 zero_context (wire @ wire) (empty_heap (\<lambda>_. False)) =
       Some (zero_context\<lparr>sequence_number := 2\<rparr>, [replicate 3 7], rest, h')"
  using stream_replay [of zero_context zero_context "[replicate 3 7]" "empty_heap (\<lambda>_. False)" 0]
  by (auto simp: heap_ok_empty numeral_2_eq_2 [symmetric] simp del: send_all.simps receive_all.simps)

end
