(* ===== verification/Axon_Tests.thy ===== *)
theory Axon_Tests
  imports Axon_Invariant
begin

text \<open>
  The test program \<open>tests/c/test_handshake.c\<close>, as a client of the engine: it creates one, sends it a ClientHello that it builds in an array, prints the
  outcome, destroys the engine and exits. The other two test programs only print that they have passed.
\<close>

section \<open>The code\<close>

definition newline :: string where
  "newline = [CHR 0x0A]"

text \<open>\<open>"%zu"\<close>\<close>

fun decimal :: "nat \<Rightarrow> string" where
  "decimal n = (if n < 10 then [''0123456789'' ! n] else decimal (n div 10) @ [''0123456789'' ! (n mod 10)])"

declare decimal.simps [simp del]

definition build_test_hello :: "byte list option" where
  "build_test_hello = do {
     let client_hello = replicate 1024 0;
     client_hello \<leftarrow> wr client_hello 0 TLS_CONTENT_HANDSHAKE;
     client_hello \<leftarrow> wr client_hello 1 0x03;
     client_hello \<leftarrow> wr client_hello 2 0x04;
     client_hello \<leftarrow> wr client_hello 3 0x00;
     client_hello \<leftarrow> wr client_hello 4 0x01;
     client_hello \<leftarrow> wr client_hello 5 TLS_HANDSHAKE_CLIENT_HELLO;
     client_hello \<leftarrow> wr client_hello 6 0x00;
     client_hello \<leftarrow> wr client_hello 7 0x00;
     client_hello \<leftarrow> wr client_hello 8 0x20;
     client_hello \<leftarrow> wr client_hello 9 0x03;
     client_hello \<leftarrow> wr client_hello 10 0x04;
     client_hello \<leftarrow> for_upto 0 32 (\<lambda>i client_hello. wr client_hello (11 + i) (of_nat i AND 0xFF)) client_hello;
     client_hello \<leftarrow> wr client_hello 43 0x00;
     client_hello \<leftarrow> wr client_hello 44 0x02;
     client_hello \<leftarrow> wr client_hello 45 0x13;
     client_hello \<leftarrow> wr client_hello 46 0x01;
     client_hello \<leftarrow> wr client_hello 47 0x01;
     client_hello \<leftarrow> wr client_hello 3 0x00;
     wr client_hello 4 0x2B }"

definition test_handshake_main :: "urandom \<Rightarrow> heap \<Rightarrow> (int \<times> string \<times> urandom \<times> heap) option" where
  "test_handshake_main dev h =
     (case axon_engine_create h of
        (None, h) \<Rightarrow> Some (1, ''FAIL: engine create'' @ newline, dev, h)
      | (Some (a, eng), h) \<Rightarrow> do {
          client_hello \<leftarrow> build_test_hello;
          let client_hello_len = 48;
          let response = replicate 4096 0;
          (ret, engp, _, response_lenp, dev, h) \<leftarrow>
            axon_engine_handshake dev (Some eng) (Some client_hello) client_hello_len (Some response) (Some 0) h;
          eng \<leftarrow> engp;
          response_len \<leftarrow> response_lenp;
          if ret < 0 then do {
            h \<leftarrow> axon_engine_destroy (Some (a, eng)) h;
            Some (1, ''FAIL: handshake failed'' @ newline, dev, h) }
          else do {
            h \<leftarrow> axon_engine_destroy (Some (a, eng)) h;
            Some (0, ''PASS: handshake completed, response_len='' @ decimal response_len @ newline, dev, h) } })"

definition test_asn1_main :: "int \<times> string" where
  "test_asn1_main = (0, ''PASS: ASN1 tests passed'' @ newline)"

definition test_crypto_main :: "int \<times> string" where
  "test_crypto_main = (0, ''PASS: All crypto tests passed'' @ newline)"

section \<open>Running the test\<close>

lemma build_test_hello_eq:
  "build_test_hello = Some (handshake_record 3 4 test_fragment @ replicate 976 0)"
  by code_simp

lemma test_fragment_facts:
  "length test_fragment = 43" "test_fragment ! 0 = TLS_HANDSHAKE_CLIENT_HELLO" "test_fragment ! 1 = 0"
  by (simp_all add: test_fragment_def message_type_defs del: upt_rec_numeral)

lemma created_handshake_destroy:
  assumes "heap_ok h" "axon_engine_create h = (Some (a, e), h1)"
    and "axon_engine_handshake dev (Some e) hello len response n h1 = Some (ret, Some e', response', n', dev', h2)"
  shows "\<exists>h3. axon_engine_destroy (Some (a, e')) h2 = Some h3 \<and> heap_ok h3 \<and> blocks h3 = blocks h"
proof -
  have e: "engine_sat context_ok e" using engine_create_fields [OF assms(2)] by (simp add: engine_sat_def)
  from engine_create_heap [OF assms(2,1)] have h1: "heap_ok h1" "blocks h a = None" "blocks h1 = (blocks h)(a \<mapsto> engine_bytes e)" by simp_all
  from types.handshake_keeps [OF assms(3) e h1(1)] have e': "engine_sat context_ok e'" "heap_ok h2" "blocks h2 = blocks h1" by auto
  have "\<exists>h3. axon_engine_destroy (Some (a, e')) h2 = Some h3 \<and> heap_ok h3 \<and> blocks h3 = (blocks h2)(a := None)"
    by (rule engine_destroy_heap [OF e'(2)]) (use e' h1 in \<open>simp_all add: engine_sat_def\<close>)
  with e'(3) h1 show ?thesis by (auto simp: fun_upd_idem)
qed

section \<open>Properties\<close>

text \<open>
  C30. The project's own handshake test fails, on every run: whichever allocations succeed and whatever the random source would
  deliver, the program prints one of its two failure messages and exits with status 1. It does not touch the random source, and it gives back all memory;
  the blocks of the record and of the engine are wiped from the first to the last byte before they are released.
\<close>

theorem test_handshake_fails:
  assumes "heap_ok h"
  shows "\<exists>msg h'. test_handshake_main dev h = Some (1, msg @ newline, dev, h') \<and>
    msg \<in> {''FAIL: engine create'', ''FAIL: handshake failed''} \<and>
    blocks h' = blocks h \<and> list_all wiped (released h')"
proof (cases "axon_engine_create h")
  case (Pair p h1)
  show ?thesis
  proof (cases p)
    case None
    with engine_create_heap [OF Pair assms] Pair show ?thesis by (simp add: test_handshake_main_def heap_ok_def)
  next
    case (Some q)
    obtain a e where c: "axon_engine_create h = (Some (a, e), h1)" using Pair Some by (cases q) auto
    with engine_create_heap [OF c assms] have "heap_ok h1" by simp
    from conforming_reject [OF this _ _ test_fragment_facts(2,3) refl, where ?v1.0 = 3 and ?v2.0 = 4 and rest = "replicate 976 0" and len = 48 and dev = dev and eng = e and response = "replicate 4096 0" and n = 0]
    obtain e' h2 where r: "axon_engine_handshake dev (Some e) (Some (handshake_record 3 4 test_fragment @ replicate 976 0)) 48
        (Some (replicate 4096 0)) (Some 0) h1 = Some (-1, Some e', Some (replicate 4096 0), Some 0, dev, h2)"
      by (auto simp: test_fragment_facts(1))
    from created_handshake_destroy [OF assms c r] obtain h3 where
      "axon_engine_destroy (Some (a, e')) h2 = Some h3" "heap_ok h3" "blocks h3 = blocks h" by blast
    then show ?thesis
      using c r by (simp add: test_handshake_main_def build_test_hello_eq heap_ok_def)
  qed
qed

lemma test_handshake_fails_witness:
  "\<exists>msg h'. test_handshake_main \<lparr>can_open = True, chunks = [replicate 32 5]\<rparr> (empty_heap (\<lambda>_. False)) =
     Some (1, msg @ newline, \<lparr>can_open = True, chunks = [replicate 32 5]\<rparr>, h') \<and> blocks h' = (\<lambda>_. None)"
  using test_handshake_fails [OF heap_ok_empty [of "\<lambda>_. False"], of "\<lparr>can_open = True, chunks = [replicate 32 5]\<rparr>"]
  by auto

end
