(* ===== verification/Axon_Cpp.thy ===== *)
theory Axon_Cpp
  imports Axon_State Axon_Handshake
begin

text \<open>
  The C++ classes of \<open>bindings/cpp/src\<close>. They do not call the C library: \<open>engine.cpp\<close>, \<open>handshake.cpp\<close> and \<open>state.cpp\<close> are a second
  implementation of the interface, which is modelled here and compared with the first.

  An \<open>Engine\<close> object is the address of its \<open>Impl\<close>; the objects made by \<open>new\<close> are a map from addresses, and a use of a
  deleted one has no result. A \<open>std::vector\<close> is the list of its elements.
\<close>

section \<open>\<open>engine.cpp\<close>\<close>

record cpp_impl =
  handshake_complete :: bool
  impl_key :: "byte list"

record cpp_heap =
  impls :: "nat \<Rightarrow> cpp_impl option"
  next_impl :: nat

definition vector_resize :: "byte list \<Rightarrow> nat \<Rightarrow> byte list" where
  "vector_resize v n = take n v @ replicate (n - length v) 0"

definition Impl_init :: cpp_impl where
  "Impl_init = \<lparr>handshake_complete = False, impl_key = replicate 32 0\<rparr>"

definition Engine_init :: "cpp_heap \<Rightarrow> nat \<times> cpp_heap" where
  "Engine_init h = (next_impl h, h\<lparr>impls := (impls h)(next_impl h \<mapsto> Impl_init), next_impl := Suc (next_impl h)\<rparr>)"

definition Engine_destroy :: "nat \<Rightarrow> cpp_heap \<Rightarrow> cpp_heap option" where
  "Engine_destroy this h = do { _ \<leftarrow> impls h this; Some (h\<lparr>impls := (impls h)(this := None)\<rparr>) }"

text \<open>The class declares no copy constructor, so the implicit one copies the pointer.\<close>

definition Engine_copy :: "nat \<Rightarrow> nat" where
  "Engine_copy other = other"

definition Engine_handshake ::
  "nat \<Rightarrow> byte list ptr \<Rightarrow> nat \<Rightarrow> byte list \<Rightarrow> cpp_heap \<Rightarrow> (int \<times> byte list \<times> cpp_heap) option" where
  "Engine_handshake this client_hello len response h =
     (if client_hello = NULL \<or> len = 0 then Some (-1, response, h)
      else do {
        let response = vector_resize response 256;
        response \<leftarrow> for_upto 0 256 (\<lambda>i response. wr response i (of_nat i AND 0xFF)) response;
        i \<leftarrow> impls h this;
        Some (0, response, h\<lparr>impls := (impls h)(this \<mapsto> i\<lparr>handshake_complete := True\<rparr>)\<rparr>) })"

definition Engine_decrypt ::
  "nat \<Rightarrow> byte list ptr \<Rightarrow> nat \<Rightarrow> byte list \<Rightarrow> cpp_heap \<Rightarrow> (int \<times> byte list) option" where
  "Engine_decrypt this ciphertext len plaintext h = do {
     i \<leftarrow> impls h this;
     if \<not> handshake_complete i then Some (-1, plaintext)
     else (case ciphertext of
         None \<Rightarrow> Some (-1, plaintext)
       | Some src \<Rightarrow>
           if len = 0 then Some (-1, plaintext)
           else do {
             let plaintext = vector_resize plaintext len;
             d \<leftarrow> rd_bytes src 0 len;
             plaintext \<leftarrow> wr_bytes plaintext 0 d;
             Some (0, plaintext) }) }"

definition Engine_encrypt ::
  "nat \<Rightarrow> byte list ptr \<Rightarrow> nat \<Rightarrow> byte list \<Rightarrow> cpp_heap \<Rightarrow> (int \<times> byte list) option" where
  "Engine_encrypt this plaintext len ciphertext h = do {
     i \<leftarrow> impls h this;
     if \<not> handshake_complete i then Some (-1, ciphertext)
     else (case plaintext of
         None \<Rightarrow> Some (-1, ciphertext)
       | Some src \<Rightarrow>
           if len = 0 then Some (-1, ciphertext)
           else do {
             let ciphertext = vector_resize ciphertext len;
             d \<leftarrow> rd_bytes src 0 len;
             ciphertext \<leftarrow> wr_bytes ciphertext 0 d;
             Some (0, ciphertext) }) }"

definition Engine_reset :: "nat \<Rightarrow> cpp_heap \<Rightarrow> cpp_heap option" where
  "Engine_reset this h = do {
     i \<leftarrow> impls h this;
     Some (h\<lparr>impls := (impls h)(this \<mapsto> i\<lparr>handshake_complete := False, impl_key := replicate 32 0\<rparr>)\<rparr>) }"

section \<open>\<open>handshake.cpp\<close> and \<open>state.cpp\<close>\<close>

definition cpp_parse_client_hello :: "byte list ptr \<Rightarrow> nat \<Rightarrow> byte list \<Rightarrow> (bool \<times> byte list) option" where
  "cpp_parse_client_hello datap len random_out =
     (case datap of
        None \<Rightarrow> Some (False, random_out)
      | Some data \<Rightarrow>
          if len < 40 then Some (False, random_out)
          else do { r \<leftarrow> rd_bytes data 4 32; random_out \<leftarrow> wr_bytes random_out 0 r; Some (True, random_out) })"

definition cpp_build_server_hello :: "byte list \<Rightarrow> byte list \<Rightarrow> (byte list \<times> nat) option" where
  "cpp_build_server_hello out random_in = do {
     out \<leftarrow> wr out 0 0x02;
     out \<leftarrow> wr out 1 0x03;
     out \<leftarrow> wr out 2 0x04;
     r \<leftarrow> rd_bytes random_in 0 32;
     out \<leftarrow> wr_bytes out 3 r;
     Some (out, 35) }"

datatype cpp_state = INIT | WAITING_CLIENT_HELLO | SENT_SERVER_HELLO | HANDSHAKE_COMPLETE | ERROR

fun transition :: "cpp_state \<Rightarrow> byte \<Rightarrow> cpp_state" where
  "transition INIT message_type = (if message_type = 0x01 then WAITING_CLIENT_HELLO else ERROR)"
| "transition WAITING_CLIENT_HELLO message_type = (if message_type = 0x02 then SENT_SERVER_HELLO else ERROR)"
| "transition SENT_SERVER_HELLO message_type = (if message_type = 0x14 then HANDSHAKE_COMPLETE else ERROR)"
| "transition HANDSHAKE_COMPLETE message_type = ERROR"
| "transition ERROR message_type = ERROR"

section \<open>The two state machines\<close>

fun cpp_need :: "cpp_state \<Rightarrow> byte list option" where
  "cpp_need INIT = Some [0x01, 0x02, 0x14]"
| "cpp_need WAITING_CLIENT_HELLO = Some [0x02, 0x14]"
| "cpp_need SENT_SERVER_HELLO = Some [0x14]"
| "cpp_need HANDSHAKE_COMPLETE = Some []"
| "cpp_need ERROR = None"

interpretation cpp: scripted_machine transition cpp_need "\<lambda>_. False"
proof unfold_locales
  fix s m
  show "cpp_need (transition s m) =
     (case cpp_need s of
        None \<Rightarrow> None
      | Some [] \<Rightarrow> if False then Some [] else None
      | Some (e # es) \<Rightarrow> if m = e then Some es else None)"
    by (cases s) simp_all
qed

lemma cpp_need_complete: "cpp_need s = Some [] \<longleftrightarrow> s = HANDSHAKE_COMPLETE"
  by (cases s) simp_all

lemma transition_completes: "foldl transition INIT ms = HANDSHAKE_COMPLETE \<longleftrightarrow> ms = [0x01, 0x02, 0x14]"
proof -
  have "list_all (\<lambda>_. False) ks \<longleftrightarrow> ks = []" for ks :: "byte list" by (cases ks) simp_all
  then show ?thesis
    using cpp.run_complete [of INIT "[0x01, 0x02, 0x14]" ms] by (simp add: cpp_need_complete)
qed

section \<open>Objects\<close>

lemma handshake_response:
  "for_upto 0 256 (\<lambda>i response. wr response i (of_nat i AND 0xFF)) (vector_resize response 256) =
    Some (map (\<lambda>i. of_nat i AND 0xFF) [0..<256])"
  by (subst for_upto_fill [where f = "\<lambda>i. of_nat i AND 0xFF"]) (simp_all add: vector_resize_def del: upt_rec_numeral)

lemma copy_bytes: "wr_bytes (vector_resize v (length p)) 0 p = Some p"
  by (simp add: wr_bytes_def vector_resize_def)

text \<open>Two objects share their \<open>Impl\<close> after a copy, and the second destructor deletes it again.\<close>

lemma copied_engine_double_delete:
  "Engine_destroy a h = Some h' \<Longrightarrow> Engine_destroy (Engine_copy a) h' = None"
  by (auto simp: Engine_destroy_def Engine_copy_def split: Option.bind_splits)

section \<open>Properties\<close>

text \<open>
  C31. The C++ engine protects nothing. A new engine answers -1 to \<open>encrypt\<close> and \<open>decrypt\<close> and leaves the output as it is. After a handshake
  with any bytes at all, which is always answered by the bytes 0 to 255, both return every non-empty input unchanged, and -1 with the output as
  it is for an empty one; after \<open>reset\<close> they answer -1 again.
\<close>

theorem cpp_engine_transparent:
  assumes "Engine_init g = (b, h0)" "impls h a = Some i" "0 < n"
  shows "Engine_encrypt b (Some p) (length p) out h0 = Some (-1, out) \<and> Engine_decrypt b (Some p) (length p) out h0 = Some (-1, out) \<and>
    (\<exists>h' h''. Engine_handshake a (Some hello) n response h = Some (0, map (\<lambda>i. of_nat i AND 0xFF) [0..<256], h') \<and>
      Engine_encrypt a (Some p) (length p) out h' = Some (if p = [] then (-1, out) else (0, p)) \<and>
      Engine_decrypt a (Some p) (length p) out h' = Some (if p = [] then (-1, out) else (0, p)) \<and>
      Engine_reset a h' = Some h'' \<and> Engine_encrypt a (Some p) (length p) out h'' = Some (-1, out) \<and>
      Engine_decrypt a (Some p) (length p) out h'' = Some (-1, out))"
  using assms
  by (auto simp: Engine_init_def Impl_init_def Engine_handshake_def Engine_encrypt_def Engine_decrypt_def Engine_reset_def
      handshake_response copy_bytes rd_bytes_def Let_def simp del: upt_rec_numeral)

lemma cpp_engine_transparent_witness:
  "\<exists>h'. Engine_handshake 0 (Some [9]) 1 [] (snd (Engine_init \<lparr>impls = Map.empty, next_impl = 0\<rparr>)) =
       Some (0, map (\<lambda>i. of_nat i AND 0xFF) [0..<256], h') \<and>
     Engine_encrypt 0 (Some (replicate 3 5)) 3 [] h' = Some (0, replicate 3 5)"
  using cpp_engine_transparent [of "\<lparr>impls = Map.empty, next_impl = 0\<rparr>" 0 "snd (Engine_init \<lparr>impls = Map.empty, next_impl = 0\<rparr>)"
      "snd (Engine_init \<lparr>impls = Map.empty, next_impl = 0\<rparr>)" 0 Impl_init 1 "replicate 3 5" "[]" "[9]" "[]"]
  by (auto simp: Engine_init_def simp del: upt_rec_numeral)

text \<open>
  C32. The C++ state machine is complete exactly after the messages 1, 2 and 20, and nothing may follow. The C machine needs seven messages, so no
  sequence of messages completes both: two implementations of one library that cannot finish the same handshake.
\<close>

theorem cpp_state_machine:
  "(foldl transition INIT ms = HANDSHAKE_COMPLETE) = (ms = [0x01, 0x02, 0x14]) \<and>
   \<not> (foldl transition INIT ms = HANDSHAKE_COMPLETE \<and>
      foldl (axon_state_machine (Some ctx)) STATE_INIT ms = STATE_HANDSHAKE_COMPLETE)"
  by (auto simp: transition_completes machine_completes handshake_order_def)

text \<open>
  The two parsers agree on what both look at: whatever ClientHello the C parser accepts, the C++ parser accepts too, and it
  extracts the same client random.
\<close>

theorem cpp_parse_agrees:
  assumes "axon_parse_client_hello ctx data len = Some (0, ctx')" "32 \<le> length buf"
  shows "cpp_parse_client_hello (Some data) len buf = Some (True, client_random ctx' @ drop 32 buf)"
  using parse_accepts [OF assms(1)] rd_bytes_length [of data 4 32 "client_random ctx'"] assms(2)
  by (simp add: cpp_parse_client_hello_def wr_bytes_def)

lemma cpp_parse_agrees_witness:
  "cpp_parse_client_hello (Some (client_hello_bytes [1, 3, 4, 0] (replicate 32 7) [] [0x1301] [0]
       (key_share_ext [0, 36, 0, 0x1D] (replicate 32 9) @ []))) 87 (replicate 32 0) = Some (True, replicate 32 7)"
proof -
  let ?d = "client_hello_bytes [1, 3, 4, 0] (replicate 32 7) [] [0x1301] [0] (key_share_ext [0, 36, 0, 0x1D] (replicate 32 9) @ [])"
  have l: "length ?d = 87" by (simp add: client_hello_bytes_def key_share_ext_def len16_def suite_bytes_def)
  have "axon_parse_client_hello zero_context ?d (length ?d) =
    Some (0, zero_context\<lparr>client_random := replicate 32 7, cipher_suite := 0x1301, client_pubkey := replicate 32 9,
      messages_received := messages_received zero_context OR 1\<rparr>)"
    by (subst parse_layout_eq [OF _ _ _ _ _ refl])
      (simp_all add: supported_suite_def cipher_defs key_share_ext_def len16_def)
  from cpp_parse_agrees [OF this, of "replicate 32 0"] l show ?thesis by simp
qed

end
