(* ===== verification/Axon_Chacha.thy ===== *)
theory Axon_Chacha
  imports Axon_Cipher
begin

text \<open>
  ChaCha20 and Poly1305, \<open>crypto/source/chacha20.c\<close>. The stream cipher is compared with the one of
  RFC 8439: the code reads and writes its words with the most significant byte first, the RFC
  with the least significant one. The authenticator and the combination of the two are modelled with every access
  to their fixed arrays checked; both leave them.

  \<open>input\<close> and \<open>output\<close> are separate arrays. The array \<open>mac_input\<close> is not initialised by the code; what it holds before it is
  written is never read.
\<close>

section \<open>The stream cipher\<close>

definition ROTL32 :: "u32 \<Rightarrow> nat \<Rightarrow> u32" where
  "ROTL32 a b = push_bit b a OR drop_bit (32 - b) a"

definition U8TO32 :: "byte list \<Rightarrow> nat \<Rightarrow> u32 option" where
  "U8TO32 xs p = do {
     b0 \<leftarrow> rd xs p; b1 \<leftarrow> rd xs (p + 1); b2 \<leftarrow> rd xs (p + 2); b3 \<leftarrow> rd xs (p + 3);
     Some (push_bit 24 (ucast b0) OR push_bit 16 (ucast b1) OR push_bit 8 (ucast b2) OR ucast b3) }"

definition U32TO8 :: "byte list \<Rightarrow> nat \<Rightarrow> u32 \<Rightarrow> byte list option" where
  "U32TO8 xs p v = do {
     xs \<leftarrow> wr xs p (ucast (drop_bit 24 v)); xs \<leftarrow> wr xs (p + 1) (ucast (drop_bit 16 v));
     xs \<leftarrow> wr xs (p + 2) (ucast (drop_bit 8 v)); wr xs (p + 3) (ucast v) }"

definition chacha20_quarter_round :: "u32 \<Rightarrow> u32 \<Rightarrow> u32 \<Rightarrow> u32 \<Rightarrow> u32 \<times> u32 \<times> u32 \<times> u32" where
  "chacha20_quarter_round a b c d =
     (let a = a + b; d = d XOR a; d = ROTL32 d 16;
          c = c + d; b = b XOR c; b = ROTL32 b 12;
          a = a + b; d = d XOR a; d = ROTL32 d 8;
          c = c + d; b = b XOR c; b = ROTL32 b 7
      in (a, b, c, d))"

text \<open>\<open>chacha20_quarter_round(&working[i], &working[j], &working[k], &working[l])\<close>\<close>

definition qround :: "nat \<Rightarrow> nat \<Rightarrow> nat \<Rightarrow> nat \<Rightarrow> u32 list \<Rightarrow> u32 list" where
  "qround i j k l w =
     (case chacha20_quarter_round (w ! i) (w ! j) (w ! k) (w ! l) of
        (a, b, c, d) \<Rightarrow> w[i := a, j := b, k := c, l := d])"

definition double_round :: "u32 list \<Rightarrow> u32 list" where
  "double_round w =
     (let w = qround 0 4 8 12 w; w = qround 1 5 9 13 w; w = qround 2 6 10 14 w; w = qround 3 7 11 15 w;
          w = qround 0 5 10 15 w; w = qround 1 6 11 12 w; w = qround 2 7 8 13 w
      in qround 3 4 9 14 w)"

definition chacha20_state :: "byte list \<Rightarrow> byte list \<Rightarrow> u32 \<Rightarrow> u32 list option" where
  "chacha20_state key nonce counter = do {
     k0 \<leftarrow> U8TO32 key 0; k1 \<leftarrow> U8TO32 key 4; k2 \<leftarrow> U8TO32 key 8; k3 \<leftarrow> U8TO32 key 12;
     k4 \<leftarrow> U8TO32 key 16; k5 \<leftarrow> U8TO32 key 20; k6 \<leftarrow> U8TO32 key 24; k7 \<leftarrow> U8TO32 key 28;
     n0 \<leftarrow> U8TO32 nonce 0; n1 \<leftarrow> U8TO32 nonce 4; n2 \<leftarrow> U8TO32 nonce 8;
     Some [0x61707865, 0x3320646e, 0x79622d32, 0x6b206574, k0, k1, k2, k3, k4, k5, k6, k7, counter, n0, n1, n2] }"

definition chacha20_block :: "byte list \<Rightarrow> byte list \<Rightarrow> u32 \<Rightarrow> byte list \<Rightarrow> byte list option" where
  "chacha20_block key nonce counter output = do {
     state \<leftarrow> chacha20_state key nonce counter;
     let working = (double_round ^^ 10) state;
     let working = map2 (+) working state;
     for_upto 0 16 (\<lambda>i output. U32TO8 output (i * 4) (working ! i)) output }"

function xor_loop ::
  "byte list \<Rightarrow> byte list \<Rightarrow> u32 \<Rightarrow> byte list \<Rightarrow> nat \<Rightarrow> nat \<Rightarrow> byte list \<Rightarrow> byte list \<Rightarrow> byte list option" where
  "xor_loop key nonce counter input len offset block output =
     (if offset < len then do {
        block \<leftarrow> chacha20_block key nonce (counter + of_nat (offset div 64)) block;
        let remaining = len - offset;
        let block_size = (if remaining < 64 then remaining else 64);
        output \<leftarrow> for_upto 0 block_size (\<lambda>i output. do {
          x \<leftarrow> rd input (offset + i); b \<leftarrow> rd block i; wr output (offset + i) (x XOR b) }) output;
        xor_loop key nonce counter input len (offset + block_size) block output }
      else Some output)"
  by pat_completeness auto
termination
  by (relation "measure (\<lambda>(key, nonce, counter, input, len, offset, block, output). len - offset)") auto

declare xor_loop.simps [simp del]

definition chacha20_xor ::
  "byte list \<Rightarrow> byte list \<Rightarrow> u32 \<Rightarrow> byte list \<Rightarrow> nat \<Rightarrow> byte list \<Rightarrow> byte list option" where
  "chacha20_xor key nonce counter input len output =
     xor_loop key nonce counter input len 0 (replicate 64 0) output"

section \<open>The authenticator\<close>

type_synonym limbs = "u64 \<times> u64 \<times> u64 \<times> u64 \<times> u64"

definition poly1305_limbs :: "byte list \<Rightarrow> limbs option" where
  "poly1305_limbs h = do {
     w0 \<leftarrow> U8TO32 h 0; w1 \<leftarrow> U8TO32 h 3; w2 \<leftarrow> U8TO32 h 6; w3 \<leftarrow> U8TO32 h 9; w4 \<leftarrow> U8TO32 h 12;
     Some (ucast (w0 AND 0x3ffffff), ucast (drop_bit 2 w1 AND 0x3ffffff), ucast (drop_bit 4 w2 AND 0x3ffffff),
           ucast (drop_bit 6 w3 AND 0x3ffffff), ucast (drop_bit 8 w4)) }"

fun poly1305_products :: "limbs \<Rightarrow> limbs \<Rightarrow> limbs" where
  "poly1305_products (h0, h1, h2, h3, h4) (r0, r1, r2, r3, r4) =
     (let s1 = r1 * 5; s2 = r2 * 5; s3 = r3 * 5; s4 = r4 * 5
      in ((h0 * r0) + (h1 * s4) + (h2 * s3) + (h3 * s2) + (h4 * s1),
          (h0 * r1) + (h1 * r0) + (h2 * s4) + (h3 * s3) + (h4 * s2),
          (h0 * r2) + (h1 * r1) + (h2 * r0) + (h3 * s4) + (h4 * s3),
          (h0 * r3) + (h1 * r2) + (h2 * r1) + (h3 * r0) + (h4 * s4),
          (h0 * r4) + (h1 * r3) + (h2 * r2) + (h3 * r1) + (h4 * r0)))"

fun poly1305_carry :: "limbs \<Rightarrow> limbs" where
  "poly1305_carry (d0, d1, d2, d3, d4) =
     (let carry = drop_bit 26 d0; d0 = d0 AND 0x3ffffff;
          d1 = d1 + carry; carry = drop_bit 26 d1; d1 = d1 AND 0x3ffffff;
          d2 = d2 + carry; carry = drop_bit 26 d2; d2 = d2 AND 0x3ffffff;
          d3 = d3 + carry; carry = drop_bit 26 d3; d3 = d3 AND 0x3ffffff;
          d4 = d4 + carry; carry = drop_bit 26 d4; d4 = d4 AND 0x3ffffff;
          d0 = d0 + carry * 5; carry = drop_bit 26 d0; d0 = d0 AND 0x3ffffff;
          d1 = d1 + carry
      in (d0, d1, d2, d3, d4))"

fun poly1305_store :: "limbs \<Rightarrow> byte list \<Rightarrow> byte list option" where
  "poly1305_store (d0, d1, d2, d3, d4) h = do {
     h \<leftarrow> U32TO8 h 0 (ucast d0 OR push_bit 26 (ucast d1));
     h \<leftarrow> U32TO8 h 4 (ucast (drop_bit 6 d1) OR push_bit 20 (ucast d2));
     h \<leftarrow> U32TO8 h 8 (ucast (drop_bit 12 d2) OR push_bit 14 (ucast d3));
     U32TO8 h 12 (ucast (drop_bit 18 d3) OR push_bit 8 (ucast d4)) }"

definition poly1305_mul :: "byte list \<Rightarrow> byte list \<Rightarrow> byte list option" where
  "poly1305_mul h r = do {
     hl \<leftarrow> poly1305_limbs h;
     rl \<leftarrow> poly1305_limbs r;
     poly1305_store (poly1305_carry (poly1305_products hl rl)) h }"

definition clamp_r :: "byte list \<Rightarrow> byte list" where
  "clamp_r r = r[3 := r ! 3 AND 0x0f, 4 := r ! 4 AND 0xfc, 7 := r ! 7 AND 0x0f, 8 := r ! 8 AND 0xfc,
                 11 := r ! 11 AND 0x0f, 12 := r ! 12 AND 0xfc, 15 := r ! 15 AND 0x0f]"

function mac_loop :: "byte list \<Rightarrow> byte list \<Rightarrow> nat \<Rightarrow> nat \<Rightarrow> byte list \<Rightarrow> byte list option" where
  "mac_loop r data len offset h =
     (if offset < len then do {
        let remaining = len - offset;
        let block_size = (if remaining < 16 then remaining else 16);
        d \<leftarrow> rd_bytes data offset block_size;
        block \<leftarrow> wr_bytes (replicate 16 0) 0 d;
        block \<leftarrow> wr block block_size 1;
        h \<leftarrow> poly1305_mul h r;
        h \<leftarrow> for_upto 0 16 (\<lambda>i h. do { x \<leftarrow> rd h i; b \<leftarrow> rd block i; wr h i (x XOR b) }) h;
        mac_loop r data len (offset + block_size) h }
      else Some h)"
  by pat_completeness auto
termination
  by (relation "measure (\<lambda>(r, data, len, offset, h). len - offset)") auto

declare mac_loop.simps [simp del]

definition poly1305_mac :: "byte list \<Rightarrow> byte list \<Rightarrow> nat \<Rightarrow> byte list \<Rightarrow> byte list option" where
  "poly1305_mac key data len tag = do {
     r \<leftarrow> rd_bytes key 0 16;
     let r = clamp_r r;
     pad \<leftarrow> rd_bytes key 16 16;
     h \<leftarrow> mac_loop r data len 0 (replicate 16 0);
     h \<leftarrow> poly1305_mul h r;
     for_upto 0 16 (\<lambda>i tag. do {
       x \<leftarrow> rd h i; p \<leftarrow> rd pad i; wr tag i (x + p) }) tag }"

definition poly1305_verify :: "byte list \<Rightarrow> byte list \<Rightarrow> nat \<Rightarrow> byte list \<Rightarrow> int option" where
  "poly1305_verify key data len tag = do {
     computed_tag \<leftarrow> poly1305_mac key data len (replicate 16 0);
     t \<leftarrow> rd_bytes tag 0 16;
     Some (if t = computed_tag then 0 else -1) }"

section \<open>Authenticated encryption\<close>

text \<open>The associated data, the ciphertext and their lengths in bits, written into \<open>mac_input\<close>.\<close>

definition mac_data :: "byte list ptr \<Rightarrow> nat \<Rightarrow> byte list \<Rightarrow> nat \<Rightarrow> (byte list \<times> nat) option" where
  "mac_data aadp aad_len ciphertext ct_len = do {
     let mac_input = replicate (16 + ct_len + 16) 0;
     let mac_len = 0;
     aad \<leftarrow> (case aadp of None \<Rightarrow> if aad_len = 0 then Some [] else None | Some a \<Rightarrow> rd_bytes a 0 aad_len);
     mac_input \<leftarrow> wr_bytes mac_input mac_len aad;
     let mac_len = mac_len + aad_len;
     ct \<leftarrow> rd_bytes ciphertext 0 ct_len;
     mac_input \<leftarrow> wr_bytes mac_input mac_len ct;
     let mac_len = mac_len + ct_len;
     let aad_bits = (of_nat (aad_len * 8) :: u64);
     let ct_bits = (of_nat (ct_len * 8) :: u64);
     mac_input \<leftarrow> wr_bytes mac_input mac_len (map (\<lambda>s. byte_at s aad_bits) [56, 48, 40, 32, 24, 16, 8, 0]);
     mac_input \<leftarrow> wr_bytes mac_input (mac_len + 8) (map (\<lambda>s. byte_at s ct_bits) [56, 48, 40, 32, 24, 16, 8, 0]);
     Some (mac_input, mac_len + 16) }"

definition chacha20_poly1305_encrypt ::
  "byte list ptr \<Rightarrow> byte list ptr \<Rightarrow> byte list ptr \<Rightarrow> nat \<Rightarrow> byte list ptr \<Rightarrow> nat \<Rightarrow>
   byte list ptr \<Rightarrow> nat ptr \<Rightarrow> byte list ptr \<Rightarrow> (int \<times> byte list ptr \<times> nat ptr \<times> byte list ptr) option" where
  "chacha20_poly1305_encrypt keyp ivp plaintextp pt_len aadp aad_len ciphertextp ct_lenp tagp =
     (case (keyp, ivp, plaintextp, ciphertextp, ct_lenp, tagp) of
        (Some key, Some iv, Some plaintext, Some ciphertext, Some ct_len, Some tag) \<Rightarrow> do {
          poly_key \<leftarrow> chacha20_block key iv 0 (replicate 32 0);
          ciphertext \<leftarrow> chacha20_xor key iv 1 plaintext pt_len ciphertext;
          (mac_input, mac_len) \<leftarrow> mac_data aadp aad_len ciphertext pt_len;
          tag \<leftarrow> poly1305_mac poly_key mac_input mac_len tag;
          Some (0, Some ciphertext, Some pt_len, Some tag) }
      | _ \<Rightarrow> Some (-1, ciphertextp, ct_lenp, tagp))"

definition chacha20_poly1305_decrypt ::
  "byte list ptr \<Rightarrow> byte list ptr \<Rightarrow> byte list ptr \<Rightarrow> nat \<Rightarrow> byte list ptr \<Rightarrow> nat \<Rightarrow>
   byte list ptr \<Rightarrow> nat ptr \<Rightarrow> byte list ptr \<Rightarrow> (int \<times> byte list ptr \<times> nat ptr) option" where
  "chacha20_poly1305_decrypt keyp ivp ciphertextp ct_len aadp aad_len plaintextp pt_lenp tagp =
     (case (keyp, ivp, ciphertextp, plaintextp, pt_lenp, tagp) of
        (Some key, Some iv, Some ciphertext, Some plaintext, Some pt_len, Some tag) \<Rightarrow> do {
          poly_key \<leftarrow> chacha20_block key iv 0 (replicate 32 0);
          (mac_input, mac_len) \<leftarrow> mac_data aadp aad_len ciphertext ct_len;
          computed_tag \<leftarrow> poly1305_mac poly_key mac_input mac_len (replicate 16 0);
          t \<leftarrow> rd_bytes tag 0 16;
          if t \<noteq> computed_tag then Some (-1, plaintextp, pt_lenp)
          else do {
            plaintext \<leftarrow> chacha20_xor key iv 1 ciphertext ct_len plaintext;
            Some (0, Some plaintext, Some ct_len) } }
      | _ \<Rightarrow> Some (-1, plaintextp, pt_lenp))"

section \<open>Words and bytes\<close>

definition be_bytes :: "u32 \<Rightarrow> byte list" where
  "be_bytes v = [ucast (drop_bit 24 v), ucast (drop_bit 16 v), ucast (drop_bit 8 v), ucast v]"

lemma length_be_bytes [simp]: "length (be_bytes v) = 4"
  by (simp add: be_bytes_def)

lemma U8TO32_in:
  "p + 4 \<le> length xs \<Longrightarrow> U8TO32 xs p = Some (be32 (xs ! p) (xs ! (p + 1)) (xs ! (p + 2)) (xs ! (p + 3)))"
  by (simp add: U8TO32_def be32_def access_simps)

lemma U32TO8_eq:
  assumes "p + 4 \<le> length xs"
  shows "U32TO8 xs p v = Some (take p xs @ be_bytes v @ drop (p + 4) xs)"
proof -
  have "xs = take p xs @ [xs ! p, xs ! (p + 1), xs ! (p + 2), xs ! (p + 3)] @ drop (p + 4) xs"
    using assms by (simp add: Cons_nth_drop_Suc flip: Suc_eq_plus1 add_2_eq_Suc' add_Suc_right
        numeral_3_eq_3 numeral_eq_Suc) (simp add: Cons_nth_drop_Suc eval_nat_numeral)
  then obtain us a b c d vs where xs: "xs = us @ [a, b, c, d] @ vs" "length us = p" "vs = drop (p + 4) xs" "us = take p xs"
    by (metis assms add_leD1 length_take min_absorb2)
  have "U32TO8 (us @ [a, b, c, d] @ vs) p v = Some (us @ be_bytes v @ vs)"
    using xs(2) by (auto simp: U32TO8_def wr_def be_bytes_def list_update_append)
  with xs show ?thesis by metis
qed

lemma U32TO8_out: "length xs < p + 4 \<Longrightarrow> U32TO8 xs p v = None"
  by (simp add: U32TO8_def wr_def)

text \<open>\<open>for (i = 0; i < 16; i++) U32TO8(output + (i * 4), working[i])\<close>\<close>

lemma store_loop:
  assumes "length ws = n" "4 * n \<le> length output"
  shows "for_upto 0 n (\<lambda>i output. U32TO8 output (i * 4) (ws ! i)) output =
    Some (concat (map be_bytes ws) @ drop (4 * n) output)"
proof -
  let ?P = "\<lambda>i s. s = concat (map be_bytes (take i ws)) @ drop (4 * i) output"
  have len: "length (concat (map be_bytes (take i ws))) = 4 * i" if "i \<le> n" for i
    using that assms(1) by (induction i) (simp_all add: take_Suc_conv_app_nth)
  have "\<exists>s'. for_upto 0 n (\<lambda>i output. U32TO8 output (i * 4) (ws ! i)) output = Some s' \<and> ?P n s'"
  proof (rule for_upto_rule)
    fix i s assume i: "i < n" and s: "s = concat (map be_bytes (take i ws)) @ drop (4 * i) output"
    have "U32TO8 s (i * 4) (ws ! i) = Some (take (i * 4) s @ be_bytes (ws ! i) @ drop (i * 4 + 4) s)"
      by (rule U32TO8_eq) (use s i assms(2) len [of i] in simp)
    also have "take (i * 4) s @ be_bytes (ws ! i) @ drop (i * 4 + 4) s =
        concat (map be_bytes (take (Suc i) ws)) @ drop (4 * Suc i) output"
      using s i assms len [of i] by (simp add: take_Suc_conv_app_nth mult.commute add.commute)
    finally show "\<exists>t. U32TO8 s (i * 4) (ws ! i) = Some t \<and> ?P (Suc i) t" by blast
  qed (simp_all)
  with assms(1) show ?thesis by simp
qed

lemma store_loop_short:
  assumes "length ws = n" "length output < 4 * n"
  shows "for_upto 0 n (\<lambda>i output. U32TO8 output (i * 4) (ws ! i)) output = None"
proof -
  let ?body = "\<lambda>i output. U32TO8 output (i * 4) (ws ! i)" and ?k = "length output div 4"
  let ?s = "concat (map be_bytes (take ?k ws)) @ drop (4 * ?k) output"
  have k: "?k < n" "4 * ?k \<le> length output" "length output < 4 * ?k + 4" using assms(2) by auto
  have "for_upto 0 ?k ?body output = for_upto 0 ?k (\<lambda>i output. U32TO8 output (i * 4) (take ?k ws ! i)) output"
    by (rule for_upto_cong) simp
  also have "\<dots> = Some ?s"
    by (rule store_loop) (use k assms(1) in simp_all)
  finally have first: "for_upto 0 ?k ?body output = Some ?s" .
  have "length ?s = length output"
  proof -
    have "length (concat (map be_bytes us)) = 4 * length us" for us by (induction us) simp_all
    then show ?thesis using k assms(1) by simp
  qed
  then have "?body ?k ?s = None" using k(3) by (intro U32TO8_out) simp
  with first k(1) show ?thesis
    by (subst for_upto_split [of 0 ?k n]) (simp_all add: for_upto_step)
qed

section \<open>The block function of RFC 8439\<close>

definition le32_at :: "byte list \<Rightarrow> nat \<Rightarrow> u32" where
  "le32_at xs i = be32 (xs ! (4 * i + 3)) (xs ! (4 * i + 2)) (xs ! (4 * i + 1)) (xs ! (4 * i))"

definition le_bytes :: "u32 \<Rightarrow> byte list" where
  "le_bytes v = rev (be_bytes v)"

definition rfc_quarter :: "u32 \<times> u32 \<times> u32 \<times> u32 \<Rightarrow> u32 \<times> u32 \<times> u32 \<times> u32" where
  "rfc_quarter = (\<lambda>(a, b, c, d).
     (let a = a + b; d = word_rotl 16 (d XOR a); c = c + d; b = word_rotl 12 (b XOR c);
          a = a + b; d = word_rotl 8 (d XOR a); c = c + d; b = word_rotl 7 (b XOR c)
      in (a, b, c, d)))"

definition rfc_apply :: "u32 list \<Rightarrow> nat \<times> nat \<times> nat \<times> nat \<Rightarrow> u32 list" where
  "rfc_apply w = (\<lambda>(i, j, k, l).
     (case rfc_quarter (w ! i, w ! j, w ! k, w ! l) of (a, b, c, d) \<Rightarrow> w[i := a, j := b, k := c, l := d]))"

definition rfc_double_round :: "u32 list \<Rightarrow> u32 list" where
  "rfc_double_round w = foldl rfc_apply w
     [(0, 4, 8, 12), (1, 5, 9, 13), (2, 6, 10, 14), (3, 7, 11, 15), (0, 5, 10, 15), (1, 6, 11, 12), (2, 7, 8, 13), (3, 4, 9, 14)]"

definition rfc_state :: "byte list \<Rightarrow> byte list \<Rightarrow> u32 \<Rightarrow> u32 list" where
  "rfc_state key nonce counter =
     [0x61707865, 0x3320646e, 0x79622d32, 0x6b206574] @ map (le32_at key) [0..<8] @ [counter] @ map (le32_at nonce) [0..<3]"

definition rfc_block :: "byte list \<Rightarrow> byte list \<Rightarrow> u32 \<Rightarrow> byte list" where
  "rfc_block key nonce counter =
     (let s = rfc_state key nonce counter
      in concat (map le_bytes (map2 (+) ((rfc_double_round ^^ 10) s) s)))"

text \<open>The bytes of every word reversed.\<close>

definition swap4 :: "byte list \<Rightarrow> byte list" where
  "swap4 xs = map (\<lambda>i. xs ! (4 * (i div 4) + (3 - i mod 4))) [0..<length xs]"

lemma length_swap4 [simp]: "length (swap4 xs) = length xs"
  by (simp add: swap4_def)

lemma ROTL32_rotl: "0 < n \<Longrightarrow> n < 32 \<Longrightarrow> ROTL32 a n = word_rotl n a"
proof (rule bit_word_eqI)
  fix i assume n: "0 < n" "n < 32" and i: "i < LENGTH(32)"
  have m: "(i + (32 - n)) mod 32 = (if n \<le> i then i - n else i + (32 - n))"
    using n i by (auto simp: mod_if)
  have "bit (ROTL32 a n) i \<longleftrightarrow> n \<le> i \<and> bit a (i - n) \<or> bit a (i + (32 - n))"
    using n i by (auto simp: ROTL32_def bit_simps add.commute)
  moreover have "\<not> bit a (i + (32 - n))" if "n \<le> i" using that n by (auto dest: bit_imp_le_length)
  ultimately show "bit (ROTL32 a n) i \<longleftrightarrow> bit (word_rotl n a) i"
    using n i m by (auto simp: bit_word_rotl_iff)
qed

lemma quarter_round_rfc: "chacha20_quarter_round a b c d = rfc_quarter (a, b, c, d)"
  by (simp add: chacha20_quarter_round_def rfc_quarter_def ROTL32_rotl Let_def)

lemma qround_rfc: "qround i j k l w = rfc_apply w (i, j, k, l)"
  by (simp add: qround_def rfc_apply_def quarter_round_rfc)

lemma double_round_rfc: "double_round = rfc_double_round"
  by (rule ext) (simp only: double_round_def rfc_double_round_def qround_rfc Let_def foldl.simps)

lemma length_rfc_apply [simp]: "length (rfc_apply w q) = length w"
  by (simp add: rfc_apply_def split: prod.split)

lemma length_foldl_rfc [simp]: "length (foldl rfc_apply w qs) = length w"
  by (induction qs arbitrary: w) simp_all

lemma length_double_round [simp]: "length (double_round w) = length w"
  by (simp only: double_round_rfc rfc_double_round_def length_foldl_rfc)

lemma length_rounds [simp]: "length ((double_round ^^ n) w) = length w"
  by (induction n) simp_all

lemma le32_at_swap4: "4 * i + 4 \<le> length xs \<Longrightarrow>
    le32_at (swap4 xs) i = be32 (xs ! (4 * i)) (xs ! (4 * i + 1)) (xs ! (4 * i + 2)) (xs ! (4 * i + 3))"
proof -
  assume a: "4 * i + 4 \<le> length xs"
  have "(4 * i + k) div 4 = i" "(4 * i + k) mod 4 = k" if "k < 4" for k using that by auto
  from this [of 0] this [of 1] this [of 2] this [of 3] a show ?thesis
    by (simp add: le32_at_def swap4_def)
qed

lemma U8TO32_swap4: "4 * i + 4 \<le> length xs \<Longrightarrow> p = 4 * i \<Longrightarrow> U8TO32 xs p = Some (le32_at (swap4 xs) i)"
  by (simp add: U8TO32_in le32_at_swap4)

lemma chacha20_state_rfc:
  assumes "length key = 32" "length nonce = 12"
  shows "chacha20_state key nonce counter = Some (rfc_state (swap4 key) (swap4 nonce) counter)"
proof -
  have k: "U8TO32 key (4 * i) = Some (le32_at (swap4 key) i)" if "i < 8" for i
    by (rule U8TO32_swap4) (use that assms in simp_all)
  have n: "U8TO32 nonce (4 * i) = Some (le32_at (swap4 nonce) i)" if "i < 3" for i
    by (rule U8TO32_swap4) (use that assms in simp_all)
  have u: "[0..<8] = [0, 1, 2, 3, 4, 5, 6, 7]" "[0..<3] = [0, 1, 2 :: nat]" by code_simp+
  from k [of 0] k [of 1] k [of 2] k [of 3] k [of 4] k [of 5] k [of 6] k [of 7] n [of 0] n [of 1] n [of 2]
  show ?thesis by (simp add: chacha20_state_def rfc_state_def u)
qed

lemma swap4_append:
  assumes "length xs = 4"
  shows "swap4 (xs @ ys) = rev xs @ swap4 ys"
proof (rule nth_equalityI)
  fix i assume i: "i < length (swap4 (xs @ ys))"
  then have n: "swap4 (xs @ ys) ! i = (xs @ ys) ! (4 * (i div 4) + (3 - i mod 4))"
    by (simp add: swap4_def)
  show "swap4 (xs @ ys) ! i = (rev xs @ swap4 ys) ! i"
  proof (cases "i < 4")
    case True
    then have "4 * (i div 4) + (3 - i mod 4) = 3 - i" "3 - i < 4" by simp_all
    then have "swap4 (xs @ ys) ! i = xs ! (3 - i)" unfolding n by (simp add: nth_append assms)
    moreover have "rev xs ! i = xs ! (3 - i)" using True assms by (simp add: rev_nth)
    ultimately show ?thesis using True assms by (simp add: nth_append)
  next
    case False
    then obtain k where k: "i = 4 + k" by (metis le_Suc_ex not_less)
    have d: "(4 + k) div 4 = Suc (k div 4)" "(4 + k) mod 4 = k mod 4" by simp_all
    have "4 * (i div 4) + (3 - i mod 4) = 4 + (4 * (k div 4) + (3 - k mod 4))"
      unfolding k d by simp
    moreover have "(xs @ ys) ! (4 + m) = ys ! m" for m
      using nth_append_length_plus [of xs ys m] assms by simp
    ultimately have "swap4 (xs @ ys) ! i = ys ! (4 * (k div 4) + (3 - k mod 4))"
      using n by (simp only:)
    with i k assms show ?thesis by (simp add: swap4_def nth_append)
  qed
qed simp

lemma swap4_words: "swap4 (concat (map le_bytes ws)) = concat (map be_bytes ws)"
proof (induction ws)
  case Nil
  then show ?case by (simp add: swap4_def)
next
  case (Cons w ws)
  then show ?case by (simp add: swap4_append le_bytes_def)
qed

definition cc_block :: "byte list \<Rightarrow> byte list \<Rightarrow> u32 \<Rightarrow> byte list" where
  "cc_block key nonce counter = swap4 (rfc_block (swap4 key) (swap4 nonce) counter)"

lemma length_rfc_state [simp]: "length (rfc_state key nonce counter) = 16"
  by (simp add: rfc_state_def)

lemma length_rfc_block [simp]: "length (rfc_block key nonce counter) = 64"
proof -
  have "length (concat (map le_bytes ws)) = 4 * length ws" for ws
    by (induction ws) (simp_all add: le_bytes_def)
  then show ?thesis
    by (simp only: rfc_block_def Let_def double_round_rfc [symmetric] length_map length_zip length_rounds length_rfc_state)
qed

lemma length_cc_block [simp]: "length (cc_block key nonce counter) = 64"
  by (simp add: cc_block_def)

lemma chacha20_block_eq:
  assumes "length key = 32" "length nonce = 12"
  shows "chacha20_block key nonce counter output =
    (if length output < 64 then None else Some (cc_block key nonce counter @ drop 64 output))"
proof -
  define s where "s = rfc_state (swap4 key) (swap4 nonce) counter"
  define ws where "ws = map2 (+) ((double_round ^^ 10) s) s"
  have s: "length s = 16" by (simp add: s_def rfc_state_def)
  then have l: "length ws = 16" by (simp add: ws_def)
  have b: "chacha20_block key nonce counter output =
      for_upto 0 16 (\<lambda>i output. U32TO8 output (i * 4) (ws ! i)) output"
    using assms by (simp add: chacha20_block_def chacha20_state_rfc s_def [symmetric] ws_def [symmetric] Let_def)
  have c: "cc_block key nonce counter = concat (map be_bytes ws)"
    by (simp only: cc_block_def rfc_block_def s_def [symmetric] double_round_rfc [symmetric] Let_def
        ws_def [symmetric] swap4_words)
  show ?thesis
  proof (cases "length output < 64")
    case False
    with store_loop [OF l] b c show ?thesis by simp
  next
    case True
    with store_loop_short [OF l] b show ?thesis by simp
  qed
qed

section \<open>The keystream\<close>

definition cc_byte :: "byte list \<Rightarrow> byte list \<Rightarrow> u32 \<Rightarrow> nat \<Rightarrow> byte" where
  "cc_byte key nonce counter j = cc_block key nonce (counter + of_nat (j div 64)) ! (j mod 64)"

definition cc_stream :: "byte list \<Rightarrow> byte list \<Rightarrow> u32 \<Rightarrow> nat \<Rightarrow> byte list" where
  "cc_stream key nonce counter n = map (cc_byte key nonce counter) [0..<n]"

lemma length_cc_stream [simp]: "length (cc_stream key nonce counter n) = n"
  by (simp add: cc_stream_def)

lemma xor_inner_loop:
  assumes "off + n \<le> length input" "off + n \<le> length output" "n \<le> length block"
  shows "for_upto 0 n (\<lambda>i output. do {
      x \<leftarrow> rd input (off + i); b \<leftarrow> rd block i; wr output (off + i) (x XOR b) }) output =
    Some (take off output @ map (\<lambda>i. input ! (off + i) XOR block ! i) [0..<n] @ drop (off + n) output)"
proof -
  let ?P = "\<lambda>i s. s = take off output @ map (\<lambda>i. input ! (off + i) XOR block ! i) [0..<i] @ drop (off + i) output"
  have "\<exists>s. for_upto 0 n (\<lambda>i output. do {
      x \<leftarrow> rd input (off + i); b \<leftarrow> rd block i; wr output (off + i) (x XOR b) }) output = Some s \<and> ?P n s"
  proof (rule for_upto_rule)
    fix j t assume j: "j < n" and t: "?P j t"
    have "drop (off + j) output = output ! (off + j) # drop (off + Suc j) output"
      using j assms(2) by (simp add: Cons_nth_drop_Suc)
    then show "\<exists>t'. do { x \<leftarrow> rd input (off + j); b \<leftarrow> rd block j; wr t (off + j) (x XOR b) } = Some t' \<and> ?P (Suc j) t'"
      using j t assms by (simp add: rd_def wr_def list_update_append)
  qed simp_all
  then show ?thesis by simp
qed

text \<open>One block of the stream: \<open>offset\<close> is a multiple of the block size.\<close>

lemma xor_chunk:
  fixes offset :: nat
  assumes "length key = 32" "length nonce = 12" "offset mod 64 = 0" "n \<le> 64" "offset + n \<le> length input" "offset + n \<le> length output"
  shows "for_upto 0 n (\<lambda>i output. do {
      x \<leftarrow> rd input (offset + i); y \<leftarrow> rd (cc_block key nonce (counter + of_nat (offset div 64))) i; wr output (offset + i) (x XOR y) }) output =
    Some (take offset output @ map (\<lambda>j. input ! j XOR cc_byte key nonce counter j) [offset..<offset + n] @ drop (offset + n) output)"
proof -
  let ?b = "cc_block key nonce (counter + of_nat (offset div 64))"
  have byte: "input ! (offset + i) XOR ?b ! i = input ! (offset + i) XOR cc_byte key nonce counter (offset + i)" if "i < n" for i
  proof -
    obtain q where q: "offset = 64 * q" using assms(3) by (metis mod_0_imp_dvd dvdE)
    have "i < 64" using that assms(4) by simp
    then have "(offset + i) div 64 = offset div 64" "(offset + i) mod 64 = i" by (simp_all add: q)
    then show ?thesis by (simp only: cc_byte_def)
  qed
  have "map (\<lambda>i. input ! (offset + i) XOR ?b ! i) [0..<n] = map (\<lambda>j. input ! j XOR cc_byte key nonce counter j) [offset..<offset + n]"
    by (rule nth_equalityI) (simp_all add: byte)
  then show ?thesis using xor_inner_loop [of offset n input _ ?b] assms by simp
qed

lemma xor_loop_eq:
  assumes "length key = 32" "length nonce = 12" "len \<le> length input" "len \<le> length output"
    and "offset mod 64 = 0 \<or> len \<le> offset" "length block = 64"
  shows "xor_loop key nonce counter input len offset block output =
    Some (take offset output @ map (\<lambda>j. input ! j XOR cc_byte key nonce counter j) [offset..<len] @ drop (max offset len) output)"
  using assms
proof (induction key nonce counter input len offset block "output" rule: xor_loop.induct)
  case (1 key nonce counter input len offset block "output")
  show ?case
  proof (cases "offset < len")
    case False
    then show ?thesis by (subst xor_loop.simps) (simp add: max_def)
  next
    case True
    define b where "b = cc_block key nonce (counter + of_nat (offset div 64))"
    define n where "n = (if len - offset < 64 then len - offset else 64)"
    define f where "f = (\<lambda>j. input ! j XOR cc_byte key nonce counter j)"
    define out where "out = take offset output @ map f [offset..<offset + n] @ drop (offset + n) output"
    have n: "offset + n \<le> len" "n \<le> 64" "(offset + n) mod 64 = 0 \<or> len \<le> offset + n" "offset mod 64 = 0"
      using True "1.prems"(5) by (auto simp: n_def)
    have blk: "chacha20_block key nonce (counter + of_nat (offset div 64)) block = Some b"
      using "1.prems" by (simp add: chacha20_block_eq b_def)
    have inner: "for_upto 0 n (\<lambda>i output. do {
        x \<leftarrow> rd input (offset + i); y \<leftarrow> rd b i; wr output (offset + i) (x XOR y) }) output = Some out"
      unfolding b_def out_def f_def by (rule xor_chunk) (use n "1.prems"(1-4) in simp_all)
    have lo: "length out = length output" "take (offset + n) out = take offset output @ map f [offset..<offset + n]"
      "drop len out = drop len output"
      using n(1) "1.prems"(4) by (simp_all add: out_def max_absorb2)
    have "xor_loop key nonce counter input len offset block output = xor_loop key nonce counter input len (offset + n) b out"
      using True blk inner by (subst xor_loop.simps) (simp only: Let_def if_True Option.bind.simps n_def [symmetric])
    also have "\<dots> = Some (take (offset + n) out @ map f [offset + n..<len] @ drop (max (offset + n) len) out)"
      unfolding f_def
      by (rule "1.IH" [OF True blk refl n_def inner "1.prems"(1-3) _ n(3)]) (use lo(1) "1.prems"(4) in \<open>simp_all add: b_def\<close>)
    also have "\<dots> = Some (take offset output @ map f [offset..<len] @ drop (max offset len) output)"
      using n(1) True upt_add_eq_append [of offset "offset + n" "len - (offset + n)"]
      by (simp add: lo(2,3) max_absorb2)
    finally show ?thesis by (simp only: f_def)
  qed
qed

lemma chacha20_xor_eq:
  assumes "length key = 32" "length nonce = 12" "len \<le> length input" "len \<le> length output"
  shows "chacha20_xor key nonce counter input len output =
    Some (xor_bytes (take len input) (cc_stream key nonce counter len) @ drop len output)"
proof -
  have "map (\<lambda>j. input ! j XOR cc_byte key nonce counter j) [0..<len] = xor_bytes (take len input) (cc_stream key nonce counter len)"
    by (rule nth_equalityI) (use assms(3) in \<open>simp_all add: cc_stream_def\<close>)
  with xor_loop_eq [OF assms, of 0 "replicate 64 0" counter] show ?thesis
    by (simp add: chacha20_xor_def)
qed

type_synonym cc_key = "(byte list \<times> byte list) \<times> u32"

definition cc_keystream :: "cc_key \<Rightarrow> nat \<Rightarrow> byte list" where
  "cc_keystream = (\<lambda>((key, nonce), counter). cc_stream (pad_to 32 key) (pad_to 12 nonce) counter)"

definition cc_crypt :: "cc_key \<Rightarrow> byte list \<Rightarrow> byte list" where
  "cc_crypt k xs = (case k of ((key, nonce), counter) \<Rightarrow>
     the (chacha20_xor (pad_to 32 key) (pad_to 12 nonce) counter xs (length xs) xs))"

interpretation cc: keystream_cipher cc_crypt cc_keystream
  by unfold_locales
     (auto simp: cc_crypt_def cc_keystream_def chacha20_xor_eq cc_stream_def take_map split: prod.split)

section \<open>The limb arithmetic of the authenticator\<close>

definition poly_prime :: int where
  "poly_prime = 2 ^ 130 - 5"

fun limbs_val :: "limbs \<Rightarrow> int" where
  "limbs_val (h0, h1, h2, h3, h4) =
     uint h0 + 2 ^ 26 * (uint h1 + 2 ^ 26 * (uint h2 + 2 ^ 26 * (uint h3 + 2 ^ 26 * uint h4)))"

fun limbs_below :: "int \<Rightarrow> limbs \<Rightarrow> bool" where
  "limbs_below b (h0, h1, h2, h3, h4) \<longleftrightarrow> uint h0 < b \<and> uint h1 < b \<and> uint h2 < b \<and> uint h3 < b \<and> uint h4 < b"

lemma uint_add_small: "uint x + uint y < 2 ^ LENGTH('a) \<Longrightarrow> uint (x + y) = uint x + uint (y :: 'a::len word)"
  by (simp add: uint_word_ariths)

lemma uint_mult_small: "uint x * uint y < 2 ^ LENGTH('a) \<Longrightarrow> uint (x * y) = uint x * uint (y :: 'a::len word)"
  by (simp add: uint_word_ariths)

lemma uint_carry:
  "uint (drop_bit 26 d) = uint d div 2 ^ 26" "uint (d AND 0x3ffffff) = uint d mod 2 ^ 26" for d :: u64
proof -
  have "(0x3ffffff :: u64) = mask 26" by (simp add: mask_eq_exp_minus_1)
  then have "d AND 0x3ffffff = take_bit 26 d" by (simp add: take_bit_eq_mask)
  then show "uint (d AND 0x3ffffff) = uint d mod 2 ^ 26"
    by (simp only: unsigned_take_bit_eq) (simp only: take_bit_eq_mod)
  show "uint (drop_bit 26 d) = uint d div 2 ^ 26"
    by (simp only: drop_bit_eq_div) (simp add: uint_div)
qed

definition pmax :: int where
  "pmax = 5 * 2 ^ 52"

lemma product_small:
  fixes x y :: u64
  assumes "uint x < 2 ^ 26" "uint y < 2 ^ 26"
  shows "uint (x * y) = uint x * uint y" "uint (x * (y * 5)) = 5 * (uint x * uint y)"
    "uint x * uint y \<le> pmax" "5 * (uint x * uint y) \<le> pmax"
proof -
  have "uint x * uint y \<le> 2 ^ 26 * 2 ^ 26"
    by (rule mult_mono) (use assms in simp_all)
  then have xy: "uint x * uint y \<le> 2 ^ 52" by simp
  then show "uint x * uint y \<le> pmax" "5 * (uint x * uint y) \<le> pmax" by (simp_all add: pmax_def)
  show "uint (x * y) = uint x * uint y" by (rule uint_mult_small) (use xy in simp)
  have y5: "uint (y * 5) = uint y * 5" by (subst uint_mult_small) (use assms(2) in simp_all)
  show "uint (x * (y * 5)) = 5 * (uint x * uint y)"
    using xy by (subst uint_mult_small) (simp_all add: y5)
qed

lemma sum5_small:
  fixes a b c d e :: u64
  assumes "uint a \<le> pmax" "uint b \<le> pmax" "uint c \<le> pmax" "uint d \<le> pmax" "uint e \<le> pmax"
  shows "uint (a + b + c + d + e) = uint a + uint b + uint c + uint d + uint e"
    "uint (a + b + c + d + e) < 5 * pmax + 1"
proof -
  have ab: "uint (a + b) = uint a + uint b"
    by (rule uint_add_small) (use assms in \<open>simp add: pmax_def\<close>)
  have abc: "uint (a + b + c) = uint a + uint b + uint c"
    unfolding ab [symmetric] by (rule uint_add_small) (use assms ab in \<open>simp add: pmax_def\<close>)
  have abcd: "uint (a + b + c + d) = uint a + uint b + uint c + uint d"
    unfolding abc [symmetric] by (rule uint_add_small) (use assms abc in \<open>simp add: pmax_def\<close>)
  show all: "uint (a + b + c + d + e) = uint a + uint b + uint c + uint d + uint e"
    unfolding abcd [symmetric] by (rule uint_add_small) (use assms abcd in \<open>simp add: pmax_def\<close>)
  show "uint (a + b + c + d + e) < 5 * pmax + 1" unfolding all using assms by simp
qed

text \<open>The schoolbook products, with \<open>B ^ 5\<close> replaced by 5.\<close>

lemma schoolbook:
  fixes B :: int
  shows "(h0 + B * (h1 + B * (h2 + B * (h3 + B * h4)))) * (r0 + B * (r1 + B * (r2 + B * (r3 + B * r4)))) =
    (h0 * r0 + 5 * (h1 * r4) + 5 * (h2 * r3) + 5 * (h3 * r2) + 5 * (h4 * r1)) +
    B * ((h0 * r1 + h1 * r0 + 5 * (h2 * r4) + 5 * (h3 * r3) + 5 * (h4 * r2)) +
    B * ((h0 * r2 + h1 * r1 + h2 * r0 + 5 * (h3 * r4) + 5 * (h4 * r3)) +
    B * ((h0 * r3 + h1 * r2 + h2 * r1 + h3 * r0 + 5 * (h4 * r4)) +
    B * (h0 * r4 + h1 * r3 + h2 * r2 + h3 * r1 + h4 * r0)))) +
    (B ^ 5 - 5) * ((h1 * r4 + h2 * r3 + h3 * r2 + h4 * r1) + B * ((h2 * r4 + h3 * r3 + h4 * r2) +
      B * ((h3 * r4 + h4 * r3) + B * (h4 * r4))))"
  by algebra

lemma products_val:
  assumes "limbs_below (2 ^ 26) h" "limbs_below (2 ^ 26) r"
  shows "limbs_below (5 * pmax + 1) (poly1305_products h r)"
    "limbs_val (poly1305_products h r) mod poly_prime = (limbs_val h * limbs_val r) mod poly_prime"
proof -
  obtain h0 h1 h2 h3 h4 where h: "h = (h0, h1, h2, h3, h4)" by (cases h)
  obtain r0 r1 r2 r3 r4 where r: "r = (r0, r1, r2, r3, r4)" by (cases r)
  have hb: "uint h0 < 2 ^ 26" "uint h1 < 2 ^ 26" "uint h2 < 2 ^ 26" "uint h3 < 2 ^ 26" "uint h4 < 2 ^ 26"
    and rb: "uint r0 < 2 ^ 26" "uint r1 < 2 ^ 26" "uint r2 < 2 ^ 26" "uint r3 < 2 ^ 26" "uint r4 < 2 ^ 26"
    using assms by (simp_all add: h r)
  note p = product_small
  have d: "uint ((h0 * r0) + (h1 * (r4 * 5)) + (h2 * (r3 * 5)) + (h3 * (r2 * 5)) + (h4 * (r1 * 5))) =
        uint h0 * uint r0 + 5 * (uint h1 * uint r4) + 5 * (uint h2 * uint r3) + 5 * (uint h3 * uint r2) + 5 * (uint h4 * uint r1)"
      "uint ((h0 * r1) + (h1 * r0) + (h2 * (r4 * 5)) + (h3 * (r3 * 5)) + (h4 * (r2 * 5))) =
        uint h0 * uint r1 + uint h1 * uint r0 + 5 * (uint h2 * uint r4) + 5 * (uint h3 * uint r3) + 5 * (uint h4 * uint r2)"
      "uint ((h0 * r2) + (h1 * r1) + (h2 * r0) + (h3 * (r4 * 5)) + (h4 * (r3 * 5))) =
        uint h0 * uint r2 + uint h1 * uint r1 + uint h2 * uint r0 + 5 * (uint h3 * uint r4) + 5 * (uint h4 * uint r3)"
      "uint ((h0 * r3) + (h1 * r2) + (h2 * r1) + (h3 * r0) + (h4 * (r4 * 5))) =
        uint h0 * uint r3 + uint h1 * uint r2 + uint h2 * uint r1 + uint h3 * uint r0 + 5 * (uint h4 * uint r4)"
      "uint ((h0 * r4) + (h1 * r3) + (h2 * r2) + (h3 * r1) + (h4 * r0)) =
        uint h0 * uint r4 + uint h1 * uint r3 + uint h2 * uint r2 + uint h3 * uint r1 + uint h4 * uint r0"
    by (subst sum5_small(1); simp only: p hb rb)+
  have b: "uint ((h0 * r0) + (h1 * (r4 * 5)) + (h2 * (r3 * 5)) + (h3 * (r2 * 5)) + (h4 * (r1 * 5))) < 5 * pmax + 1"
      "uint ((h0 * r1) + (h1 * r0) + (h2 * (r4 * 5)) + (h3 * (r3 * 5)) + (h4 * (r2 * 5))) < 5 * pmax + 1"
      "uint ((h0 * r2) + (h1 * r1) + (h2 * r0) + (h3 * (r4 * 5)) + (h4 * (r3 * 5))) < 5 * pmax + 1"
      "uint ((h0 * r3) + (h1 * r2) + (h2 * r1) + (h3 * r0) + (h4 * (r4 * 5))) < 5 * pmax + 1"
      "uint ((h0 * r4) + (h1 * r3) + (h2 * r2) + (h3 * r1) + (h4 * r0)) < 5 * pmax + 1"
    by (rule sum5_small(2); simp only: p hb rb)+
  show "limbs_below (5 * pmax + 1) (poly1305_products h r)"
    using b by (simp add: h r Let_def)
  have "limbs_val h * limbs_val r = limbs_val (poly1305_products h r) + poly_prime *
     ((uint h1 * uint r4 + uint h2 * uint r3 + uint h3 * uint r2 + uint h4 * uint r1) +
      2 ^ 26 * ((uint h2 * uint r4 + uint h3 * uint r3 + uint h4 * uint r2) +
      2 ^ 26 * ((uint h3 * uint r4 + uint h4 * uint r3) + 2 ^ 26 * (uint h4 * uint r4))))"
    unfolding h r limbs_val.simps poly1305_products.simps Let_def d poly_prime_def
    by (subst schoolbook) (simp flip: power_mult)
  then show "limbs_val (poly1305_products h r) mod poly_prime = (limbs_val h * limbs_val r) mod poly_prime"
    by simp
qed

lemma carry_chain:
  fixes d0 d1 d2 d3 d4 B :: int
  assumes "q0 = d0 div B" "m0 = d0 mod B" "q1 = (d1 + q0) div B" "m1 = (d1 + q0) mod B"
    "q2 = (d2 + q1) div B" "m2 = (d2 + q1) mod B" "q3 = (d3 + q2) div B" "m3 = (d3 + q2) mod B"
    "q4 = (d4 + q3) div B" "m4 = (d4 + q3) mod B" "q5 = (m0 + q4 * 5) div B" "n0 = (m0 + q4 * 5) mod B"
  shows "d0 + B * (d1 + B * (d2 + B * (d3 + B * d4))) =
    n0 + B * ((m1 + q5) + B * (m2 + B * (m3 + B * m4))) + (B ^ 5 - 5) * q4"
proof -
  have div: "x = B * (x div B) + x mod B" for x by simp
  have e: "d0 = B * q0 + m0" "d1 = B * q1 + m1 - q0" "d2 = B * q2 + m2 - q1" "d3 = B * q3 + m3 - q2"
    "d4 = B * q4 + m4 - q3" and m0: "m0 = B * q5 + n0 - q4 * 5"
    using div [of d0] div [of "d1 + q0"] div [of "d2 + q1"] div [of "d3 + q2"] div [of "d4 + q3"] div [of "m0 + q4 * 5"]
    unfolding assms(1-12) [symmetric] by linarith+
  show ?thesis
    unfolding e m0 by (simp add: algebra_simps eval_nat_numeral)
qed

lemma carry_word:
  fixes x y :: u64
  assumes "uint x < 2 ^ 60" "uint y < 2 ^ 61"
  shows "uint (x + drop_bit 26 y) = uint x + uint y div 2 ^ 26" "uint (x + drop_bit 26 y) < 2 ^ 61"
proof -
  have "uint y div 2 ^ 26 < 2 ^ 35" using assms(2) by (simp add: div_less_iff_less_mult)
  with assms(1) show "uint (x + drop_bit 26 y) = uint x + uint y div 2 ^ 26"
    by (subst uint_add_small) (simp_all add: uint_carry(1))
  with assms(1) \<open>uint y div 2 ^ 26 < 2 ^ 35\<close> show "uint (x + drop_bit 26 y) < 2 ^ 61" by simp
qed

lemma carry_fold:
  fixes x y :: u64
  assumes "uint y < 2 ^ 61"
  shows "uint ((x AND 0x3ffffff) + drop_bit 26 y * 5) = uint x mod 2 ^ 26 + uint y div 2 ^ 26 * 5"
    "uint ((x AND 0x3ffffff) + drop_bit 26 y * 5) < 2 ^ 38"
proof -
  have q: "uint y div 2 ^ 26 < 2 ^ 35" "0 \<le> uint y div 2 ^ 26"
    using assms by (simp_all add: div_less_iff_less_mult pos_imp_zdiv_nonneg_iff)
  have m: "uint x mod 2 ^ 26 < 2 ^ 26" by simp
  have "uint (drop_bit 26 y * 5) = uint y div 2 ^ 26 * 5"
    using q by (subst uint_mult_small) (simp_all add: uint_carry(1))
  with q m show "uint ((x AND 0x3ffffff) + drop_bit 26 y * 5) = uint x mod 2 ^ 26 + uint y div 2 ^ 26 * 5"
    by (subst uint_add_small) (simp_all add: uint_carry(2))
  with q m show "uint ((x AND 0x3ffffff) + drop_bit 26 y * 5) < 2 ^ 38" by simp
qed

lemma carry_val:
  assumes "limbs_below (2 ^ 60) d"
  shows "limbs_val (poly1305_carry d) mod poly_prime = limbs_val d mod poly_prime"
    "limbs_below (2 ^ 26 + 2 ^ 12) (poly1305_carry d)"
proof -
  obtain d0 d1 d2 d3 d4 where d: "d = (d0, d1, d2, d3, d4)" by (cases d)
  have b: "uint d0 < 2 ^ 61" "uint d1 < 2 ^ 60" "uint d2 < 2 ^ 60" "uint d3 < 2 ^ 60" "uint d4 < 2 ^ 60"
    using assms by (simp_all add: d)
  let ?B = "2 ^ 26 :: int"
  define w1 where "w1 = d1 + drop_bit 26 d0"
  define w2 where "w2 = d2 + drop_bit 26 w1"
  define w3 where "w3 = d3 + drop_bit 26 w2"
  define w4 where "w4 = d4 + drop_bit 26 w3"
  define v0 where "v0 = (d0 AND 0x3ffffff) + drop_bit 26 w4 * 5"
  define v1 where "v1 = (w1 AND 0x3ffffff) + drop_bit 26 v0"
  note w1 = carry_word [OF b(2) b(1), folded w1_def]
  note w2 = carry_word [OF b(3) w1(2), folded w2_def]
  note w3 = carry_word [OF b(4) w2(2), folded w3_def]
  note w4 = carry_word [OF b(5) w3(2), folded w4_def]
  note v0 = carry_fold [OF w4(2), of d0, folded v0_def]
  have m1: "uint (w1 AND 0x3ffffff) = uint w1 mod ?B" "uint w1 mod ?B < ?B" by (simp_all only: uint_carry(2)) simp
  have q5: "uint v0 div ?B < 2 ^ 12" using v0(2) by (simp add: div_less_iff_less_mult)
  have v1: "uint v1 = uint w1 mod ?B + uint v0 div ?B"
    unfolding v1_def m1(1) [symmetric] by (rule carry_word(1)) (use m1 v0(2) in simp_all)
  have c: "poly1305_carry d = (v0 AND 0x3ffffff, v1, w2 AND 0x3ffffff, w3 AND 0x3ffffff, w4 AND 0x3ffffff)"
    by (simp only: d poly1305_carry.simps Let_def w1_def w2_def w3_def w4_def v0_def v1_def)
  have "limbs_val d = limbs_val (poly1305_carry d) + (?B ^ 5 - 5) * (uint w4 div ?B)"
    unfolding c unfolding d limbs_val.simps uint_carry(2) v1
    by (rule carry_chain [OF refl refl]) (simp_all only: w1(1) w2(1) w3(1) w4(1) v0(1))
  then show "limbs_val (poly1305_carry d) mod poly_prime = limbs_val d mod poly_prime"
    by (simp add: poly_prime_def)
  have lim: "x mod ?B < 2 ^ 26 + 2 ^ 12" for x by (rule order.strict_trans [OF pos_mod_bound]) simp_all
  show "limbs_below (2 ^ 26 + 2 ^ 12) (poly1305_carry d)"
    unfolding c limbs_below.simps uint_carry(2) v1
    by (intro conjI add_strict_mono [OF m1(2) q5] lim)
qed

section \<open>The authenticator on arrays\<close>

declare poly1305_store.simps [simp del]

lemma store_eq:
  assumes "length h = 16"
  shows "poly1305_store (d0, d1, d2, d3, d4) h =
    Some (be_bytes (ucast d0 OR push_bit 26 (ucast d1)) @ be_bytes (ucast (drop_bit 6 d1) OR push_bit 20 (ucast d2)) @
      be_bytes (ucast (drop_bit 12 d2) OR push_bit 14 (ucast d3)) @ be_bytes (ucast (drop_bit 18 d3) OR push_bit 8 (ucast d4)))"
proof -
  have at: "U32TO8 (us @ drop k h) k v = Some ((us @ be_bytes v) @ drop (k + 4) h)" if "length us = k" "k + 4 \<le> 16" for us k v
    using that assms by (subst U32TO8_eq) (simp_all add: add.commute)
  have "U32TO8 h 0 v = Some (be_bytes v @ drop 4 h)" for v
    using at [of "[]" 0 v] by simp
  moreover have "U32TO8 (be_bytes u @ drop 4 h) 4 v = Some ((be_bytes u @ be_bytes v) @ drop 8 h)" for u v
    using at [of "be_bytes u" 4 v] by simp
  moreover have "U32TO8 ((be_bytes u @ be_bytes v) @ drop 8 h) 8 w = Some (((be_bytes u @ be_bytes v) @ be_bytes w) @ drop 12 h)" for u v w
    using at [of "be_bytes u @ be_bytes v" 8 w] by simp
  moreover have "U32TO8 (((be_bytes u @ be_bytes v) @ be_bytes w) @ drop 12 h) 12 x =
      Some ((((be_bytes u @ be_bytes v) @ be_bytes w) @ be_bytes x) @ drop 16 h)" for u v w x
    using at [of "(be_bytes u @ be_bytes v) @ be_bytes w" 12 x] by simp
  ultimately show ?thesis
    using assms by (simp only: poly1305_store.simps Option.bind.simps) simp
qed

lemma limbs_total: "length h = 16 \<Longrightarrow> \<exists>l. poly1305_limbs h = Some l"
  by (simp add: poly1305_limbs_def U8TO32_in)

lemma limbs_last:
  assumes "length h = 16"
  shows "poly1305_limbs (h[15 := x]) = poly1305_limbs h"
proof -
  have "drop_bit 8 (be32 a b c x) = drop_bit 8 (be32 a b c y)" for a b c x y
    by (rule bit_word_eqI) (auto simp: be32_def bit_simps dest: bit_imp_le_length)
  then show ?thesis using assms
    by (simp add: poly1305_limbs_def U8TO32_in) metis
qed

lemma poly1305_mul_total:
  assumes "length h = 16" "length r = 16"
  shows "\<exists>h'. poly1305_mul h r = Some h' \<and> length h' = 16"
proof -
  obtain a b where "poly1305_limbs h = Some a" "poly1305_limbs r = Some b" using limbs_total assms by blast
  moreover obtain d0 d1 d2 d3 d4 where "poly1305_carry (poly1305_products a b) = (d0, d1, d2, d3, d4)"
    by (metis prod_cases5)
  ultimately show ?thesis using assms(1) by (simp add: poly1305_mul_def store_eq)
qed

lemma poly1305_mul_last:
  assumes "length h = 16" "length r = 16"
  shows "poly1305_mul (h[15 := x]) r = poly1305_mul h r"
proof -
  obtain a b where "poly1305_limbs h = Some a" "poly1305_limbs r = Some b" using limbs_total assms by blast
  moreover obtain d0 d1 d2 d3 d4 where "poly1305_carry (poly1305_products a b) = (d0, d1, d2, d3, d4)"
    by (metis prod_cases5)
  ultimately show ?thesis using assms by (simp add: poly1305_mul_def store_eq limbs_last)
qed

lemma xor_block_loop:
  assumes "length h = 16" "length block = 16"
  shows "for_upto 0 16 (\<lambda>i h. do { x \<leftarrow> rd h i; b \<leftarrow> rd block i; wr h i (x XOR b) }) h = Some (xor_bytes h block)"
proof -
  have "for_upto 0 16 (\<lambda>i h. do { x \<leftarrow> rd h i; b \<leftarrow> rd block i; wr h i (x XOR b) }) h =
      Some (map (\<lambda>i. h ! i XOR block ! i) [0..<16] @ drop 16 h)"
  proof (rule for_upto_fill)
    fix i :: nat and s assume i: "i < 16" "length s = length h" "drop i s = drop i h"
    then have "s ! i = h ! i" using assms(1) by (metis hd_drop_conv_nth)
    with i assms show "do { x \<leftarrow> rd s i; b \<leftarrow> rd block i; wr s i (x XOR b) } = wr s i (h ! i XOR block ! i)"
      by (simp add: rd_def)
  qed (use assms in simp)
  then show ?thesis using map_xor_upt [of 16 h block] assms by (simp del: upt_rec_numeral)
qed

definition mac_block :: "byte list \<Rightarrow> byte list" where
  "mac_block m = m @ [1] @ replicate (15 - length m) 0"

definition mac_first :: "byte list \<Rightarrow> byte list" where
  "mac_first r = the (poly1305_mul (replicate 16 0) r)"

lemma mac_loop_short:
  assumes "length r = 16" "length m = len" "0 < len" "len < 16"
  shows "mac_loop r m len 0 (replicate 16 0) = Some (xor_bytes (mac_first r) (mac_block m))"
proof -
  obtain h where h: "poly1305_mul (replicate 16 0) r = Some h" "length h = 16"
    using poly1305_mul_total [of "replicate 16 0" r] assms(1) by auto
  have b: "wr_bytes (replicate 16 0) 0 m = Some (m @ replicate (16 - len) 0)"
    using assms by (simp add: wr_bytes_def)
  have w: "wr (m @ replicate (16 - len) 0) len 1 = Some (mac_block m)"
  proof -
    have "replicate (16 - len) (0 :: byte) = 0 # replicate (15 - len) 0"
      using assms(4) by (simp flip: replicate_Suc)
    then show ?thesis using assms by (simp add: wr_def mac_block_def list_update_append)
  qed
  have "length (mac_block m) = 16" using assms by (simp add: mac_block_def)
  with h(2) have x: "for_upto 0 16 (\<lambda>i h. do { x \<leftarrow> rd h i; b \<leftarrow> rd (mac_block m) i; wr h i (x XOR b) }) h =
      Some (xor_bytes h (mac_block m))" by (rule xor_block_loop)
  have r: "rd_bytes m 0 len = Some m" using assms(2) by (simp add: rd_bytes_def)
  have n: "(if len - 0 < 16 then len - 0 else 16) = len" using assms(4) by simp
  have "mac_loop r m len 0 (replicate 16 0) = mac_loop r m len (0 + len) (xor_bytes h (mac_block m))"
    using assms(3) by (subst mac_loop.simps) (simp only: Let_def n r b w h(1) x if_True Option.bind.simps)
  also have "\<dots> = Some (xor_bytes h (mac_block m))" by (subst mac_loop.simps) simp
  finally show ?thesis using h(1) by (simp add: mac_first_def)
qed

lemma mac_loop_long: "16 \<le> len \<Longrightarrow> mac_loop r data len 0 h = None"
proof -
  assume len: "16 \<le> len"
  then have n: "(if len - 0 < 16 then len - 0 else 16) = 16" by simp
  have "wr b 16 (1 :: byte) = None" if "wr_bytes (replicate 16 0) 0 d = Some b" for d b
    using wr_bytes_length [OF that] by (simp add: wr_def)
  with len show ?thesis
    by (subst mac_loop.simps) (auto simp: Let_def split: Option.bind_splits)
qed

section \<open>Properties\<close>

text \<open>
  C22. The block function computes the one of RFC 8439 with the bytes of every 32-bit word reversed, in the key, in
  the nonce and in the output: the constants, the rounds and the final addition are right, the byte order is
  not. An output array of less than 64 bytes is overrun.
\<close>

theorem chacha20_block_rfc:
  assumes "length key = 32" "length nonce = 12"
  shows "chacha20_block key nonce counter output =
    (if length output < 64 then None
     else Some (swap4 (rfc_block (swap4 key) (swap4 nonce) counter) @ drop 64 output))"
  using chacha20_block_eq [OF assms] by (simp add: cc_block_def)

lemma chacha20_block_rfc_witness:
  "chacha20_block (replicate 32 1) (replicate 12 0) 1 (replicate 64 0) =
    Some (swap4 (rfc_block (swap4 (replicate 32 1)) (swap4 (replicate 12 0)) 1) @ [])"
  using chacha20_block_rfc [of "replicate 32 1" "replicate 12 0" 1 "replicate 64 0"] by simp

text \<open>
  The loop of \<open>chacha20_xor\<close> ends, stays inside arrays that hold \<open>len\<close> bytes, and is its own inverse: what one call has encrypted
  a second call with the same key, nonce and counter restores, and bytes behind \<open>len\<close> are left alone.
\<close>

theorem chacha20_xor_roundtrip:
  assumes "length key = 32" "length nonce = 12" "len \<le> length input" "len \<le> length out1" "len \<le> length out2"
  shows "\<exists>ct. length ct = len \<and> chacha20_xor key nonce counter input len out1 = Some (ct @ drop len out1) \<and>
    chacha20_xor key nonce counter (ct @ drop len out1) len out2 = Some (take len input @ drop len out2)"
proof -
  let ?ct = "cc_crypt ((key, nonce), counter) (take len input)"
  have c: "?ct = xor_bytes (take len input) (cc_stream key nonce counter len)"
    using assms(1-3) by (simp add: cc.crypt_stream cc_keystream_def pad_to_id min_absorb2)
  have l: "length ?ct = len" using assms(3) by (simp add: cc.crypt_length min_absorb2)
  have "xor_bytes ?ct (cc_stream key nonce counter len) = take len input"
    unfolding c using assms(3) by simp
  with l assms chacha20_xor_eq [OF assms(1-4), of counter]
    chacha20_xor_eq [OF assms(1,2) _ assms(5), of "?ct @ drop len out1" counter]
  show ?thesis by (intro exI [of _ ?ct]) (simp add: c [symmetric])
qed

lemma chacha20_xor_roundtrip_witness:
  "\<exists>ct. length ct = 100 \<and>
    chacha20_xor (replicate 32 1) (replicate 12 0) 1 (replicate 100 7) 100 (replicate 100 0) = Some ct \<and>
    chacha20_xor (replicate 32 1) (replicate 12 0) 1 ct 100 (replicate 100 0) = Some (replicate 100 7)"
  using chacha20_xor_roundtrip [of "replicate 32 1" "replicate 12 0" 100 "replicate 100 7" "replicate 100 0" "replicate 100 0" 1]
  by simp

text \<open>
  C23. Between reading and writing its arrays, the multiplication of the authenticator is right: for limbs below
  \<open>2 ^ 26\<close> no product or sum wraps around 64 bits, the carried limbs stand for the product modulo \<open>2 ^ 130 - 5\<close>, and they
  are below \<open>2 ^ 26 + 2 ^ 12\<close>.
\<close>

theorem poly1305_limb_product:
  assumes "limbs_below (2 ^ 26) h" "limbs_below (2 ^ 26) r"
  shows "limbs_val (poly1305_carry (poly1305_products h r)) mod (2 ^ 130 - 5) = limbs_val h * limbs_val r mod (2 ^ 130 - 5) \<and>
    limbs_below (2 ^ 26 + 2 ^ 12) (poly1305_carry (poly1305_products h r))"
proof -
  obtain d0 d1 d2 d3 d4 where d: "poly1305_products h r = (d0, d1, d2, d3, d4)" by (metis prod_cases5)
  have "limbs_below (2 ^ 60) (poly1305_products h r)"
    using products_val(1) [OF assms] by (simp add: d pmax_def)
  from carry_val [OF this] products_val(2) [OF assms] show ?thesis by (simp add: poly_prime_def)
qed

lemma poly1305_limb_product_witness:
  "limbs_val (poly1305_carry (poly1305_products (1, 2, 3, 4, 0x3ffffff) (5, 6, 7, 8, 0x3ffffff))) mod (2 ^ 130 - 5) =
     limbs_val (1, 2, 3, 4, 0x3ffffff) * limbs_val (5, 6, 7, 8, 0x3ffffff) mod (2 ^ 130 - 5)"
  using poly1305_limb_product [of "(1, 2, 3, 4, 0x3ffffff)" "(5, 6, 7, 8, 0x3ffffff)"] by simp

text \<open>
  C24. The authenticator forgives a change: its last limb is read without its lowest byte, so byte 15 of the state never enters
  a multiplication. A message of 14 bytes and the same message with a byte 1 appended have the same tag under every key, and
  \<open>poly1305_verify\<close> accepts the one with the tag of the other.
\<close>

theorem poly1305_forgery:
  assumes "length key = 32" "length m = 14"
  shows "\<exists>tag. length tag = 16 \<and>
    poly1305_mac key m 14 (replicate 16 0) = Some tag \<and> poly1305_mac key (m @ [1]) 15 (replicate 16 0) = Some tag \<and>
    poly1305_verify key (m @ [1]) 15 tag = Some 0"
proof -
  let ?r = "clamp_r (take 16 key)" and ?pad = "take 16 (drop 16 key)"
  have r: "length ?r = 16" using assms(1) by (simp add: clamp_r_def)
  let ?h = "xor_bytes (mac_first ?r) (mac_block m)"
  have b: "mac_block (m @ [1]) = (mac_block m)[15 := 1]" "length (mac_block m) = 16"
    using assms(2) by (simp_all add: mac_block_def list_update_append numeral_eq_Suc)
  obtain h0 where "poly1305_mul (replicate 16 0) ?r = Some h0" "length h0 = 16"
    using poly1305_mul_total [of "replicate 16 0" ?r] r by auto
  then have f: "length (mac_first ?r) = 16" by (simp add: mac_first_def)
  have h: "length ?h = 16" using f b(2) by simp
  have "xor_bytes (mac_first ?r) (mac_block (m @ [1])) = ?h[15 := mac_first ?r ! 15 XOR 1]"
    by (rule nth_equalityI) (use f b h in \<open>auto simp: nth_list_update\<close>)
  then have same: "poly1305_mul (xor_bytes (mac_first ?r) (mac_block (m @ [1]))) ?r = poly1305_mul ?h ?r"
    using poly1305_mul_last [OF h r] by simp
  obtain h' where h': "poly1305_mul ?h ?r = Some h'" "length h' = 16" using poly1305_mul_total [OF h r] by blast
  let ?body = "\<lambda>i tag. do { x \<leftarrow> rd h' i; p \<leftarrow> rd ?pad i; wr tag i (x + p) }"
  have fin: "for_upto 0 16 ?body (replicate 16 0) = Some (map (\<lambda>i. h' ! i + ?pad ! i) [0..<16] @ drop 16 (replicate 16 0))"
    by (rule for_upto_fill) (use h'(2) assms(1) in \<open>simp_all add: rd_def del: upt_rec_numeral\<close>)
  let ?tag = "map (\<lambda>i. h' ! i + ?pad ! i) [0..<16]"
  have k: "rd_bytes key 0 16 = Some (take 16 key)" "rd_bytes key 16 16 = Some ?pad"
    using assms(1) by (simp_all add: rd_bytes_def)
  have m1: "poly1305_mac key m 14 (replicate 16 0) = Some ?tag"
    using mac_loop_short [OF r assms(2)] k h'(1) fin by (simp add: poly1305_mac_def Let_def del: upt_rec_numeral)
  have m2: "poly1305_mac key (m @ [1]) 15 (replicate 16 0) = Some ?tag"
    using mac_loop_short [OF r, of "m @ [1]" 15] assms(2) k same h'(1) fin
    by (simp add: poly1305_mac_def Let_def del: upt_rec_numeral)
  have "poly1305_verify key (m @ [1]) 15 ?tag = Some 0"
    using m2 by (simp add: poly1305_verify_def rd_bytes_def del: upt_rec_numeral)
  with m1 m2 show ?thesis by (intro exI [of _ ?tag]) (simp del: upt_rec_numeral)
qed

lemma poly1305_forgery_witness:
  "\<exists>tag. poly1305_mac (replicate 32 3) (replicate 14 7) 14 (replicate 16 0) = Some tag \<and>
     poly1305_verify (replicate 32 3) (replicate 14 7 @ [1]) 15 tag = Some 0"
  using poly1305_forgery [of "replicate 32 3" "replicate 14 7"] by auto

text \<open>
  C25. The combined cipher cannot be used: whenever no pointer is NULL, \<open>chacha20_poly1305_encrypt\<close> and \<open>chacha20_poly1305_decrypt\<close> write 64
  bytes into the 32-byte array of the authenticator's key; otherwise they return -1. And on its own, \<open>poly1305_mac\<close>
  writes behind its block array for every message of 16 bytes or more.
\<close>

theorem chacha20_poly1305_overflows:
  "chacha20_poly1305_encrypt key iv plaintext pt_len aad aad_len ciphertext ct_len tag =
     (if NULL \<in> {key, iv, plaintext, ciphertext, tag} \<or> ct_len = NULL then Some (-1, ciphertext, ct_len, tag) else None) \<and>
   chacha20_poly1305_decrypt key iv ciphertext n aad aad_len plaintext pt_lenp tag =
     (if NULL \<in> {key, iv, ciphertext, plaintext, tag} \<or> pt_lenp = NULL then Some (-1, plaintext, pt_lenp) else None) \<and>
   poly1305_mac k data (16 + j) t = None"
proof -
  have s: "length s = 16" if "chacha20_state a b c = Some s" for a b c s
    using that by (auto simp: chacha20_state_def split: Option.bind_splits)
  have "chacha20_block a b c (replicate 32 0) = None" for a b c
  proof (cases "chacha20_state a b c")
    case (Some st)
    have "length (map2 (+) ((double_round ^^ 10) st) st) = 16" using s [OF Some] by simp
    from store_loop_short [OF this] Some show ?thesis by (simp add: chacha20_block_def Let_def)
  qed (simp add: chacha20_block_def)
  moreover have "poly1305_mac k data (16 + j) t = None"
    using mac_loop_long [of "16 + j"] by (auto simp: poly1305_mac_def Let_def split: Option.bind_splits)
  ultimately show ?thesis
    by (auto simp: chacha20_poly1305_encrypt_def chacha20_poly1305_decrypt_def split: option.split)
qed

end
