(* ===== verification/Axon_Asn1.thy ===== *)
theory Axon_Asn1
  imports Axon_Secure "HOL-Library.Multiset"
begin

text \<open>
  The ASN.1 parser, \<open>parser/source/asn1.c\<close>. A node is its struct together with the address of its block; the
  bytes of a value are in the heap. Siblings are linked through \<open>next\<close>. The recursion of the parser and its loop
  over the children are one function with fuel; \<open>asn1_parse\<close> gives it one unit more than there are bytes,
  which is shown to be enough for every input.
\<close>

section \<open>The code\<close>

definition ASN1_INTEGER :: byte where "ASN1_INTEGER = 0x02"
definition ASN1_BIT_STRING :: byte where "ASN1_BIT_STRING = 0x03"
definition ASN1_OCTET_STRING :: byte where "ASN1_OCTET_STRING = 0x04"
definition ASN1_OBJECT_IDENTIFIER :: byte where "ASN1_OBJECT_IDENTIFIER = 0x06"
definition ASN1_UTF8_STRING :: byte where "ASN1_UTF8_STRING = 0x0C"
definition ASN1_SEQUENCE :: byte where "ASN1_SEQUENCE = 0x10"
definition ASN1_PRINTABLE_STRING :: byte where "ASN1_PRINTABLE_STRING = 0x13"
definition ASN1_IA5_STRING :: byte where "ASN1_IA5_STRING = 0x16"
definition ASN1_CONSTRUCTED :: byte where "ASN1_CONSTRUCTED = 0x20"

datatype asn1_node =
  Node (node_addr: nat) (node_tag: byte) (node_length: u32) (node_value: "nat ptr")
    (node_children: "asn1_node ptr") (node_next: "asn1_node ptr")

definition sizeof_node :: nat where
  "sizeof_node = 32"

text \<open>The bytes of a length that follow the first one: \<open>*length = (*length << 8) | **data\<close>.\<close>

fun length_bytes :: "nat \<Rightarrow> byte list \<Rightarrow> nat \<Rightarrow> u32 \<Rightarrow> u32 option" where
  "length_bytes 0 data pos len = Some len"
| "length_bytes (Suc n) data pos len = do {
     b \<leftarrow> rd data pos;
     length_bytes n data (pos + 1) (push_bit 8 len OR ucast b) }"

definition asn1_read_length :: "byte list \<Rightarrow> nat \<Rightarrow> nat \<Rightarrow> (int \<times> nat \<times> nat \<times> u32) option" where
  "asn1_read_length data pos remaining =
     (if remaining < 1 then Some (-1, pos, remaining, 0)
      else do {
        first \<leftarrow> rd data pos;
        let pos = pos + 1;
        let remaining = remaining - 1;
        if first < 0x80 then Some (0, pos, remaining, ucast first)
        else do {
          let num_bytes = unat (first AND 0x7F);
          if num_bytes > 4 \<or> remaining < num_bytes then Some (-1, pos, remaining, 0)
          else do {
            len \<leftarrow> length_bytes num_bytes data pos 0;
            Some (0, pos + num_bytes, remaining - num_bytes, len) } } })"

fun asn1_free :: "asn1_node ptr \<Rightarrow> heap \<Rightarrow> heap option" where
  "asn1_free None h = Some h"
| "asn1_free (Some (Node a t len v children next)) h = do {
     h \<leftarrow> asn1_free children h;
     h \<leftarrow> asn1_free next h;
     h \<leftarrow> (case v of None \<Rightarrow> Some h | Some _ \<Rightarrow> secure_free v (unat len) h);
     secure_free (Some a) sizeof_node h }"

text \<open>The children in the order in which they were appended, linked through \<open>next\<close>.\<close>

fun link :: "asn1_node list \<Rightarrow> asn1_node ptr" where
  "link [] = NULL"
| "link (Node a t len v children _ # ns) = Some (Node a t len v children (link ns))"

fun asn1_parse_node :: "nat \<Rightarrow> byte list \<Rightarrow> nat \<Rightarrow> nat \<Rightarrow> heap \<Rightarrow> (int \<times> asn1_node ptr \<times> nat \<times> nat \<times> heap) option"
  and asn1_children :: "nat \<Rightarrow> byte list \<Rightarrow> nat \<Rightarrow> nat \<Rightarrow> asn1_node list \<Rightarrow> heap \<Rightarrow> (int \<times> asn1_node list \<times> heap) option" where
  "asn1_parse_node 0 data pos remaining h = None"
| "asn1_parse_node (Suc fuel) data pos remaining h =
     (if remaining < 1 then Some (-1, NULL, pos, remaining, h)
      else (case secure_alloc sizeof_node h of
        (None, h) \<Rightarrow> Some (-1, NULL, pos, remaining, h)
      | (Some a, h) \<Rightarrow> do {
          tag \<leftarrow> rd data pos;
          (ret, pos, remaining, len) \<leftarrow> asn1_read_length data (pos + 1) (remaining - 1);
          if ret < 0 then do {
            h \<leftarrow> secure_free (Some a) sizeof_node h; Some (-1, NULL, pos, remaining, h) }
          else if remaining < unat len then do {
            h \<leftarrow> secure_free (Some a) sizeof_node h; Some (-1, NULL, pos, remaining, h) }
          else if tag AND ASN1_CONSTRUCTED \<noteq> 0 then do {
            (ret, cs, h) \<leftarrow> asn1_children fuel data pos (unat len) [] h;
            let new_node = Node a tag len NULL (link cs) NULL;
            if ret < 0 then do { h \<leftarrow> asn1_free (Some new_node) h; Some (-1, NULL, pos, remaining, h) }
            else Some (0, Some new_node, pos + unat len, remaining - unat len, h) }
          else (case secure_alloc (unat len) h of
            (None, h) \<Rightarrow> do {
              h \<leftarrow> secure_free (Some a) sizeof_node h; Some (-1, NULL, pos, remaining, h) }
          | (Some v, h) \<Rightarrow> do {
              d \<leftarrow> rd_bytes data pos (unat len);
              b \<leftarrow> blocks h v;
              b \<leftarrow> wr_bytes b 0 d;
              Some (0, Some (Node a tag len (Some v) NULL NULL), pos + unat len, remaining - unat len,
                    h\<lparr>blocks := (blocks h)(v \<mapsto> b)\<rparr>) }) }))"
| "asn1_children 0 data pos remaining cs h = None"
| "asn1_children (Suc fuel) data child_data child_remaining cs h =
     (if child_remaining > 0 then do {
        (ret, child, child_data, child_remaining, h) \<leftarrow> asn1_parse_node fuel data child_data child_remaining h;
        if ret < 0 then Some (-1, cs, h)
        else do { c \<leftarrow> child; asn1_children fuel data child_data child_remaining (cs @ [c]) h } }
      else Some (0, cs, h))"

definition asn1_parse ::
  "asn1_node ptr ptr \<Rightarrow> byte list ptr \<Rightarrow> nat \<Rightarrow> heap \<Rightarrow> (int \<times> asn1_node ptr ptr \<times> heap) option" where
  "asn1_parse rootp datap len h =
     (case (rootp, datap) of
        (Some root, Some data) \<Rightarrow>
          if len = 0 then Some (-1, rootp, h)
          else do {
            (ret, node, _, _, h) \<leftarrow> asn1_parse_node (len + 1) data 0 len h;
            Some (ret, if ret < 0 then rootp else Some node, h) }
      | _ \<Rightarrow> Some (-1, rootp, h))"

fun asn1_find :: "asn1_node ptr \<Rightarrow> byte \<Rightarrow> asn1_node ptr" where
  "asn1_find None tag = NULL"
| "asn1_find (Some (Node a t len v children next)) tag =
     (if t = tag then Some (Node a t len v children next)
      else (case asn1_find children tag of
              Some found \<Rightarrow> Some found
            | None \<Rightarrow> asn1_find next tag))"

definition asn1_get_integer :: "asn1_node ptr \<Rightarrow> u32 ptr \<Rightarrow> heap \<Rightarrow> (int \<times> u32 ptr) option" where
  "asn1_get_integer nodep outp h =
     (case (nodep, outp) of
        (Some node, Some out) \<Rightarrow>
          (case node_value node of
             None \<Rightarrow> Some (-1, outp)
           | Some v \<Rightarrow>
               if node_tag node \<noteq> ASN1_INTEGER \<or> unat (node_length node) > 4 then Some (-1, outp)
               else do {
                 b \<leftarrow> blocks h v;
                 out \<leftarrow> for_upto 0 (unat (node_length node)) (\<lambda>i out. do {
                   x \<leftarrow> rd b i; Some (push_bit 8 out OR ucast x) }) 0;
                 Some (0, Some out) })
      | _ \<Rightarrow> Some (-1, outp))"

text \<open>The inner loop of \<open>asn1_get_oid\<close>: the bytes of one component that have the top bit set.\<close>

function oid_more :: "byte list \<Rightarrow> nat \<Rightarrow> nat \<Rightarrow> u32 \<Rightarrow> (u32 \<times> nat) option" where
  "oid_more b n i val =
     (if i < n then do {
        x \<leftarrow> rd b i;
        if x AND 0x80 \<noteq> 0 then oid_more b n (i + 1) (push_bit 7 val OR ucast (x AND 0x7F))
        else Some (val, i) }
      else Some (val, i))"
  by pat_completeness auto
termination by (relation "measure (\<lambda>(b, n, i, val). n - i)") auto

declare oid_more.simps [simp del]

function oid_loop :: "byte list \<Rightarrow> nat \<Rightarrow> nat \<Rightarrow> u32 list \<Rightarrow> nat \<Rightarrow> (u32 list \<times> nat) option" where
  "oid_loop b n i oid oid_len =
     (if i < n \<and> oid_len < 32 then
        (case oid_more b n i 0 of
           None \<Rightarrow> None
         | Some (val, j) \<Rightarrow>
             if j < n then do {
               x \<leftarrow> rd b j;
               oid \<leftarrow> wr oid oid_len (push_bit 7 val OR ucast x);
               oid_loop b n (j + 1) oid (oid_len + 1) }
             else do {
               oid \<leftarrow> wr oid oid_len val;
               oid_loop b n j oid (oid_len + 1) })
      else Some (oid, oid_len))"
  by pat_completeness auto
termination
  by (relation "measure (\<lambda>(b, n, i, oid, oid_len). 32 - oid_len)") auto

declare oid_loop.simps [simp del]

definition asn1_get_oid :: "asn1_node ptr \<Rightarrow> u32 list ptr \<Rightarrow> nat ptr \<Rightarrow> heap \<Rightarrow> (int \<times> u32 list ptr \<times> nat ptr) option" where
  "asn1_get_oid nodep oidp oid_lenp h =
     (case (nodep, oidp, oid_lenp) of
        (Some node, Some oid, Some oid_len) \<Rightarrow>
          (case node_value node of
             None \<Rightarrow> Some (-1, oidp, oid_lenp)
           | Some v \<Rightarrow>
               if node_tag node \<noteq> ASN1_OBJECT_IDENTIFIER then Some (-1, oidp, oid_lenp)
               else do {
                 b \<leftarrow> blocks h v;
                 (oid, oid_len) \<leftarrow> oid_loop b (unat (node_length node)) 0 oid 0;
                 Some (0, Some oid, Some oid_len) })
      | _ \<Rightarrow> Some (-1, oidp, oid_lenp))"

definition asn1_get_string :: "asn1_node ptr \<Rightarrow> nat ptr ptr \<Rightarrow> nat ptr \<Rightarrow> int \<times> nat ptr ptr \<times> nat ptr" where
  "asn1_get_string nodep outp out_lenp =
     (case (nodep, outp, out_lenp) of
        (Some node, Some out, Some out_len) \<Rightarrow>
          if node_value node = NULL then (-1, outp, out_lenp)
          else if node_tag node \<noteq> ASN1_OCTET_STRING \<and> node_tag node \<noteq> ASN1_UTF8_STRING \<and>
             node_tag node \<noteq> ASN1_PRINTABLE_STRING \<and> node_tag node \<noteq> ASN1_IA5_STRING then (-1, outp, out_lenp)
          else (0, Some (node_value node), Some (unat (node_length node)))
      | _ \<Rightarrow> (-1, outp, out_lenp))"

section \<open>The memory of a tree\<close>

text \<open>The blocks of a tree with their sizes, in the order in which \<open>asn1_free\<close> releases them.\<close>

fun cells :: "asn1_node ptr \<Rightarrow> (nat \<times> nat) list" where
  "cells None = []"
| "cells (Some (Node a t len v children next)) =
     cells children @ cells next @ (case v of None \<Rightarrow> [] | Some x \<Rightarrow> [(x, unat len)]) @ [(a, sizeof_node)]"

fun free_cells :: "(nat \<times> nat) list \<Rightarrow> heap \<Rightarrow> heap option" where
  "free_cells [] h = Some h"
| "free_cells ((a, n) # cs) h = do { h \<leftarrow> secure_free (Some a) n h; free_cells cs h }"

lemma free_cells_append: "free_cells (xs @ ys) h = do { h \<leftarrow> free_cells xs h; free_cells ys h }"
  by (induction xs h rule: free_cells.induct) (simp_all split: Option.bind_split)

lemma asn1_free_cells: "asn1_free p h = free_cells (cells p) h"
  by (induction p h rule: asn1_free.induct)
     (auto simp: free_cells_append split: Option.bind_split option.split)

text \<open>\<open>h'\<close> holds the blocks of \<open>h\<close>, unchanged, and the fresh ones \<open>cs\<close>.\<close>

definition heap_ext :: "heap \<Rightarrow> heap \<Rightarrow> (nat \<times> nat) list \<Rightarrow> bool" where
  "heap_ext h h' cs \<longleftrightarrow> heap_ok h' \<and> distinct (map fst cs) \<and> (\<forall>(a, n) \<in> set cs. 0 < n \<and> blocks h a = None \<and>
     (\<exists>b. blocks h' a = Some b \<and> length b = n)) \<and> (\<forall>a. a \<notin> fst ` set cs \<longrightarrow> blocks h' a = blocks h a)"

lemma heap_ext_refl: "heap_ok h \<Longrightarrow> heap_ext h h []"
  by (simp add: heap_ext_def)

lemma heap_ext_ok: "heap_ext h h' cs \<Longrightarrow> heap_ok h'"
  by (simp add: heap_ext_def)

lemma heap_ext_keeps: "heap_ext h h' cs \<Longrightarrow> blocks h a = Some b \<Longrightarrow> blocks h' a = Some b"
  by (cases "a \<in> fst ` set cs") (fastforce simp: heap_ext_def)+

lemma heap_ext_nil: "heap_ext h h' [] \<longleftrightarrow> heap_ok h' \<and> blocks h' = blocks h"
  by (auto simp: heap_ext_def)

lemma heap_ext_trans:
  assumes "heap_ext h1 h2 cs" "heap_ext h2 h3 ds"
  shows "heap_ext h1 h3 (cs @ ds)"
proof -
  have d: "fst ` set cs \<inter> fst ` set ds = {}"
    using assms by (force simp: heap_ext_def)
  have c: "0 < n \<and> blocks h1 a = None \<and> (\<exists>b. blocks h3 a = Some b \<and> length b = n)" if "(a, n) \<in> set cs" for a n
    using assms(1) that heap_ext_keeps [OF assms(2)] by (fastforce simp: heap_ext_def)
  have e: "0 < n \<and> blocks h1 a = None \<and> (\<exists>b. blocks h3 a = Some b \<and> length b = n)" if "(a, n) \<in> set ds" for a n
  proof -
    have "a \<notin> fst ` set cs" using d that by force
    then have "blocks h2 a = blocks h1 a" using assms(1) by (simp add: heap_ext_def)
    with assms(2) that show ?thesis by (fastforce simp: heap_ext_def)
  qed
  have "distinct (map fst (cs @ ds))" using assms d by (simp add: heap_ext_def)
  moreover have "blocks h3 a = blocks h1 a" if "a \<notin> fst ` set (cs @ ds)" for a
    using assms that by (simp add: heap_ext_def image_Un)
  ultimately show ?thesis
    using c e heap_ext_ok [OF assms(2)] unfolding heap_ext_def by auto
qed

lemma heap_ext_perm:
  assumes "heap_ext h h' cs" "mset ds = mset cs"
  shows "heap_ext h h' ds"
proof -
  have "set ds = set cs" using assms(2) by (rule mset_eq_setD)
  moreover have "distinct (map fst ds) = distinct (map fst cs)"
    using assms(2) by (metis mset_eq_imp_distinct_iff mset_map)
  ultimately show ?thesis using assms(1) by (simp add: heap_ext_def)
qed

lemma heap_ext_alloc: "heap_ok h \<Longrightarrow> secure_alloc n h = (Some a, h') \<Longrightarrow> heap_ext h h' [(a, n)]"
  using sec.alloc_some [of h n a h'] by (auto simp: heap_ext_def)

lemma heap_ext_write:
  assumes "heap_ext h h' cs" "(v, n) \<in> set cs" "length b = n"
  shows "heap_ext h (h'\<lparr>blocks := (blocks h')(v \<mapsto> b)\<rparr>) cs"
proof -
  have "blocks h' v \<noteq> None" using assms(1,2) by (force simp: heap_ext_def)
  then have "heap_ok (h'\<lparr>blocks := (blocks h')(v \<mapsto> b)\<rparr>)"
    using heap_ext_ok [OF assms(1)] by (auto simp: heap_ok_def insert_absorb)
  moreover have "n' = n" if "(v, n') \<in> set cs" for n'
    using assms(1,2) that eq_key_imp_eq_value [of cs v n n'] by (simp add: heap_ext_def)
  moreover have "0 < n' \<and> blocks h a = None \<and> (\<exists>b'. ((blocks h')(v \<mapsto> b)) a = Some b' \<and> length b' = n')"
    if "(a, n') \<in> set cs" for a n'
    using assms(1,3) that calculation(2) by (cases "a = v") (auto simp: heap_ext_def)
  moreover have "((blocks h')(v \<mapsto> b)) a = blocks h a" if "a \<notin> fst ` set cs" for a
    using assms(1,2) that by (force simp: heap_ext_def)
  ultimately show ?thesis using assms(1) unfolding heap_ext_def by auto
qed

text \<open>Freeing the fresh blocks gives back the old contents.\<close>

lemma heap_ext_free:
  "heap_ext h h' cs \<Longrightarrow> \<exists>h''. free_cells cs h' = Some h'' \<and> heap_ok h'' \<and> blocks h'' = blocks h"
proof (induction cs arbitrary: h')
  case Nil
  then show ?case by (simp add: heap_ext_nil)
next
  case (Cons c cs)
  obtain a n where c: "c = (a, n)" by fastforce
  with Cons.prems obtain b where b: "blocks h' a = Some b" "length b = n" "0 < n" "blocks h a = None"
    by (auto simp: heap_ext_def)
  then obtain h1 where h1: "secure_free (Some a) n h' = Some h1" "heap_ok h1" "blocks h1 = (blocks h')(a := None)"
    using sec.free_live [OF heap_ext_ok [OF Cons.prems] b(1)] by auto
  have "heap_ext h h1 cs"
    using Cons.prems c b(4) h1(2,3) by (auto simp: heap_ext_def image_iff) force+
  from Cons.IH [OF this] h1(1) c show ?case by auto
qed

section \<open>The parser is total\<close>

lemma length_bytes_total: "pos + n \<le> length data \<Longrightarrow> \<exists>l. length_bytes n data pos len = Some l"
  by (induction n data pos len rule: length_bytes.induct) (simp_all add: rd_in)

lemma read_length_total:
  assumes "pos + remaining \<le> length data"
  shows "\<exists>ret pos' remaining' len. asn1_read_length data pos remaining = Some (ret, pos', remaining', len) \<and>
    (ret = -1 \<or> ret = 0 \<and> pos' + remaining' = pos + remaining \<and> remaining' < remaining)"
proof (cases "remaining < 1")
  case False
  then have r: "rd data pos = Some (data ! pos)" using assms by (simp add: rd_in)
  show ?thesis
  proof (cases "data ! pos < 0x80")
    case True
    with False r show ?thesis by (auto simp: asn1_read_length_def Let_def)
  next
    case long: False
    let ?n = "unat (data ! pos AND 0x7F)"
    show ?thesis
    proof (cases "?n > 4 \<or> remaining - 1 < ?n")
      case True
      with False long r show ?thesis by (auto simp: asn1_read_length_def Let_def)
    next
      case False
      then have "pos + 1 + ?n \<le> length data" using assms \<open>\<not> remaining < 1\<close> by linarith
      then obtain l where "length_bytes ?n data (pos + 1) 0 = Some l"
        using length_bytes_total by blast
      with False long r \<open>\<not> remaining < 1\<close> show ?thesis
        by (intro exI [of _ 0] exI [of _ "pos + 1 + ?n"] exI [of _ "remaining - 1 - ?n"] exI [of _ l])
           (auto simp: asn1_read_length_def Let_def)
    qed
  qed
qed (simp add: asn1_read_length_def)

lemma cells_link_append:
  "node_next c = NULL \<Longrightarrow> mset (cells (link (cs @ [c]))) = mset (cells (link cs)) + mset (cells (Some c))"
  by (induction cs rule: link.induct) (cases c, auto)

definition node_result :: "heap \<Rightarrow> nat \<Rightarrow> nat \<Rightarrow> (int \<times> asn1_node ptr \<times> nat \<times> nat \<times> heap) option \<Rightarrow> bool" where
  "node_result h pos remaining res \<longleftrightarrow> (\<exists>ret p pos' remaining' h'. res = Some (ret, p, pos', remaining', h') \<and>
     (ret = -1 \<and> heap_ext h h' [] \<or>
      ret = 0 \<and> (\<exists>n. p = Some n \<and> node_next n = NULL) \<and> heap_ext h h' (cells p) \<and>
        pos' + remaining' = pos + remaining \<and> remaining' + 2 \<le> remaining))"

definition children_result :: "heap \<Rightarrow> (int \<times> asn1_node list \<times> heap) option \<Rightarrow> bool" where
  "children_result h res \<longleftrightarrow> (\<exists>ret cs h'. res = Some (ret, cs, h') \<and> ret \<in> {0, -1} \<and> heap_ext h h' (cells (link cs)))"

lemma node_result_reject:
  assumes "heap_ext h h1 [(a, sizeof_node)]"
  shows "node_result h pos remaining (do { h \<leftarrow> secure_free (Some a) sizeof_node h1; Some (-1, NULL, pos', remaining', h) })"
  using heap_ext_free [OF assms] by (auto simp: node_result_def heap_ext_nil split: Option.bind_splits)

text \<open>What is left of \<open>asn1_parse_node\<close> when the node has been allocated and the header has been read.\<close>

definition node_body ::
  "nat \<Rightarrow> byte list \<Rightarrow> byte \<Rightarrow> nat \<Rightarrow> u32 \<Rightarrow> nat \<Rightarrow> nat \<Rightarrow> heap \<Rightarrow> (int \<times> asn1_node ptr \<times> nat \<times> nat \<times> heap) option" where
  "node_body fuel data tag a len pos remaining h =
     (if tag AND ASN1_CONSTRUCTED \<noteq> 0 then do {
        (ret, cs, h) \<leftarrow> asn1_children fuel data pos (unat len) [] h;
        let new_node = Node a tag len NULL (link cs) NULL;
        if ret < 0 then do { h \<leftarrow> asn1_free (Some new_node) h; Some (-1, NULL, pos, remaining, h) }
        else Some (0, Some new_node, pos + unat len, remaining - unat len, h) }
      else (case secure_alloc (unat len) h of
          (None, h) \<Rightarrow> do { h \<leftarrow> secure_free (Some a) sizeof_node h; Some (-1, NULL, pos, remaining, h) }
        | (Some v, h) \<Rightarrow> do {
            d \<leftarrow> rd_bytes data pos (unat len);
            b \<leftarrow> blocks h v;
            b \<leftarrow> wr_bytes b 0 d;
            Some (0, Some (Node a tag len (Some v) NULL NULL), pos + unat len, remaining - unat len,
                  h\<lparr>blocks := (blocks h)(v \<mapsto> b)\<rparr>) }))"

lemma parse_node_cases:
  assumes "heap_ok h" "pos + remaining \<le> length data"
  obtains (reject) pos' rem' h' where
      "asn1_parse_node (Suc fuel) data pos remaining h = Some (-1, NULL, pos', rem', h')" "heap_ext h h' []"
  | (contents) a h1 pos' rem' len where
      "asn1_parse_node (Suc fuel) data pos remaining h = node_body fuel data (data ! pos) a len pos' rem' h1"
      "heap_ext h h1 [(a, sizeof_node)]" "pos' + rem' = pos + remaining" "rem' + 2 \<le> remaining" "unat len \<le> rem'"
proof (cases "remaining < 1")
  case True
  then show ?thesis using assms(1) by (intro reject [of pos remaining h]) (simp_all add: heap_ext_nil)
next
  case False
  obtain q h1 where alloc: "secure_alloc sizeof_node h = (q, h1)" by fastforce
  show ?thesis
  proof (cases q)
    case None
    with False alloc sec.alloc_none [OF assms(1)] show ?thesis
      by (intro reject [of pos remaining h1]) (auto simp: heap_ext_nil)
  next
    case (Some a)
    have e1: "heap_ext h h1 [(a, sizeof_node)]"
      by (rule heap_ext_alloc) (use assms(1) alloc Some in auto)
    have tag: "rd data pos = Some (data ! pos)" using assms(2) False by (simp add: rd_in)
    have "pos + 1 + (remaining - 1) \<le> length data" using assms(2) False by simp
    from read_length_total [OF this] obtain ret pos' rem' len where
      rl: "asn1_read_length data (pos + 1) (remaining - 1) = Some (ret, pos', rem', len)"
      "ret = -1 \<or> ret = 0 \<and> pos' + rem' = pos + 1 + (remaining - 1) \<and> rem' < remaining - 1" by blast
    show ?thesis
    proof (cases "ret < 0 \<or> rem' < unat len")
      case True
      obtain h2 where h2: "secure_free (Some a) sizeof_node h1 = Some h2" "heap_ext h h2 []"
        using heap_ext_free [OF e1] by (auto simp: heap_ext_nil split: Option.bind_splits)
      with True False alloc Some tag rl(1) show ?thesis by (intro reject [of pos' rem' h2]) auto
    next
      case go: False
      show ?thesis
        by (rule contents [where a = a and pos' = pos' and rem' = rem' and len = len, OF _ e1]) (use go False alloc Some tag rl in \<open>auto simp: node_body_def\<close>)
    qed
  qed
qed

lemma constructed_body:
  assumes "heap_ext h h1 [(a, sizeof_node)]" "tag AND ASN1_CONSTRUCTED \<noteq> 0"
    and "children_result h1 (asn1_children fuel data pos' (unat len) [] h1)"
    and "pos' + rem' = pos + remaining" "rem' + 2 \<le> remaining" "unat len \<le> rem'"
  shows "node_result h pos remaining (node_body fuel data tag a len pos' rem' h1)"
proof -
  obtain ret cs h2 where cs: "asn1_children fuel data pos' (unat len) [] h1 = Some (ret, cs, h2)"
    "ret \<in> {0, -1}" "heap_ext h1 h2 (cells (link cs))" using assms(3) by (auto simp: children_result_def)
  let ?n = "Some (Node a tag len NULL (link cs) NULL)"
  have e: "heap_ext h h2 (cells ?n)"
    by (rule heap_ext_perm [OF heap_ext_trans [OF assms(1) cs(3)]]) simp
  show ?thesis
  proof (cases "ret < 0")
    case True
    with cs(1) assms(2) heap_ext_free [OF e] show ?thesis
      by (auto simp: node_body_def asn1_free_cells node_result_def heap_ext_nil)
  next
    case False
    with cs(1,2) assms(2,4-6) e show ?thesis by (auto simp: node_body_def node_result_def)
  qed
qed

lemma primitive_body:
  assumes "heap_ext h h1 [(a, sizeof_node)]" "tag AND ASN1_CONSTRUCTED = 0"
    and "pos' + rem' = pos + remaining" "rem' + 2 \<le> remaining" "unat len \<le> rem'" "pos + remaining \<le> length data"
  shows "node_result h pos remaining (node_body fuel data tag a len pos' rem' h1)"
proof -
  note ok = heap_ext_ok [OF assms(1)]
  obtain q h2 where alloc: "secure_alloc (unat len) h1 = (q, h2)" by fastforce
  show ?thesis
  proof (cases q)
    case None
    with alloc sec.alloc_none [OF ok] have "heap_ok h2" "blocks h2 = blocks h1" by auto
    with assms(1) have "heap_ext h h2 [(a, sizeof_node)]" by (simp add: heap_ext_def)
    with node_result_reject [OF this] alloc None assms(2) show ?thesis by (simp add: node_body_def)
  next
    case (Some v)
    have e: "heap_ext h1 h2 [(v, unat len)]"
      by (rule heap_ext_alloc [OF ok]) (use alloc Some in auto)
    let ?d = "take (unat len) (drop pos' data)"
    have d: "rd_bytes data pos' (unat len) = Some ?d" "length ?d = unat len"
      using assms(3,5,6) by (simp_all add: rd_bytes_def)
    have "blocks h2 v = Some (replicate (unat len) 0)" "wr_bytes (replicate (unat len) 0) 0 ?d = Some ?d"
      using sec.alloc_some [OF ok] alloc Some d(2) by (auto simp: wr_bytes_def)
    then have "node_body fuel data tag a len pos' rem' h1 =
        Some (0, Some (Node a tag len (Some v) NULL NULL), pos' + unat len, rem' - unat len, h2\<lparr>blocks := (blocks h2)(v \<mapsto> ?d)\<rparr>)"
      using alloc Some d(1) assms(2) by (simp add: node_body_def)
    moreover have "heap_ext h h2 [(v, unat len), (a, sizeof_node)]"
      by (rule heap_ext_perm [OF heap_ext_trans [OF assms(1) e]]) simp
    then have "heap_ext h (h2\<lparr>blocks := (blocks h2)(v \<mapsto> ?d)\<rparr>) [(v, unat len), (a, sizeof_node)]"
      by (rule heap_ext_write) (use d(2) in simp_all)
    ultimately show ?thesis using assms(3-5) by (auto simp: node_result_def)
  qed
qed

text \<open>One turn of the loop over the children.\<close>

lemma children_turn:
  assumes "heap_ext h0 h (cells (link cs))" "0 < child_remaining"
    and "node_result h child_data child_remaining (asn1_parse_node fuel data child_data child_remaining h)"
    and "\<And>c pos' rem' h'. asn1_parse_node fuel data child_data child_remaining h = Some (0, Some c, pos', rem', h') \<Longrightarrow>
      heap_ext h0 h' (cells (link (cs @ [c]))) \<Longrightarrow> pos' + rem' = child_data + child_remaining \<Longrightarrow> rem' + 2 \<le> child_remaining \<Longrightarrow>
      children_result h0 (asn1_children fuel data pos' rem' (cs @ [c]) h')"
  shows "children_result h0 (asn1_children (Suc fuel) data child_data child_remaining cs h)"
proof -
  obtain ret p pos' rem' h' where n: "asn1_parse_node fuel data child_data child_remaining h = Some (ret, p, pos', rem', h')"
    "ret = -1 \<and> heap_ext h h' [] \<or> ret = 0 \<and> (\<exists>n. p = Some n \<and> node_next n = NULL) \<and> heap_ext h h' (cells p) \<and>
      pos' + rem' = child_data + child_remaining \<and> rem' + 2 \<le> child_remaining"
    using assms(3) by (auto simp: node_result_def)
  from n(2) show ?thesis
  proof (elim disjE conjE exE)
    assume "ret = -1" "heap_ext h h' []"
    with heap_ext_trans [OF assms(1) this(2)] n(1) assms(2) show ?thesis by (auto simp: children_result_def)
  next
    fix c assume c: "ret = 0" "p = Some c" "node_next c = NULL" "heap_ext h h' (cells p)"
      "pos' + rem' = child_data + child_remaining" "rem' + 2 \<le> child_remaining"
    have "heap_ext h0 h' (cells (link (cs @ [c])))"
      by (rule heap_ext_perm [OF heap_ext_trans [OF assms(1) c(4)]]) (use cells_link_append [OF c(3)] c(2) in simp)
    with assms(4) [of c pos' rem' h'] n(1) c assms(2) show ?thesis by simp
  qed
qed

lemma parser_total:
  "heap_ok h \<Longrightarrow> pos + remaining \<le> length data \<Longrightarrow> remaining < fuel \<Longrightarrow>
    node_result h pos remaining (asn1_parse_node fuel data pos remaining h)"
  "heap_ext h0 h (cells (link cs)) \<Longrightarrow> child_data + child_remaining \<le> length data \<Longrightarrow> child_remaining + 2 \<le> fuel \<Longrightarrow>
    children_result h0 (asn1_children fuel data child_data child_remaining cs h)"
proof (induction fuel arbitrary: pos remaining h h0 cs child_data child_remaining)
  case (Suc fuel)
  {
    case 1
    from 1(1,2) show ?case
    proof (cases rule: parse_node_cases [where fuel = fuel])
      case (contents a h1 pos' rem' len)
      then show ?thesis
        using Suc.IH(2) [where ?h0.0 = h1 and h = h1 and cs = "[]" and child_data = pos' and child_remaining = "unat len"] 1 heap_ext_ok [OF contents(2)]
        by (cases "data ! pos AND ASN1_CONSTRUCTED = 0") (auto simp: heap_ext_nil intro: constructed_body primitive_body)
    qed (auto simp: node_result_def)
  next
    case 2
    show ?case
    proof (cases "0 < child_remaining")
      case True
      show ?thesis
        by (rule children_turn [OF 2(1) True Suc.IH(1) Suc.IH(2)]) (use 2 heap_ext_ok in auto)
    qed (use 2 in \<open>auto simp: children_result_def\<close>)
  }
qed auto

text \<open>A primitive node has a value and no children; the tag of a node is the byte it starts with.\<close>

fun prim_values :: "asn1_node ptr \<Rightarrow> bool" where
  "prim_values None = True"
| "prim_values (Some (Node a t len v children next)) \<longleftrightarrow>
     (t AND ASN1_CONSTRUCTED = 0 \<longrightarrow> v \<noteq> NULL \<and> children = NULL) \<and> prim_values children \<and> prim_values next"

lemma prim_values_link: "list_all (\<lambda>c. prim_values (Some c)) cs \<Longrightarrow> prim_values (link cs)"
  by (induction cs rule: link.induct) auto

lemma parser_values:
  "asn1_parse_node fuel data pos remaining h = Some (ret, p, pos', remaining', h') \<Longrightarrow>
    prim_values p \<and> (\<forall>n. p = Some n \<longrightarrow> rd data pos = Some (node_tag n) \<and> node_next n = NULL)"
  "asn1_children fuel data child_data child_remaining cs h = Some (ret, cs', h') \<Longrightarrow>
    list_all (\<lambda>c. prim_values (Some c)) cs \<Longrightarrow> list_all (\<lambda>c. prim_values (Some c)) cs'"
proof (induction fuel data pos remaining h and fuel data child_data child_remaining cs h
    arbitrary: ret p pos' remaining' h' and ret cs' h' rule: asn1_parse_node_asn1_children.induct)
  case (2 fuel data pos remaining h)
  have ih: "list_all (\<lambda>c. prim_values (Some c)) cs"
    if "\<not> remaining < 1" "secure_alloc sizeof_node h = (Some a, h1)" "rd data pos = Some tag"
      "asn1_read_length data (pos + 1) (remaining - 1) = Some (ret1, pos1, rem1, len)" "\<not> ret1 < 0" "\<not> rem1 < unat len"
      "tag AND ASN1_CONSTRUCTED \<noteq> 0" "asn1_children fuel data pos1 (unat len) [] h1 = Some (ret2, cs, h2)"
    for a h1 tag ret1 pos1 rem1 len ret2 cs h2
    by (rule "2.IH" [OF that(1) that(2) [symmetric] refl that(3,4) refl refl refl that(5-8)]) simp
  from "2.prems" show ?case
    by (auto simp: Let_def split: if_splits prod.splits option.splits Option.bind_splits intro!: prim_values_link ih)
next
  case (4 fuel data child_data child_remaining cs h)
  then show ?case
    by (fastforce split: if_splits Option.bind_splits)
qed auto

section \<open>Encoding\<close>

text \<open>A reference encoder with definite lengths of minimal size (DER).\<close>

datatype der = Prim byte "byte list" | Cons byte "der list"

fun be_digits :: "nat \<Rightarrow> nat \<Rightarrow> byte list" where
  "be_digits 0 n = []"
| "be_digits (Suc k) n = be_digits k (n div 256) @ [of_nat n]"

definition len_enc :: "nat \<Rightarrow> byte list" where
  "len_enc n =
     (if n < 128 then [of_nat n]
      else let k = (if n < 256 then 1 else if n < 65536 then 2 else if n < 16777216 then 3 else 4)
           in (0x80 OR of_nat k) # be_digits k n)"

fun encode :: "der \<Rightarrow> byte list" where
  "encode (Prim t v) = t # len_enc (length v) @ v"
| "encode (Cons t ds) = (let body = concat (map encode ds) in t # len_enc (length body) @ body)"

fun valid_der :: "der \<Rightarrow> bool" where
  "valid_der (Prim t v) \<longleftrightarrow> t AND ASN1_CONSTRUCTED = 0 \<and> v \<noteq> [] \<and> length v < 2 ^ 32"
| "valid_der (Cons t ds) \<longleftrightarrow> t AND ASN1_CONSTRUCTED \<noteq> 0 \<and> length (concat (map encode ds)) < 2 ^ 32 \<and> list_all valid_der ds"

text \<open>What a parsed tree stands for: the elements of a sibling list.\<close>

fun tree_of :: "(nat \<Rightarrow> byte list option) \<Rightarrow> asn1_node ptr \<Rightarrow> der list" where
  "tree_of B None = []"
| "tree_of B (Some (Node a t len v children next)) =
     (if t AND ASN1_CONSTRUCTED \<noteq> 0 then Cons t (tree_of B children)
      else Prim t (case v of None \<Rightarrow> [] | Some x \<Rightarrow> the (B x))) # tree_of B next"

lemma length_be_digits [simp]: "length (be_digits k n) = k"
  by (induction k n rule: be_digits.induct) simp_all

lemma ucast_of_nat_byte: "(ucast (of_nat n :: byte) :: u32) = of_nat (n mod 256)"
  by (simp add: unsigned_of_nat take_bit_eq_mod)

lemma digits_val: "n < 256 ^ k \<Longrightarrow> foldl (\<lambda>l b. push_bit 8 l OR ucast b) (0 :: u32) (be_digits k n) = of_nat n"
proof (induction k n rule: be_digits.induct)
  case (2 k n)
  then have "n div 256 < 256 ^ k" by (simp add: less_mult_imp_div_less mult.commute)
  with "2.IH" have "foldl (\<lambda>l b. push_bit 8 l OR ucast b) (0 :: u32) (be_digits (Suc k) n) = of_nat (n div 256) * 256 + of_nat (n mod 256)"
    by (simp add: push_or_byte ucast_of_nat_byte)
  also have "\<dots> = of_nat (n div 256 * 256 + n mod 256)" by (simp only: of_nat_add of_nat_mult of_nat_numeral)
  finally show ?case by simp
qed simp

lemma length_bytes_foldl:
  "length pre = pos \<Longrightarrow> length_bytes (length bs) (pre @ bs @ post) pos len = Some (foldl (\<lambda>l b. push_bit 8 l OR ucast b) len bs)"
proof (induction bs arbitrary: pre pos len)
  case (Cons b bs)
  then have "rd (pre @ (b # bs) @ post) pos = Some b" by (auto simp: rd_def)
  with Cons.IH [of "pre @ [b]" "pos + 1"] Cons.prems show ?case by simp
qed simp

lemma read_length_enc:
  assumes "n < 2 ^ 32" "length pre = pos" "length (len_enc n) \<le> remaining"
  shows "asn1_read_length (pre @ len_enc n @ post) pos remaining =
    Some (0, pos + length (len_enc n), remaining - length (len_enc n), of_nat n)"
proof (cases "n < 128")
  case True
  then have e: "len_enc n = [of_nat n]" by (simp add: len_enc_def)
  have "(of_nat n :: byte) < 0x80"
    using True by (simp add: word_less_nat_alt unat_of_nat take_bit_eq_mod)
  moreover have "rd (pre @ [of_nat n] @ post) pos = Some (of_nat n)" using assms(2) by (auto simp: rd_def)
  ultimately show ?thesis
    using assms(3) True by (simp add: e asn1_read_length_def ucast_of_nat_byte)
next
  case False
  define k :: nat where "k = (if n < 256 then 1 else if n < 65536 then 2 else if n < 16777216 then 3 else 4)"
  have e: "len_enc n = (0x80 OR of_nat k) # be_digits k n" using False by (simp add: len_enc_def k_def Let_def)
  have k: "k \<in> {1, 2, 3, 4}" "n < 256 ^ k" using assms(1) by (auto simp: k_def)
  then have first: "\<not> (0x80 OR of_nat k :: byte) < 0x80" "unat ((0x80 OR of_nat k :: byte) AND 0x7F) = k"
    by auto
  have "rd (pre @ len_enc n @ post) pos = Some (0x80 OR of_nat k)" using assms(2) by (auto simp: rd_def e)
  moreover have "length_bytes k (pre @ len_enc n @ post) (pos + 1) 0 = Some (of_nat n)"
    using length_bytes_foldl [of "pre @ [0x80 OR of_nat k]" "pos + 1" "be_digits k n" post 0] digits_val [OF k(2)] assms(2)
    by (simp add: e)
  ultimately show ?thesis
    using assms(3) first k(1) by (auto simp: asn1_read_length_def Let_def e)
qed

section \<open>Parsing what has been encoded\<close>

lemma tree_of_keeps:
  "(\<And>a n. (a, n) \<in> set (cells p) \<Longrightarrow> B' a = B a) \<Longrightarrow> tree_of B' p = tree_of B p"
proof (induction B p rule: tree_of.induct)
  case (2 B a t len v children nxt)
  have "B' x = B x" if "v = Some x" for x using "2.prems" [of x "unat len"] that by simp
  with 2 show ?case by (cases v) auto
qed simp

lemma tree_of_ext: "heap_ext h h' (cells p) \<Longrightarrow> heap_ext h' h'' cs \<Longrightarrow> tree_of (blocks h'') p = tree_of (blocks h') p"
proof (rule tree_of_keeps)
  fix a n assume a: "heap_ext h h' (cells p)" "heap_ext h' h'' cs" "(a, n) \<in> set (cells p)"
  then obtain b where "blocks h' a = Some b" by (fastforce simp: heap_ext_def)
  with heap_ext_keeps [OF a(2)] show "blocks h'' a = blocks h' a" by simp
qed

lemma tree_of_append:
  "node_next c = NULL \<Longrightarrow> tree_of B (link (cs @ [c])) = tree_of B (link cs) @ tree_of B (Some c)"
  by (induction cs rule: link.induct) (cases c, auto)

lemma alloc_granted:
  "mfail h = (\<lambda>_. False) \<Longrightarrow> 0 < n \<Longrightarrow> \<exists>a h'. secure_alloc n h = (Some a, h') \<and> mfail h' = (\<lambda>_. False)"
  by (simp add: secure_alloc_def Let_def)

text \<open>\<open>d\<close> is parsed from the place where its encoding starts.\<close>

definition parses :: "der \<Rightarrow> bool" where
  "parses d \<longleftrightarrow> (\<forall>pre post fuel pos remaining h.
     length pre = pos \<longrightarrow> length (encode d) \<le> remaining \<longrightarrow> remaining \<le> length (encode d @ post) \<longrightarrow> remaining < fuel \<longrightarrow>
     heap_ok h \<longrightarrow> mfail h = (\<lambda>_. False) \<longrightarrow>
     (\<exists>n h'. asn1_parse_node fuel (pre @ encode d @ post) pos remaining h =
          Some (0, Some n, pos + length (encode d), remaining - length (encode d), h') \<and>
        mfail h' = (\<lambda>_. False) \<and> node_next n = NULL \<and> heap_ext h h' (cells (Some n)) \<and> tree_of (blocks h') (Some n) = [d]))"

lemma parsesD:
  "parses d \<Longrightarrow> length pre = pos \<Longrightarrow> length (encode d) \<le> remaining \<Longrightarrow> remaining \<le> length (encode d @ post) \<Longrightarrow>
    remaining < fuel \<Longrightarrow> heap_ok h \<Longrightarrow> mfail h = (\<lambda>_. False) \<Longrightarrow>
     \<exists>n h'. asn1_parse_node fuel (pre @ encode d @ post) pos remaining h =
          Some (0, Some n, pos + length (encode d), remaining - length (encode d), h') \<and>
        mfail h' = (\<lambda>_. False) \<and> node_next n = NULL \<and> heap_ext h h' (cells (Some n)) \<and> tree_of (blocks h') (Some n) = [d]"
  unfolding parses_def by blast

lemma children_encode:
  assumes "\<And>d. d \<in> set ds \<Longrightarrow> parses d" "\<And>d. d \<in> set ds \<Longrightarrow> encode d \<noteq> []"
    and "length pre = pos" "length (concat (map encode ds)) + 2 \<le> fuel" "heap_ext h0 h (cells (link cs))" "mfail h = (\<lambda>_. False)"
  shows "\<exists>cs' h'. asn1_children fuel (pre @ concat (map encode ds) @ post) pos (length (concat (map encode ds))) cs h = Some (0, cs', h') \<and>
    mfail h' = (\<lambda>_. False) \<and> heap_ext h0 h' (cells (link cs')) \<and> tree_of (blocks h') (link cs') = tree_of (blocks h) (link cs) @ ds"
  using assms
proof (induction ds arbitrary: pre pos fuel h cs)
  case Nil
  then obtain f where "fuel = Suc f" by (cases fuel) auto
  with Nil show ?case by simp
next
  case (Cons d ds)
  then obtain f where f: "fuel = Suc f" by (cases fuel) auto
  let ?rest = "concat (map encode ds)" and ?len = "length (concat (map encode (d # ds)))"
  have ne: "encode d \<noteq> []" using Cons.prems(2) by simp
  have l: "?len = length (encode d) + length ?rest" by simp
  have "parses d" "heap_ok h" using Cons.prems(1,5) heap_ext_ok by auto
  from parsesD [OF this(1) Cons.prems(3) _ _ _ this(2) Cons.prems(6), of ?len "?rest @ post" f]
  obtain c h1 where c:
    "asn1_parse_node f (pre @ encode d @ ?rest @ post) pos ?len h =
       Some (0, Some c, pos + length (encode d), length ?rest, h1)"
    "mfail h1 = (\<lambda>_. False)" "node_next c = NULL" "heap_ext h h1 (cells (Some c))" "tree_of (blocks h1) (Some c) = [d]"
    using Cons.prems(4) f by auto
  have e: "heap_ext h0 h1 (cells (link (cs @ [c])))"
    by (rule heap_ext_perm [OF heap_ext_trans [OF Cons.prems(5) c(4)]]) (simp add: cells_link_append [OF c(3)])
  have t: "tree_of (blocks h1) (link (cs @ [c])) = tree_of (blocks h) (link cs) @ [d]"
    using tree_of_ext [OF Cons.prems(5) c(4)] c(5) by (simp add: tree_of_append [OF c(3)])
  have "length ?rest + 2 \<le> f" using Cons.prems(4) f ne by (cases "encode d") auto
  from Cons.IH [OF _ _ _ this e c(2), of "pre @ encode d" "pos + length (encode d)"] Cons.prems(1-3)
  obtain cs' h' where "asn1_children f (pre @ encode d @ ?rest @ post) (pos + length (encode d)) (length ?rest) (cs @ [c]) h1 = Some (0, cs', h')"
    "mfail h' = (\<lambda>_. False)" "heap_ext h0 h' (cells (link cs'))" "tree_of (blocks h') (link cs') = tree_of (blocks h1) (link (cs @ [c])) @ ds"
    by auto
  moreover have "?len > 0" using ne by simp
  ultimately show ?case using c(1) f t by simp
qed

lemma encode_Cons:
  "encode (Cons t ds) = t # len_enc (length (concat (map encode ds))) @ concat (map encode ds)"
  by (simp add: Let_def)

declare encode.simps(2) [simp del]

lemma parses_header:
  assumes "tag = data ! pos" "data = pre @ tag # len_enc n @ body @ post" "length pre = pos" "length body = n" "n < 2 ^ 32"
    and "length (len_enc n) + n + 1 \<le> remaining" "heap_ok h" "mfail h = (\<lambda>_. False)"
  shows "\<exists>a h1. heap_ext h h1 [(a, sizeof_node)] \<and> mfail h1 = (\<lambda>_. False) \<and>
    secure_alloc sizeof_node h = (Some a, h1) \<and> rd data pos = Some tag \<and>
    asn1_read_length data (pos + 1) (remaining - 1) =
      Some (0, pos + 1 + length (len_enc n), remaining - 1 - length (len_enc n), of_nat n) \<and> unat (of_nat n :: u32) = n"
proof -
  have "0 < sizeof_node" by (simp add: sizeof_node_def)
  from alloc_granted [OF assms(8) this] obtain a h1 where a: "secure_alloc sizeof_node h = (Some a, h1)" "mfail h1 = (\<lambda>_. False)"
    by blast
  moreover have "rd data pos = Some tag" using assms(2,3) by (auto simp: rd_def)
  moreover have "asn1_read_length data (pos + 1) (remaining - 1) =
      Some (0, pos + 1 + length (len_enc n), remaining - 1 - length (len_enc n), of_nat n)"
    using read_length_enc [OF assms(5), of "pre @ [tag]" "pos + 1" "remaining - 1" "body @ post"] assms(2,3,6) by simp
  moreover have "unat (of_nat n :: u32) = n" using assms(5) by (simp add: unat_of_nat take_bit_eq_mod)
  ultimately show ?thesis using heap_ext_alloc [OF assms(7) a(1)] by blast
qed

lemma parses_prim:
  assumes "valid_der (Prim t v)"
  shows "parses (Prim t v)"
  unfolding parses_def
proof (intro allI impI)
  fix pre post :: "byte list" and fuel pos remaining :: nat and h :: heap
  assume a: "length pre = pos" "length (encode (Prim t v)) \<le> remaining" "remaining \<le> length (encode (Prim t v) @ post)"
    "remaining < fuel" "heap_ok h" "mfail h = (\<lambda>_. False)"
  let ?data = "pre @ encode (Prim t v) @ post" and ?L = "length (len_enc (length v))"
  have v: "length v < 2 ^ 32" "0 < length v" "t AND ASN1_CONSTRUCTED = 0" using assms by auto
  obtain f where f: "fuel = Suc f" using a(4) by (cases fuel) auto
  have t: "t = ?data ! pos" using a(1) by (auto simp: nth_append)
  obtain n h1 where h1: "heap_ext h h1 [(n, sizeof_node)]" "mfail h1 = (\<lambda>_. False)"
    "secure_alloc sizeof_node h = (Some n, h1)" "rd ?data pos = Some t"
    "asn1_read_length ?data (pos + 1) (remaining - 1) = Some (0, pos + 1 + ?L, remaining - 1 - ?L, of_nat (length v))"
    "unat (of_nat (length v) :: u32) = length v"
    using parses_header [OF t _ a(1) refl v(1) _ a(5,6), of post remaining] a(2) by auto
  from alloc_granted [OF h1(2) v(2)] obtain x h2 where h2: "secure_alloc (length v) h1 = (Some x, h2)" "mfail h2 = (\<lambda>_. False)"
    by blast
  have e2: "heap_ext h1 h2 [(x, length v)]" by (rule heap_ext_alloc [OF heap_ext_ok [OF h1(1)] h2(1)])
  have b: "blocks h2 x = Some (replicate (length v) 0)"
    using sec.alloc_some [OF heap_ext_ok [OF h1(1)] h2(1)] by auto
  have d: "rd_bytes ?data (pos + 1 + ?L) (length v) = Some v"
    using a(1) by (simp add: rd_bytes_def)
  have w: "wr_bytes (replicate (length v) 0) 0 v = Some v" by (simp add: wr_bytes_def)
  let ?h = "h2\<lparr>blocks := (blocks h2)(x \<mapsto> v)\<rparr>" and ?n = "Node n t (of_nat (length v)) (Some x) NULL NULL"
  have "heap_ext h h2 [(x, length v), (n, sizeof_node)]"
    by (rule heap_ext_perm [OF heap_ext_trans [OF h1(1) e2]]) simp
  then have "heap_ext h ?h [(x, length v), (n, sizeof_node)]" by (rule heap_ext_write) simp_all
  moreover have "asn1_parse_node fuel ?data pos remaining h = Some (0, Some ?n, pos + length (encode (Prim t v)),
      remaining - length (encode (Prim t v)), ?h)"
  proof -
    have "\<not> remaining < 1" "\<not> remaining - 1 - ?L < length v" using a(2) by simp_all
    then show ?thesis
      unfolding f asn1_parse_node.simps(2) using h1(3-6) h2(1) v(3) d b w by simp
  qed
  moreover have "tree_of (blocks ?h) (Some ?n) = [Prim t v]" using v(3) by simp
  ultimately show "\<exists>n h'. asn1_parse_node fuel ?data pos remaining h =
          Some (0, Some n, pos + length (encode (Prim t v)), remaining - length (encode (Prim t v)), h') \<and>
        mfail h' = (\<lambda>_. False) \<and> node_next n = NULL \<and> heap_ext h h' (cells (Some n)) \<and> tree_of (blocks h') (Some n) = [Prim t v]"
    using h1(6) h2(2) by (intro exI [of _ ?n] exI [of _ ?h]) simp
qed

lemma parses_cons:
  assumes "valid_der (Cons t ds)" "\<And>d. d \<in> set ds \<Longrightarrow> parses d" "\<And>d. d \<in> set ds \<Longrightarrow> encode d \<noteq> []"
  shows "parses (Cons t ds)"
  unfolding parses_def
proof (intro allI impI)
  fix pre post :: "byte list" and fuel pos remaining :: nat and h :: heap
  let ?body = "concat (map encode ds)" and ?d = "Cons t ds"
  let ?data = "pre @ encode ?d @ post" and ?L = "length (len_enc (length ?body))"
  assume a: "length pre = pos" "length (encode ?d) \<le> remaining" "remaining \<le> length (encode ?d @ post)"
    "remaining < fuel" "heap_ok h" "mfail h = (\<lambda>_. False)"
  have v: "length ?body < 2 ^ 32" "t AND ASN1_CONSTRUCTED \<noteq> 0" using assms(1) by auto
  note enc = encode_Cons [of t ds]
  obtain f where f: "fuel = Suc f" using a(4) by (cases fuel) auto
  have t: "t = ?data ! pos" using a(1) by (auto simp: nth_append enc)
  obtain n h1 where h1: "heap_ext h h1 [(n, sizeof_node)]" "mfail h1 = (\<lambda>_. False)"
    "secure_alloc sizeof_node h = (Some n, h1)" "rd ?data pos = Some t"
    "asn1_read_length ?data (pos + 1) (remaining - 1) = Some (0, pos + 1 + ?L, remaining - 1 - ?L, of_nat (length ?body))"
    "unat (of_nat (length ?body) :: u32) = length ?body"
    using parses_header [OF t _ a(1) refl v(1) _ a(5,6), of post remaining] a(2) by (auto simp: enc)
  have L: "0 < ?L" by (simp add: len_enc_def Let_def)
  have e0: "heap_ext h1 h1 (cells (link []))" using heap_ext_refl [OF heap_ext_ok [OF h1(1)]] by simp
  have fu: "length ?body + 2 \<le> f" 
  proof -
    have "1 + ?L + length ?body \<le> remaining" using a(2) by (simp add: enc)
    with a(4) f L show ?thesis by linarith
  qed
  have p: "length (pre @ t # len_enc (length ?body)) = pos + 1 + ?L" using a(1) by simp
  from children_encode [OF assms(2,3) p fu e0 h1(2), of post]
  obtain cs h2 where cs: "asn1_children f ?data (pos + 1 + ?L) (length ?body) [] h1 = Some (0, cs, h2)"
    "mfail h2 = (\<lambda>_. False)" "heap_ext h1 h2 (cells (link cs))" "tree_of (blocks h2) (link cs) = ds"
    by (auto simp: enc)
  let ?n = "Node n t (of_nat (length ?body)) NULL (link cs) NULL"
  have "heap_ext h h2 (cells (Some ?n))" by (rule heap_ext_perm [OF heap_ext_trans [OF h1(1) cs(3)]]) simp
  moreover have "asn1_parse_node fuel ?data pos remaining h =
      Some (0, Some ?n, pos + length (encode ?d), remaining - length (encode ?d), h2)"
  proof -
    have "\<not> remaining < 1" "\<not> remaining - 1 - ?L < length ?body" using a(2) by (simp_all add: enc)
    then show ?thesis
      unfolding f asn1_parse_node.simps(2) using h1(3-6) v(2) cs(1) by (simp add: enc Let_def)
  qed
  moreover have "tree_of (blocks h2) (Some ?n) = [?d]" using v(2) cs(4) by simp
  ultimately show "\<exists>n h'. asn1_parse_node fuel ?data pos remaining h =
          Some (0, Some n, pos + length (encode ?d), remaining - length (encode ?d), h') \<and>
        mfail h' = (\<lambda>_. False) \<and> node_next n = NULL \<and> heap_ext h h' (cells (Some n)) \<and> tree_of (blocks h') (Some n) = [?d]"
    using cs(2) by (intro exI [of _ ?n] exI [of _ h2]) simp
qed

lemma encode_nonempty [simp]: "encode d \<noteq> []"
  by (cases d) (simp_all add: encode_Cons)

lemma parses_valid: "valid_der d \<Longrightarrow> parses d"
proof (induction d)
  case (Prim t v)
  then show ?case by (rule parses_prim)
next
  case (Cons t ds)
  show ?case
    by (rule parses_cons [OF Cons.prems]) (use Cons in \<open>auto simp: list_all_iff\<close>)
qed

section \<open>Searching and reading\<close>

fun preorder :: "asn1_node ptr \<Rightarrow> asn1_node list" where
  "preorder None = []"
| "preorder (Some (Node a t len v children next)) =
     Node a t len v children next # preorder children @ preorder next"

lemma find_append: "find P (xs @ ys) = (case find P xs of None \<Rightarrow> find P ys | Some x \<Rightarrow> Some x)"
  by (induction xs) simp_all

lemma asn1_find_preorder: "asn1_find p tag = find (\<lambda>n. node_tag n = tag) (preorder p)"
  by (induction p tag rule: asn1_find.induct) (auto simp: find_append split: option.split)

lemma oid_more_total:
  "n \<le> length b \<Longrightarrow> i \<le> n \<Longrightarrow> \<exists>val' j. oid_more b n i val = Some (val', j) \<and> i \<le> j \<and> j \<le> n"
proof (induction b n i val rule: oid_more.induct)
  case (1 b n i val)
  show ?case
  proof (cases "i < n")
    case True
    with "1.prems" have r: "rd b i = Some (b ! i)" by (simp add: rd_in)
    show ?thesis
    proof (cases "b ! i AND 0x80 \<noteq> 0")
      case True
      with "1.IH" [OF \<open>i < n\<close> r] "1.prems" \<open>i < n\<close> r show ?thesis
        by (subst oid_more.simps) fastforce
    next
      case False
      with True r show ?thesis by (subst oid_more.simps) simp
    qed
  next
    case False
    with "1.prems" show ?thesis by (subst oid_more.simps) simp
  qed
qed

lemma oid_loop_total:
  "n \<le> length b \<Longrightarrow> i \<le> n \<Longrightarrow> k \<le> 32 \<Longrightarrow> 32 \<le> length oid \<Longrightarrow>
    \<exists>oid' k'. oid_loop b n i oid k = Some (oid', k') \<and> k' \<le> 32 \<and> k \<le> k' \<and> k' - k \<le> n - i \<and>
      length oid' = length oid \<and> drop k' oid' = drop k' oid \<and> take k oid' = take k oid"
proof (induction b n i oid k rule: oid_loop.induct)
  case (1 b n i oid k)
  show ?case
  proof (cases "i < n \<and> k < 32")
    case False
    with "1.prems" show ?thesis by (subst oid_loop.simps) auto
  next
    case True
    with oid_more_total [OF "1.prems"(1,2), of 0] obtain val j where
      m: "oid_more b n i 0 = Some (val, j)" "i \<le> j" "j \<le> n" by blast
    have w: "wr oid k x = Some (oid[k := x])" for x using "1.prems"(4) True by (simp add: wr_in)
    show ?thesis
    proof (cases "j < n")
      case j: True
      let ?x = "push_bit 7 val OR ucast (b ! j)"
      have r: "rd b j = Some (b ! j)" using j "1.prems"(1) by (simp add: rd_in)
      have "\<exists>oid' k'. oid_loop b n (j + 1) (oid[k := ?x]) (k + 1) = Some (oid', k') \<and> k' \<le> 32 \<and> k + 1 \<le> k' \<and> k' - (k + 1) \<le> n - (j + 1) \<and>
          length oid' = length (oid[k := ?x]) \<and> drop k' oid' = drop k' (oid[k := ?x]) \<and> take (k + 1) oid' = take (k + 1) (oid[k := ?x])"
        by (rule "1.IH"(1) [OF True m(1) refl j r w]) (use True j "1.prems" in auto)
      then obtain oid' k' where o: "oid_loop b n (j + 1) (oid[k := ?x]) (k + 1) = Some (oid', k')" "k' \<le> 32" "k + 1 \<le> k'"
        "k' - (k + 1) \<le> n - (j + 1)" "length oid' = length oid" "drop k' oid' = drop k' (oid[k := ?x])"
        "take (k + 1) oid' = take (k + 1) (oid[k := ?x])" by auto
      have "take k oid' = take k oid" using arg_cong [OF o(7), of "take k"] by simp
      with o m(2) j True have "k' \<le> 32 \<and> k \<le> k' \<and> k' - k \<le> n - i \<and>
        length oid' = length oid \<and> drop k' oid' = drop k' oid \<and> take k oid' = take k oid" by auto
      moreover have "oid_loop b n i oid k = Some (oid', k')"
        using True m(1) j r w o(1) by (subst oid_loop.simps) simp
      ultimately show ?thesis by blast
    next
      case j: False
      have "\<exists>oid' k'. oid_loop b n j (oid[k := val]) (k + 1) = Some (oid', k') \<and> k' \<le> 32 \<and> k + 1 \<le> k' \<and> k' - (k + 1) \<le> n - j \<and>
          length oid' = length (oid[k := val]) \<and> drop k' oid' = drop k' (oid[k := val]) \<and> take (k + 1) oid' = take (k + 1) (oid[k := val])"
        by (rule "1.IH"(2) [OF True m(1) refl j w]) (use True m(3) "1.prems" in auto)
      then obtain oid' k' where o: "oid_loop b n j (oid[k := val]) (k + 1) = Some (oid', k')" "k' \<le> 32" "k + 1 \<le> k'"
        "k' - (k + 1) \<le> n - j" "length oid' = length oid" "drop k' oid' = drop k' (oid[k := val])"
        "take (k + 1) oid' = take (k + 1) (oid[k := val])" by auto
      have "take k oid' = take k oid" using arg_cong [OF o(7), of "take k"] by simp
      with o m(3) j True have "k' \<le> 32 \<and> k \<le> k' \<and> k' - k \<le> n - i \<and>
        length oid' = length oid \<and> drop k' oid' = drop k' oid \<and> take k oid' = take k oid" by auto
      moreover have "oid_loop b n i oid k = Some (oid', k')"
        using True m(1) j w o(1) by (subst oid_loop.simps) simp
      ultimately show ?thesis by blast
    qed
  qed
qed

lemma integer_loop:
  "length b = n \<Longrightarrow> for_upto 0 n (\<lambda>i out. do { x \<leftarrow> rd b i; Some (push_bit 8 out OR ucast x) }) (z :: u32) =
    Some (foldl (\<lambda>l b. push_bit 8 l OR ucast b) z b)"
proof -
  assume l: "length b = n"
  let ?f = "\<lambda>l b. push_bit 8 l OR ucast b"
  have "\<exists>s. for_upto 0 n (\<lambda>i out. do { x \<leftarrow> rd b i; Some (push_bit 8 out OR ucast x) }) z = Some s \<and> s = foldl ?f z (take n b)"
    by (rule for_upto_rule) (use l in \<open>simp_all add: rd_in take_Suc_conv_app_nth\<close>)
  with l show ?thesis by simp
qed

section \<open>Properties\<close>

text \<open>
  C17. The parser is memory-safe and total: on every input, and whichever allocations fail, it returns without reading outside
  the \<open>len\<close> bytes. When it returns -1 the root is untouched and every block it had allocated is freed again; when it returns 0 the tree's blocks
  are fresh, distinct and live, nothing else has changed, and \<open>asn1_free\<close> gives exactly these blocks back, each once.
\<close>

theorem asn1_parse_memory:
  assumes "heap_ok h" "len \<le> length data"
  shows "\<exists>ret root' h'. asn1_parse (Some root) (Some data) len h = Some (ret, Some root', h') \<and>
    (ret = -1 \<and> root' = root \<and> heap_ok h' \<and> blocks h' = blocks h \<or>
     ret = 0 \<and> heap_ext h h' (cells root') \<and> root' \<noteq> NULL \<and>
       (\<exists>h''. asn1_free root' h' = Some h'' \<and> heap_ok h'' \<and> blocks h'' = blocks h))"
proof (cases "len = 0")
  case True
  with assms(1) show ?thesis by (simp add: asn1_parse_def)
next
  case False
  have "node_result h 0 len (asn1_parse_node (len + 1) data 0 len h)"
    by (rule parser_total(1) [OF assms(1)]) (use assms(2) in simp_all)
  with False show ?thesis
    by (auto simp: node_result_def asn1_parse_def heap_ext_nil asn1_free_cells dest: heap_ext_free)
qed

lemma asn1_parse_memory_witness:
  "\<exists>ret root' h'. asn1_parse (Some NULL) (Some [0x30, 0x80, 0x02, 0x01]) 4 (empty_heap (\<lambda>n. n = 1)) = Some (ret, Some root', h') \<and> ret \<in> {0, -1}"
  using asn1_parse_memory [OF heap_ok_empty [of "\<lambda>n. n = 1"], of 4 "[0x30, 0x80, 0x02, 0x01]" NULL] by auto

text \<open>
  C18. What a DER encoder writes, the parser reads while \<open>malloc\<close> succeeds: for every element whose primitive values are not empty and whose lengths fit
  into 32 bits, at any nesting, the parser returns a tree that stands for that element, bytes of all values included, and it ignores what
  follows in the buffer.
\<close>

theorem asn1_roundtrip:
  assumes "valid_der d" "heap_ok h" "mfail h = (\<lambda>_. False)"
  shows "\<exists>n h'. asn1_parse (Some root) (Some (encode d @ rest)) (length (encode d @ rest)) h = Some (0, Some (Some n), h') \<and>
    tree_of (blocks h') (Some n) = [d]"
  using parsesD [OF parses_valid [OF assms(1)] _ _ order_refl lessI assms(2,3), of "[]" 0 rest]
  by (auto simp: asn1_parse_def)

lemma asn1_roundtrip_witness:
  "\<exists>n h'. asn1_parse (Some NULL) (Some (encode (Cons 0x30 [Prim 0x02 [0x05], Prim 0x04 [0x07]]) @ [0xFF]))
      (length (encode (Cons 0x30 [Prim 0x02 [0x05], Prim 0x04 [0x07]]) @ [0xFF])) (empty_heap (\<lambda>_. False)) =
     Some (0, Some (Some n), h') \<and>
     tree_of (blocks h') (Some n) = [Cons 0x30 [Prim 0x02 [0x05], Prim 0x04 [0x07]]]"
  by (rule asn1_roundtrip) (simp_all add: heap_ok_empty ASN1_CONSTRUCTED_def len_enc_def)

text \<open>
  Searching and reading: \<open>asn1_find\<close> returns the first node with the tag in the order in which the elements stand in the input, and NULL
  when there is none; \<open>asn1_get_integer\<close> reads an INTEGER of up to four bytes as an unsigned big-endian number, so the encoder's
  digits come back, and refuses every other node.
\<close>

theorem asn1_find_integer:
  assumes "blocks h v = Some (be_digits k n)" "n < 256 ^ k" "k \<le> 4"
  shows "asn1_find p tag = find (\<lambda>n. node_tag n = tag) (preorder p) \<and>
    asn1_get_integer (Some (Node a t (of_nat k) (Some v) children next)) (Some out) h =
      (if t = ASN1_INTEGER then Some (0, Some (of_nat n)) else Some (-1, Some out))"
proof -
  have "unat (of_nat k :: u32) = k" using assms(3) by (simp add: unat_of_nat take_bit_eq_mod)
  then show ?thesis
    using assms integer_loop [of "be_digits k n" k 0] digits_val [OF assms(2)]
    by (simp add: asn1_find_preorder asn1_get_integer_def)
qed

lemma asn1_find_integer_witness:
  "asn1_get_integer (Some (Node 0 ASN1_INTEGER (of_nat 2) (Some 1) NULL NULL)) (Some 9)
     ((empty_heap (\<lambda>_. False))\<lparr>blocks := [1 \<mapsto> be_digits 2 300]\<rparr>) = Some (0, Some (of_nat 300))"
  using asn1_find_integer [of "(empty_heap (\<lambda>_. False))\<lparr>blocks := [1 \<mapsto> be_digits 2 300]\<rparr>" 1 2 300 NULL 0 0 ASN1_INTEGER NULL NULL 9]
  by (simp del: be_digits.simps)

text \<open>
  \<open>asn1_get_oid\<close> on a node with a live value always returns: at most 32 components and at most one per byte are written to the
  array, which must hold 32, and what lies behind them in it stays.
\<close>

theorem asn1_get_oid_bounded:
  assumes "blocks h v = Some b" "length b = unat len" "32 \<le> length oid"
  shows "\<exists>oid' k. asn1_get_oid (Some (Node a ASN1_OBJECT_IDENTIFIER len (Some v) children next)) (Some oid) (Some m) h =
      Some (0, Some oid', Some k) \<and> k \<le> 32 \<and> k \<le> unat len \<and> length oid' = length oid \<and> drop k oid' = drop k oid"
  using oid_loop_total [of "unat len" b 0 0 oid] assms by (auto simp: asn1_get_oid_def)

lemma asn1_get_oid_bounded_witness:
  "\<exists>oid' k. asn1_get_oid (Some (Node 0 ASN1_OBJECT_IDENTIFIER 3 (Some 1) NULL NULL)) (Some (replicate 32 0)) (Some 0)
     ((empty_heap (\<lambda>_. False))\<lparr>blocks := [1 \<mapsto> [0x2A, 0x86, 0x48]]\<rparr>) = Some (0, Some oid', Some k) \<and> k \<le> 3"
  using asn1_get_oid_bounded [of "(empty_heap (\<lambda>_. False))\<lparr>blocks := [1 \<mapsto> [0x2A, 0x86, 0x48]]\<rparr>" 1 "[0x2A, 0x86, 0x48]" 3 "replicate 32 0" 0 NULL NULL 0]
  by auto

end
