(* ===== verification/Axon_Asn1Depth.thy ===== *)
theory Axon_Asn1Depth
  imports Axon_Asn1
begin

text \<open>
  How deep the recursion of \<open>asn1_free\<close> goes, \<open>parser/source/asn1.c\<close>. The function calls itself for the children and for the next sibling of a node, without
  a limit, so that the stack it uses is set by the sender of the data.
\<close>

section \<open>\<open>asn1_free\<close> with a bounded stack\<close>

text \<open>The function, with room for \<open>k\<close> of its calls to be open at once; one more has no result. A call with NULL counts.\<close>

fun free_nested :: "nat \<Rightarrow> asn1_node ptr \<Rightarrow> heap \<Rightarrow> heap option" where
  "free_nested 0 p h = None"
| "free_nested (Suc k) None h = Some h"
| "free_nested (Suc k) (Some (Node a t len v children next)) h = do {
     h \<leftarrow> free_nested k children h;
     h \<leftarrow> free_nested k next h;
     h \<leftarrow> (case v of None \<Rightarrow> Some h | Some _ \<Rightarrow> secure_free v (unat len) h);
     secure_free (Some a) sizeof_node h }"

text \<open>The room it needs.\<close>

fun frames :: "asn1_node ptr \<Rightarrow> nat" where
  "frames None = 1"
| "frames (Some (Node a t len v children next)) = Suc (max (frames children) (frames next))"

lemma frames_pos [simp]: "frames p \<noteq> 0"
  by (cases p rule: frames.cases) simp_all

lemma free_nested_enough: "frames p \<le> k \<Longrightarrow> free_nested k p h = asn1_free p h"
  by (induction k p h rule: free_nested.induct) (auto cong: Option.bind_cong)

lemma free_nested_short: "k < frames p \<Longrightarrow> free_nested k p h = None"
proof (induction k p h rule: free_nested.induct)
  case (3 k a t len v children nxt h)
  show ?case
  proof (cases "k < frames children")
    case False
    with "3.prems" have "k < frames nxt" by simp
    with "3.IH"(2) show ?thesis by (auto split: Option.bind_splits)
  qed (use "3.IH"(1) in simp)
qed simp_all

fun nesting :: "asn1_node ptr \<Rightarrow> nat" where
  "nesting None = 0"
| "nesting (Some (Node a t len v children next)) = max (Suc (nesting children)) (nesting next)"

lemma nesting_frames: "nesting p < frames p"
  by (induction p rule: nesting.induct) auto

section \<open>Every node takes two bytes\<close>

fun nodes :: "asn1_node ptr \<Rightarrow> nat" where
  "nodes None = 0"
| "nodes (Some (Node a t len v children next)) = Suc (nodes children + nodes next)"

lemma frames_nodes: "frames p \<le> nodes p + 1"
  by (induction p rule: frames.induct) auto

lemma nodes_link_append: "node_next c = NULL \<Longrightarrow> nodes (link (cs @ [c])) = nodes (link cs) + nodes (Some c)"
  by (induction cs rule: link.induct) (cases c, auto)

lemma read_length_consumes:
  "asn1_read_length data pos remaining = Some (ret, pos', remaining', len) \<Longrightarrow> \<not> ret < 0 \<Longrightarrow> remaining' < remaining"
  by (auto simp: asn1_read_length_def Let_def split: if_splits Option.bind_splits)

lemma parser_nodes:
  "asn1_parse_node fuel data pos remaining h = Some (ret, p, pos', remaining', h') \<Longrightarrow>
    (ret < 0 \<longrightarrow> p = NULL) \<and> (\<not> ret < 0 \<longrightarrow> (\<forall>n. p = Some n \<longrightarrow> node_next n = NULL) \<and> 2 * nodes p + remaining' \<le> remaining)"
  "asn1_children fuel data child_data child_remaining cs h = Some (ret, cs', h') \<Longrightarrow> \<not> ret < 0 \<Longrightarrow>
    2 * nodes (link cs') \<le> 2 * nodes (link cs) + child_remaining"
proof (induction fuel data pos remaining h and fuel data child_data child_remaining cs h
    arbitrary: ret p pos' remaining' h' and ret cs' h' rule: asn1_parse_node_asn1_children.induct)
  case (2 fuel data pos remaining h)
  have ih: "2 * nodes (link cs) + (rem1 - unat len) + 2 \<le> remaining"
    if "0 < remaining" "asn1_children fuel data pos1 (unat len) [] h1 = Some (ret2, cs, h2)" "secure_alloc sizeof_node h = (Some a, h1)" "rd data pos = Some tag"
      "asn1_read_length data (Suc pos) (remaining - Suc 0) = Some (ret1, pos1, rem1, len)" "\<not> ret1 < 0" "\<not> rem1 < unat len"
      "tag AND ASN1_CONSTRUCTED \<noteq> 0" "\<not> ret2 < 0"
    for a h1 tag ret1 pos1 rem1 len ret2 cs h2
  proof -
    have "\<not> remaining < 1" "asn1_read_length data (pos + 1) (remaining - 1) = Some (ret1, pos1, rem1, len)"
      using that(1,5) by simp_all
    from "2.IH" [OF this(1) that(3) [symmetric] refl that(4) this(2) refl refl refl that(6,7,8,2,9)] show ?thesis
      using read_length_consumes [OF that(5,6)] that(1,7) by simp
  qed
  have pr: "Suc (Suc (rem1 - l)) \<le> remaining"
    if "asn1_read_length data (Suc pos) (remaining - Suc 0) = Some (ret1, pos1, rem1, len)" "\<not> ret1 < 0" "\<not> rem1 < l" for ret1 pos1 rem1 len l
    using read_length_consumes [OF that(1,2)] by simp
  from "2.prems" show ?case
    by (auto simp: Let_def split: if_splits prod.splits option.splits Option.bind_splits dest: ih intro: pr)
next
  case (4 fuel data child_data child_remaining cs h)
  show ?case
  proof (cases "child_remaining > 0")
    case True
    from "4.prems" True obtain ret1 c pos1 rem1 h1 where
      n: "asn1_parse_node fuel data child_data child_remaining h = Some (ret1, Some c, pos1, rem1, h1)" "\<not> ret1 < 0"
      "asn1_children fuel data pos1 rem1 (cs @ [c]) h1 = Some (ret, cs', h')"
      by (auto split: if_splits Option.bind_splits)
    from "4.IH"(1) [OF True n(1)] n(2) have c: "node_next c = NULL" "2 * nodes (Some c) + rem1 \<le> child_remaining" by auto
    from "4.IH"(2) [OF True n(1) refl refl refl refl n(2) refl n(3) "4.prems"(2)] c nodes_link_append [OF c(1), of cs] show ?thesis by simp
  qed (use "4.prems" in auto)
qed auto

section \<open>A deep element\<close>

fun der_depth :: "der \<Rightarrow> nat" where
  "der_depth (Prim t v) = 1"
| "der_depth (Cons t ds) = Suc (foldr (\<lambda>d. max (der_depth d)) ds 0)"

lemma nesting_tree_of: "foldr (\<lambda>d. max (der_depth d)) (tree_of B p) 0 \<le> nesting p"
  by (induction B p rule: tree_of.induct) auto

fun nest :: "nat \<Rightarrow> der" where
  "nest 0 = Prim 4 [0]"
| "nest (Suc n) = Cons 0x30 [nest n]"

lemma der_depth_nest [simp]: "der_depth (nest n) = Suc n"
  by (induction n) auto

lemma nest_size: "length (encode (nest n)) \<le> 6 * n + 3"
  by (induction n) (auto simp: encode_Cons len_enc_def Let_def)

lemma nest_valid: "6 * n + 3 < 2 ^ 32 \<Longrightarrow> valid_der (nest n)"
proof (induction n)
  case (Suc n)
  with nest_size [of n] show ?case by (simp add: ASN1_CONSTRUCTED_def)
qed (simp add: ASN1_CONSTRUCTED_def)

section \<open>Properties\<close>

text \<open>
  C19. The recursion of \<open>asn1_free\<close> is bounded by the input and by nothing else: for a tree that was parsed from \<open>len\<close> bytes, room for
  \<open>len / 2 + 1\<close> open calls is always enough, and for every \<open>n\<close> up to the size of the 32-bit length there is an accepted input of at most \<open>6 n + 3\<close> bytes
  whose tree it releases, but not with room for \<open>n + 1\<close> calls.
\<close>

theorem asn1_recursion:
  "(\<forall>root data len h root' h'. asn1_parse (Some root) (Some data) len h = Some (0, Some root', h') \<longrightarrow>
     free_nested (len div 2 + 1) root' h' = asn1_free root' h') \<and>
   (6 * n + 3 < 2 ^ 32 \<longrightarrow> (\<exists>data root' h' h''. length data \<le> 6 * n + 3 \<and>
     asn1_parse (Some NULL) (Some data) (length data) (empty_heap (\<lambda>_. False)) = Some (0, Some root', h') \<and>
     asn1_free root' h' = Some h'' \<and> free_nested (n + 1) root' h' = None))"
proof (intro conjI allI impI)
  fix root data len h root' h'
  assume "asn1_parse (Some root) (Some data) len h = Some (0, Some root', h')"
  then have "2 * nodes root' \<le> len"
    by (auto simp: asn1_parse_def simp del: asn1_parse_node.simps split: if_splits Option.bind_splits dest!: parser_nodes(1))
  with frames_nodes [of root'] show "free_nested (len div 2 + 1) root' h' = asn1_free root' h'"
    by (intro free_nested_enough) simp
next
  assume "6 * n + 3 < 2 ^ 32"
  then have "parses (nest n)" by (intro parses_valid nest_valid)
  from parsesD [OF this, where pre = "[]" and post = "[]" and h = "empty_heap (\<lambda>_. False)", OF refl order_refl _ lessI heap_ok_empty] obtain t h' where
    p: "asn1_parse_node (Suc (length (encode (nest n)))) (encode (nest n)) 0 (length (encode (nest n))) (empty_heap (\<lambda>_. False)) =
       Some (0, Some t, length (encode (nest n)), 0, h')" "heap_ext (empty_heap (\<lambda>_. False)) h' (cells (Some t))"
      "tree_of (blocks h') (Some t) = [nest n]"
    by (auto simp del: asn1_parse_node.simps)
  have "n < nesting (Some t)" using nesting_tree_of [of "blocks h'" "Some t"] p(3) by simp
  then have "free_nested (n + 1) (Some t) h' = None" using nesting_frames [of "Some t"] by (intro free_nested_short) simp
  moreover obtain h'' where "asn1_free (Some t) h' = Some h''"
    using heap_ext_free [OF p(2)] unfolding asn1_free_cells by blast
  ultimately show "\<exists>data root' h' h''. length data \<le> 6 * n + 3 \<and>
     asn1_parse (Some NULL) (Some data) (length data) (empty_heap (\<lambda>_. False)) = Some (0, Some root', h') \<and>
     asn1_free root' h' = Some h'' \<and> free_nested (n + 1) root' h' = None"
    using p(1) nest_size
    by (intro exI [of _ "encode (nest n)"] exI [of _ "Some t"] exI [of _ h'] exI [of _ h''])
      (simp add: asn1_parse_def del: asn1_parse_node.simps asn1_free.simps free_nested.simps)
qed

lemma asn1_recursion_witness:
  "\<exists>data root' h' h''. length data \<le> 21 \<and>
     asn1_parse (Some NULL) (Some data) (length data) (empty_heap (\<lambda>_. False)) = Some (0, Some root', h') \<and>
     free_nested 4 root' h' = None \<and> free_nested (length data div 2 + 1) root' h' = Some h''"
proof -
  obtain data root' h' h'' where "length data \<le> 21" "asn1_free root' h' = Some h''" "free_nested 4 root' h' = None"
    and p: "asn1_parse (Some NULL) (Some data) (length data) (empty_heap (\<lambda>_. False)) = Some (0, Some root', h')"
    using asn1_recursion [of 3, THEN conjunct2] by auto
  moreover have "free_nested (length data div 2 + 1) root' h' = asn1_free root' h'"
    using asn1_recursion [of 3, THEN conjunct1] p by blast
  ultimately show ?thesis by auto
qed

end
