(* ===== verification/Axon_X509.thy ===== *)
theory Axon_X509
  imports Axon_Asn1
begin

text \<open>
  Certificates, \<open>parser/source/x509.c\<close>: the fields that \<open>x509_parse_certificate\<close> takes out of the ASN.1 tree, the release of
  a certificate, and the two stubs. The two loops that collect a distinguished name are the same code, once for the issuer and once for
  the subject; they read the tree and the heap and write a 256-byte array.
\<close>

section \<open>The code\<close>

record x509_cert =
  der_data :: "nat ptr"
  der_len :: nat
  serial_number :: "byte list"
  serial_len :: nat
  issuer :: "byte list"
  issuer_len :: nat
  subject :: "byte list"
  subject_len :: nat
  not_before :: "byte list"
  not_after :: "byte list"
  public_key :: "byte list"
  public_key_len :: nat
  signature :: "byte list"
  signature_len :: nat
  signature_algorithm :: "byte list"
  sig_algo_len :: nat

definition zero_cert :: x509_cert where
  "zero_cert =
     \<lparr>der_data = NULL, der_len = 0, serial_number = replicate 20 0, serial_len = 0,
      issuer = replicate 256 0, issuer_len = 0, subject = replicate 256 0, subject_len = 0,
      not_before = replicate 16 0, not_after = replicate 16 0,
      public_key = replicate 256 0, public_key_len = 0, signature = replicate 256 0, signature_len = 0,
      signature_algorithm = replicate 16 0, sig_algo_len = 0\<rparr>"

text \<open>\<open>memcpy(dst, node->value + off, n)\<close>\<close>

definition copy_value :: "heap \<Rightarrow> asn1_node \<Rightarrow> nat \<Rightarrow> nat \<Rightarrow> byte list \<Rightarrow> nat \<Rightarrow> byte list option" where
  "copy_value h node off n dst pos = do {
     v \<leftarrow> node_value node;
     b \<leftarrow> blocks h v;
     d \<leftarrow> rd_bytes b off n;
     wr_bytes dst pos d }"

text \<open>One attribute of a name: \<open>seq->next\<close> is a PRINTABLE STRING that still fits, with a slash behind it.\<close>

definition add_attribute :: "heap \<Rightarrow> asn1_node ptr \<Rightarrow> byte list \<times> nat \<Rightarrow> (byte list \<times> nat) option" where
  "add_attribute h seq = (\<lambda>(buf, k).
     (case seq of
        None \<Rightarrow> Some (buf, k)
      | Some sq \<Rightarrow>
          (case node_next sq of
             None \<Rightarrow> Some (buf, k)
           | Some s \<Rightarrow>
               if node_tag s = ASN1_PRINTABLE_STRING then do {
                 let copy_len = unat (node_length s);
                 if k + copy_len + 1 < 256 then do {
                   buf \<leftarrow> copy_value h s 0 copy_len buf k;
                   buf \<leftarrow> wr buf (k + copy_len) 0x2F;
                   Some (buf, k + copy_len + 1) }
                 else Some (buf, k) }
               else Some (buf, k))))"

fun name_sets :: "heap \<Rightarrow> asn1_node ptr \<Rightarrow> byte list \<times> nat \<Rightarrow> (byte list \<times> nat) option" where
  "name_sets h None st = Some st"
| "name_sets h (Some (Node a t len v children next)) st =
     (if snd st < 256 then do { st \<leftarrow> add_attribute h children st; name_sets h next st } else Some st)"

fun name_loop :: "heap \<Rightarrow> asn1_node ptr \<Rightarrow> byte list \<times> nat \<Rightarrow> (byte list \<times> nat) option" where
  "name_loop h None st = Some st"
| "name_loop h (Some (Node a t len v children next)) st =
     (if snd st < 256 then do { st \<leftarrow> name_sets h children st; name_loop h next st } else Some st)"

definition read_name :: "heap \<Rightarrow> asn1_node ptr \<Rightarrow> byte list \<times> nat \<Rightarrow> (byte list \<times> nat) option" where
  "read_name h node st =
     (case node of
        None \<Rightarrow> Some st
      | Some _ \<Rightarrow> do {
          (buf, k) \<leftarrow> name_loop h node st;
          Some (buf, if k > 0 then k - 1 else k) })"

text \<open>A BIT STRING without its first byte, at most 256 bytes of it.\<close>

definition read_bits :: "heap \<Rightarrow> asn1_node \<Rightarrow> byte list \<Rightarrow> (byte list \<times> nat) option" where
  "read_bits h node buf = do {
     let copy_len = unat (node_length node - 1);
     let copy_len = (if copy_len > 256 then 256 else copy_len);
     buf \<leftarrow> copy_value h node 1 copy_len buf 0;
     Some (buf, copy_len) }"

definition read_serial :: "heap \<Rightarrow> asn1_node ptr \<Rightarrow> x509_cert \<Rightarrow> x509_cert option" where
  "read_serial h serial cert =
     (case serial of
        None \<Rightarrow> Some cert
      | Some s \<Rightarrow>
          if node_value s \<noteq> NULL then do {
            let n = (if unat (node_length s) > 20 then 20 else unat (node_length s));
            b \<leftarrow> copy_value h s 0 n (serial_number cert) 0;
            Some (cert\<lparr>serial_number := b, serial_len := n\<rparr>) }
          else Some cert)"

definition read_keys :: "heap \<Rightarrow> asn1_node ptr \<Rightarrow> x509_cert \<Rightarrow> x509_cert option" where
  "read_keys h root cert = do {
     let pub_key = asn1_find root ASN1_BIT_STRING;
     cert \<leftarrow> (case pub_key of
        None \<Rightarrow> Some cert
      | Some p \<Rightarrow>
          if node_value p \<noteq> NULL then do {
            (b, n) \<leftarrow> read_bits h p (public_key cert);
            Some (cert\<lparr>public_key := b, public_key_len := n\<rparr>) }
          else Some cert);
     let sig = asn1_find root ASN1_BIT_STRING;
     (case sig of
        None \<Rightarrow> Some cert
      | Some s \<Rightarrow>
          if map_option node_addr sig \<noteq> map_option node_addr pub_key \<and> node_value s \<noteq> NULL then do {
            (b, n) \<leftarrow> read_bits h s (signature cert);
            Some (cert\<lparr>signature := b, signature_len := n\<rparr>) }
          else Some cert) }"

definition read_fields :: "heap \<Rightarrow> asn1_node ptr \<Rightarrow> asn1_node \<Rightarrow> x509_cert \<Rightarrow> x509_cert option" where
  "read_fields h root tbs cert = do {
     cert \<leftarrow> read_serial h (asn1_find (Some tbs) ASN1_INTEGER) cert;
     (b, n) \<leftarrow> read_name h (asn1_find (Some tbs) (ASN1_SEQUENCE OR ASN1_CONSTRUCTED)) (issuer cert, issuer_len cert);
     let cert = cert\<lparr>issuer := b, issuer_len := n\<rparr>;
     let from = (if node_next tbs \<noteq> NULL then node_next tbs else Some tbs);
     (b, n) \<leftarrow> read_name h (asn1_find from (ASN1_SEQUENCE OR ASN1_CONSTRUCTED)) (subject cert, subject_len cert);
     let cert = cert\<lparr>subject := b, subject_len := n\<rparr>;
     read_keys h root cert }"

definition x509_parse_certificate ::
  "x509_cert ptr \<Rightarrow> byte list ptr \<Rightarrow> nat \<Rightarrow> heap \<Rightarrow> (int \<times> x509_cert ptr \<times> heap) option" where
  "x509_parse_certificate certp datap len h =
     (case (certp, datap) of
        (Some _, Some data) \<Rightarrow>
          if len = 0 then Some (-1, certp, h)
          else (case secure_alloc len h of
            (None, h) \<Rightarrow> Some (-1, Some zero_cert, h)
          | (Some a, h) \<Rightarrow> do {
              d \<leftarrow> rd_bytes data 0 len;
              b \<leftarrow> blocks h a;
              b \<leftarrow> wr_bytes b 0 d;
              let h = h\<lparr>blocks := (blocks h)(a \<mapsto> b)\<rparr>;
              let cert = zero_cert\<lparr>der_data := Some a, der_len := len\<rparr>;
              (ret, rootp, h) \<leftarrow> asn1_parse (Some NULL) (Some data) len h;
              root \<leftarrow> rootp;
              if ret < 0 then do { h \<leftarrow> asn1_free root h; Some (-1, Some cert, h) }
              else (case asn1_find root (ASN1_SEQUENCE OR ASN1_CONSTRUCTED) of
                None \<Rightarrow> do { h \<leftarrow> asn1_free root h; Some (-1, Some cert, h) }
              | Some tbs \<Rightarrow> do {
                  cert \<leftarrow> read_fields h root tbs cert;
                  h \<leftarrow> asn1_free root h;
                  Some (0, Some cert, h) }) })
      | _ \<Rightarrow> Some (-1, certp, h))"

definition x509_verify_signature :: "x509_cert ptr \<Rightarrow> byte list ptr \<Rightarrow> nat \<Rightarrow> byte list ptr \<Rightarrow> nat \<Rightarrow> int" where
  "x509_verify_signature cert data len sigp sig_len = 0"

definition x509_get_subject_alt_name :: "x509_cert ptr \<Rightarrow> string list ptr \<Rightarrow> nat ptr \<Rightarrow> int \<times> string list ptr \<times> nat ptr" where
  "x509_get_subject_alt_name cert names countp = (0, names, countp)"

definition x509_free_certificate :: "x509_cert ptr \<Rightarrow> heap \<Rightarrow> (x509_cert ptr \<times> heap) option" where
  "x509_free_certificate certp h =
     (case certp of
        None \<Rightarrow> Some (certp, h)
      | Some cert \<Rightarrow>
          if der_data cert \<noteq> NULL then do {
            h \<leftarrow> secure_free (der_data cert) (der_len cert) h;
            Some (Some zero_cert, h) }
          else Some (certp, h))"

section \<open>Reading a live tree\<close>

text \<open>All values of the tree are in the heap with their lengths, and primitive nodes have one.\<close>

fun live :: "heap \<Rightarrow> asn1_node ptr \<Rightarrow> bool" where
  "live h None = True"
| "live h (Some (Node a t len v children next)) \<longleftrightarrow>
     (t AND ASN1_CONSTRUCTED = 0 \<longrightarrow> v \<noteq> NULL) \<and>
     (\<forall>x. v = Some x \<longrightarrow> len \<noteq> 0 \<and> (\<exists>b. blocks h x = Some b \<and> length b = unat len)) \<and> live h children \<and> live h next"

lemma live_tree:
  "prim_values p \<Longrightarrow> (\<And>a n. (a, n) \<in> set (cells p) \<Longrightarrow> 0 < n \<and> (\<exists>b. blocks h a = Some b \<and> length b = n)) \<Longrightarrow> live h p"
proof (induction p rule: prim_values.induct)
  case (2 a t len v children nxt)
  have "len \<noteq> 0 \<and> (\<exists>b. blocks h x = Some b \<and> length b = unat len)" if "v = Some x" for x
    using "2.prems"(2) [of x "unat len"] that by auto
  with 2 show ?case by auto
qed simp

lemma live_ext: "heap_ext h h' (cells p) \<Longrightarrow> prim_values p \<Longrightarrow> live h' p"
  by (rule live_tree) (auto simp: heap_ext_def)

lemma live_parts:
  "live h (Some n) \<Longrightarrow> live h (node_children n)" "live h (Some n) \<Longrightarrow> live h (node_next n)"
  "live h (Some n) \<Longrightarrow> node_tag n AND ASN1_CONSTRUCTED = 0 \<Longrightarrow> node_value n \<noteq> NULL"
  "live h (Some n) \<Longrightarrow> node_value n = Some x \<Longrightarrow> node_length n \<noteq> 0 \<and> (\<exists>b. blocks h x = Some b \<and> length b = unat (node_length n))"
  by (cases n; auto)+

lemma live_find: "live h p \<Longrightarrow> asn1_find p tag = Some n \<Longrightarrow> live h (Some n) \<and> node_tag n = tag"
  by (induction p tag rule: asn1_find.induct) (auto split: if_splits option.splits)

lemma copy_value_total:
  assumes "live h (Some n)" "node_value n \<noteq> NULL" "off + k \<le> unat (node_length n)" "pos + k \<le> length dst"
  shows "\<exists>b. copy_value h n off k dst pos = Some b \<and> length b = length dst"
proof -
  from assms(2) obtain x where x: "node_value n = Some x" by blast
  from live_parts(4) [OF assms(1) x] obtain b where b: "blocks h x = Some b" "length b = unat (node_length n)" by blast
  have "rd_bytes b off k = Some (take k (drop off b))" using b(2) assms(3) by (simp add: rd_bytes_def)
  moreover have "length (take k (drop off b)) = k" using b(2) assms(3) by simp
  ultimately show ?thesis
    using x b(1) assms(4) by (simp add: copy_value_def wr_bytes_def)
qed

definition name_ok :: "byte list \<times> nat \<Rightarrow> bool" where
  "name_ok st \<longleftrightarrow> length (fst st) = 256 \<and> snd st < 256"

lemma add_attribute_total:
  assumes "live h p" "name_ok st"
  shows "\<exists>st'. add_attribute h p st = Some st' \<and> name_ok st'"
proof (cases "\<exists>sq s. p = Some sq \<and> node_next sq = Some s \<and> node_tag s = ASN1_PRINTABLE_STRING \<and>
    snd st + unat (node_length s) + 1 < 256")
  case True
  then obtain sq s where s: "p = Some sq" "node_next sq = Some s" "node_tag s = ASN1_PRINTABLE_STRING"
    "snd st + unat (node_length s) + 1 < 256" by blast
  have l: "live h (Some s)" using live_parts(2) [of h sq] assms(1) s by simp
  have v: "node_value s \<noteq> NULL"
    by (rule live_parts(3) [OF l]) (simp add: s(3) ASN1_PRINTABLE_STRING_def ASN1_CONSTRUCTED_def)
  from copy_value_total [OF l v, of 0 "unat (node_length s)" "snd st" "fst st"] s(4) assms(2)
  obtain b where "copy_value h s 0 (unat (node_length s)) (fst st) (snd st) = Some b" "length b = 256"
    by (auto simp: name_ok_def)
  with s show ?thesis by (cases st) (auto simp: add_attribute_def name_ok_def Let_def wr_def)
next
  case False
  with assms(2) show ?thesis by (cases st) (auto simp: add_attribute_def Let_def split: option.split)
qed

lemma name_sets_total: "live h p \<Longrightarrow> name_ok st \<Longrightarrow> \<exists>st'. name_sets h p st = Some st' \<and> name_ok st'"
proof (induction h p st rule: name_sets.induct)
  case (2 h a t len v children nxt st)
  then have l: "live h children" "live h nxt" by simp_all
  from add_attribute_total [OF l(1) "2.prems"(2)]
  obtain st1 where "add_attribute h children st = Some st1" "name_ok st1" by blast
  with "2.IH" [OF _ _ l(2)] "2.prems"(2) show ?case by (cases "snd st < 256") simp_all
qed simp

lemma name_loop_total: "live h p \<Longrightarrow> name_ok st \<Longrightarrow> \<exists>st'. name_loop h p st = Some st' \<and> name_ok st'"
proof (induction h p st rule: name_loop.induct)
  case (2 h a t len v children nxt st)
  then have l: "live h children" "live h nxt" by simp_all
  from name_sets_total [OF l(1) "2.prems"(2)]
  obtain st1 where "name_sets h children st = Some st1" "name_ok st1" by blast
  with "2.IH" [OF _ _ l(2)] "2.prems"(2) show ?case by (cases "snd st < 256") simp_all
qed simp

lemma read_name_total:
  assumes "live h p" "name_ok st"
  shows "\<exists>b n. read_name h p st = Some (b, n) \<and> name_ok (b, n)"
  using name_loop_total [OF assms] assms(2) by (cases st) (auto simp: read_name_def name_ok_def split: option.split)

lemma copy_value_eq:
  assumes "node_value n = Some x" "blocks h x = Some b" "off + k \<le> length b" "pos + k \<le> length dst"
  shows "copy_value h n off k dst pos = Some (take pos dst @ take k (drop off b) @ drop (pos + k) dst)"
  using assms by (simp add: copy_value_def rd_bytes_def wr_bytes_def)

text \<open>What the value of a node leaves in the certificate.\<close>

definition set_serial :: "byte list \<Rightarrow> x509_cert \<Rightarrow> x509_cert" where
  "set_serial v cert = cert\<lparr>serial_number := take 20 v @ drop (length v) (serial_number cert), serial_len := min 20 (length v)\<rparr>"

definition set_key :: "byte list \<Rightarrow> x509_cert \<Rightarrow> x509_cert" where
  "set_key v cert = cert\<lparr>public_key := take 256 (tl v) @ drop (length v - 1) (public_key cert), public_key_len := min 256 (length v - 1)\<rparr>"

text \<open>The value of a primitive node.\<close>

definition value_of :: "heap \<Rightarrow> asn1_node \<Rightarrow> byte list" where
  "value_of h n = the (blocks h (the (node_value n)))"

definition with_value :: "heap \<Rightarrow> asn1_node ptr \<Rightarrow> (byte list \<Rightarrow> x509_cert \<Rightarrow> x509_cert) \<Rightarrow> x509_cert \<Rightarrow> x509_cert" where
  "with_value h node f cert = (case node of None \<Rightarrow> cert | Some n \<Rightarrow> f (value_of h n) cert)"

lemma live_value:
  assumes "live h (Some n)" "node_tag n AND ASN1_CONSTRUCTED = 0"
  obtains x where "node_value n = Some x" "blocks h x = Some (value_of h n)" "length (value_of h n) = unat (node_length n)"
    "node_length n \<noteq> 0"
proof -
  from live_parts(3) [OF assms] obtain x where x: "node_value n = Some x" by blast
  with live_parts(4) [OF assms(1) x] that show ?thesis by (auto simp: value_of_def)
qed

lemma read_serial_eq:
  assumes "live h p" "length (serial_number cert) = 20"
  shows "read_serial h (asn1_find p ASN1_INTEGER) cert =
    Some (with_value h (asn1_find p ASN1_INTEGER) set_serial cert)"
proof (cases "asn1_find p ASN1_INTEGER")
  case (Some s)
  have l: "live h (Some s)" "node_tag s AND ASN1_CONSTRUCTED = 0"
    using live_find [OF assms(1) Some] by (simp_all add: ASN1_INTEGER_def ASN1_CONSTRUCTED_def)
  obtain x where x: "node_value s = Some x" "blocks h x = Some (value_of h s)" "length (value_of h s) = unat (node_length s)"
    using live_value [OF l] by blast
  show ?thesis
    using Some x copy_value_eq [OF x(1,2), of 0 "min 20 (unat (node_length s))" 0 "serial_number cert"] assms(2)
    by (cases "unat (node_length s) > 20") (simp_all add: read_serial_def set_serial_def with_value_def min_def Let_def)
qed (simp add: read_serial_def with_value_def)

lemma read_keys_eq:
  assumes "live h root" "length (public_key cert) = 256"
  shows "read_keys h root cert =
    Some (with_value h (asn1_find root ASN1_BIT_STRING) set_key cert)"
proof (cases "asn1_find root ASN1_BIT_STRING")
  case (Some p)
  have l: "live h (Some p)" "node_tag p AND ASN1_CONSTRUCTED = 0"
    using live_find [OF assms(1) Some] by (simp_all add: ASN1_BIT_STRING_def ASN1_CONSTRUCTED_def)
  obtain x where x: "node_value p = Some x" "blocks h x = Some (value_of h p)" "length (value_of h p) = unat (node_length p)"
    "node_length p \<noteq> 0" using live_value [OF l] by blast
  then have n: "unat (node_length p - 1) = unat (node_length p) - 1" "0 < unat (node_length p)"
    by (simp_all add: unat_minus_one unat_gt_0)
  have "read_bits h p (public_key cert) = Some (take 256 (tl (value_of h p)) @ drop (length (value_of h p) - 1) (public_key cert),
      min 256 (length (value_of h p) - 1))"
    using copy_value_eq [OF x(1,2), of 1 "min 256 (unat (node_length p) - 1)" 0 "public_key cert"] x(3) n assms(2)
    by (cases "unat (node_length p) - 1 > 256") (simp_all add: read_bits_def min_def drop_Suc Let_def)
  then show ?thesis using Some x(1) by (simp add: read_keys_def set_key_def with_value_def)
qed (simp add: read_keys_def with_value_def)

lemma read_fields_eq:
  assumes "live h root" "asn1_find root tag = Some tbs" and c: "cert = zero_cert\<lparr>der_data := d, der_len := n\<rparr>"
  shows "\<exists>ib il sb sl. (node_next tbs = NULL \<longrightarrow> sb = ib \<and> sl = il) \<and>
    read_name h (asn1_find (Some tbs) (ASN1_SEQUENCE OR ASN1_CONSTRUCTED)) (replicate 256 0, 0) = Some (ib, il) \<and> read_fields h root tbs cert =
    Some (with_value h (asn1_find root ASN1_BIT_STRING) set_key
      ((with_value h (asn1_find (Some tbs) ASN1_INTEGER) set_serial cert)
        \<lparr>issuer := ib, issuer_len := il, subject := sb, subject_len := sl\<rparr>))"
proof -
  let ?seq = "ASN1_SEQUENCE OR ASN1_CONSTRUCTED"
  let ?from = "if node_next tbs \<noteq> NULL then node_next tbs else Some tbs"
  have tbs: "live h (Some tbs)" using live_find [OF assms(1,2)] by blast
  then have from_live: "live h ?from" using live_parts(2) by simp
  have live_some: "live h (asn1_find p t)" if "live h p" for p t
    using live_find [OF that] by (cases "asn1_find p t") simp_all
  define s where "s = with_value h (asn1_find (Some tbs) ASN1_INTEGER) set_serial cert"
  have serial: "read_serial h (asn1_find (Some tbs) ASN1_INTEGER) cert = Some s"
    using read_serial_eq [OF tbs, of cert] by (simp add: s_def c zero_cert_def)
  have s: "issuer s = replicate 256 0" "subject s = replicate 256 0" "issuer_len s = 0" "subject_len s = 0" "public_key s = replicate 256 0"
    by (simp_all add: s_def c zero_cert_def set_serial_def with_value_def split: option.split)
  have ok: "name_ok (replicate 256 0, 0)" by (simp add: name_ok_def)
  obtain ib il where issuer: "read_name h (asn1_find (Some tbs) ?seq) (replicate 256 0, 0) = Some (ib, il)"
    using read_name_total [OF live_some [OF tbs] ok] by blast
  obtain sb sl where subject: "read_name h (asn1_find ?from ?seq) (replicate 256 0, 0) = Some (sb, sl)"
    using read_name_total [OF live_some [OF from_live] ok] by blast
  have "sb = ib \<and> sl = il" if "node_next tbs = NULL" using issuer subject that by simp
  moreover have "read_fields h root tbs cert = read_keys h root (s\<lparr>issuer := ib, issuer_len := il, subject := sb, subject_len := sl\<rparr>)"
    using serial issuer subject s by (simp add: read_fields_def Let_def)
  ultimately show ?thesis
    using read_keys_eq [OF assms(1), of "s\<lparr>issuer := ib, issuer_len := il, subject := sb, subject_len := sl\<rparr>"] s(5)
    by (intro exI [of _ ib] exI [of _ il] exI [of _ sb] exI [of _ sl]) (use issuer in \<open>auto simp flip: s_def\<close>)
qed

section \<open>The parser\<close>

lemma heap_ext_blocks: "heap_ext h h1 cs \<Longrightarrow> heap_ok h2 \<Longrightarrow> blocks h2 = blocks h1 \<Longrightarrow> heap_ext h h2 cs"
  by (simp add: heap_ext_def)

text \<open>The parser is entered with a copy of the input in a fresh block.\<close>

lemma der_copy:
  assumes "heap_ok h" "0 < len" "len \<le> length data" "secure_alloc len h = (Some a, h1)"
  defines "h2 \<equiv> h1\<lparr>blocks := (blocks h1)(a \<mapsto> take len data)\<rparr>"
  shows "heap_ext h h2 [(a, len)]"
    and "mfail h2 = mfail h1"
    and "x509_parse_certificate (Some c) (Some data) len h = do {
      let cert = zero_cert\<lparr>der_data := Some a, der_len := len\<rparr>;
      (ret, root, _, _, h) \<leftarrow> asn1_parse_node (len + 1) data 0 len h2;
      if ret < 0 then Some (-1, Some cert, h)
      else (case asn1_find root (ASN1_SEQUENCE OR ASN1_CONSTRUCTED) of
        None \<Rightarrow> do { h \<leftarrow> asn1_free root h; Some (-1, Some cert, h) }
      | Some tbs \<Rightarrow> do {
          cert \<leftarrow> read_fields h root tbs cert;
          h \<leftarrow> asn1_free root h;
          Some (0, Some cert, h) }) }"
proof -
  have e: "heap_ext h h1 [(a, len)]" by (rule heap_ext_alloc [OF assms(1,4)])
  then show "heap_ext h h2 [(a, len)]" unfolding h2_def by (rule heap_ext_write) (use assms(3) in simp_all)
  show "mfail h2 = mfail h1" by (simp add: h2_def)
  obtain b where b: "blocks h1 a = Some b" "length b = len" using e by (auto simp: heap_ext_def)
  then have w: "wr_bytes b 0 (take len data) = Some (take len data)" using assms(3) by (simp add: wr_bytes_def)
  show "x509_parse_certificate (Some c) (Some data) len h = do {
      let cert = zero_cert\<lparr>der_data := Some a, der_len := len\<rparr>;
      (ret, root, _, _, h) \<leftarrow> asn1_parse_node (len + 1) data 0 len h2;
      if ret < 0 then Some (-1, Some cert, h)
      else (case asn1_find root (ASN1_SEQUENCE OR ASN1_CONSTRUCTED) of
        None \<Rightarrow> do { h \<leftarrow> asn1_free root h; Some (-1, Some cert, h) }
      | Some tbs \<Rightarrow> do {
          cert \<leftarrow> read_fields h root tbs cert;
          h \<leftarrow> asn1_free root h;
          Some (0, Some cert, h) }) }"
    using assms(2-4) b(1) w
    by (simp add: x509_parse_certificate_def asn1_parse_def h2_def rd_bytes_def Let_def split: Option.bind_split prod.split)
qed

lemma set_der [simp]:
  "der_data (with_value h n set_serial cert) = der_data cert" "der_len (with_value h n set_serial cert) = der_len cert"
  "der_data (with_value h n set_key cert) = der_data cert" "der_len (with_value h n set_key cert) = der_len cert"
  "signature (with_value h n set_serial cert) = signature cert" "signature_len (with_value h n set_serial cert) = signature_len cert"
  "signature (with_value h n set_key cert) = signature cert" "signature_len (with_value h n set_key cert) = signature_len cert"
  by (simp_all add: with_value_def set_serial_def set_key_def split: option.split)

section \<open>Certificates that have been encoded\<close>

fun der_tag :: "der \<Rightarrow> byte" where
  "der_tag (Prim t v) = t"
| "der_tag (Cons t ds) = t"

fun der_nodes :: "der \<Rightarrow> der list" where
  "der_nodes (Prim t v) = [Prim t v]"
| "der_nodes (Cons t ds) = Cons t ds # concat (map der_nodes ds)"

fun der_value :: "der \<Rightarrow> byte list" where
  "der_value (Prim t v) = v"
| "der_value (Cons t ds) = []"

text \<open>The value of the first element with the tag, in the order of the encoding.\<close>

definition first_value :: "byte \<Rightarrow> der list \<Rightarrow> byte list" where
  "first_value t ds = (case find (\<lambda>e. der_tag e = t) (concat (map der_nodes ds)) of None \<Rightarrow> [] | Some e \<Rightarrow> der_value e)"

text \<open>An element in which the parser sees a piece of a name: a PRINTABLE STRING at the second place.\<close>

fun named :: "der \<Rightarrow> bool" where
  "named (Cons t (x # y # ds)) \<longleftrightarrow> der_tag y = ASN1_PRINTABLE_STRING"
| "named e \<longleftrightarrow> False"

definition der_of :: "(nat \<Rightarrow> byte list option) \<Rightarrow> asn1_node \<Rightarrow> der" where
  "der_of B n = hd (tree_of B (Some n))"

lemma der_of_tag [simp]: "der_tag (der_of B n) = node_tag n"
  by (cases n) (simp add: der_of_def)

lemma tree_nodes: "concat (map der_nodes (tree_of B p)) = map (der_of B) (preorder p)"
  if "prim_values p"
  using that by (induction B p rule: tree_of.induct) (auto simp: der_of_def)

lemma find_map: "find P (map f xs) = map_option f (find (P \<circ> f) xs)"
  by (induction xs) simp_all

lemma der_of_value: "node_tag n AND ASN1_CONSTRUCTED = 0 \<Longrightarrow> prim_values (Some n) \<Longrightarrow> der_value (der_of (blocks h) n) = value_of h n"
  by (cases n) (auto simp: der_of_def value_of_def)

lemma prim_values_find: "prim_values p \<Longrightarrow> asn1_find p t = Some n \<Longrightarrow> prim_values (Some n) \<and> node_tag n = t"
  by (induction p t rule: asn1_find.induct) (auto split: if_splits option.splits)

lemma with_first_value:
  assumes "prim_values p" "t AND ASN1_CONSTRUCTED = 0" "f [] cert = cert"
  shows "with_value h (asn1_find p t) f cert = f (first_value t (tree_of (blocks h) p)) cert"
proof (cases "asn1_find p t")
  case None
  then show ?thesis
    using assms(3) by (simp add: with_value_def first_value_def tree_nodes [OF assms(1)] find_map comp_def asn1_find_preorder)
next
  case (Some n)
  with prim_values_find [OF assms(1) Some] assms(2) show ?thesis
    by (simp add: with_value_def first_value_def tree_nodes [OF assms(1)] find_map comp_def der_of_value flip: asn1_find_preorder)
qed

lemma unnamed_sets:
  "prim_values p \<Longrightarrow> \<forall>e \<in> set (tree_of B p). \<not> named e \<Longrightarrow> name_sets h p st = Some st"
proof (induction h p st rule: name_sets.induct)
  case (2 h a t len v children nxt st)
  have "add_attribute h children st = Some st"
  proof (cases "\<exists>sq s. children = Some sq \<and> node_next sq = Some s \<and> node_tag s = ASN1_PRINTABLE_STRING")
    case True
    then obtain sq s where s: "children = Some sq" "node_next sq = Some s" "node_tag s = ASN1_PRINTABLE_STRING" by blast
    have "t AND ASN1_CONSTRUCTED \<noteq> 0" using "2.prems"(1) s(1) by auto
    with "2.prems"(2) s have False by (cases sq; cases s; auto split: if_splits)
    then show ?thesis ..
  qed (auto simp: add_attribute_def split: option.split prod.split)
  with 2 show ?case by simp
qed simp

text \<open>Without a name at the place where it is looked for, the issuer stays empty.\<close>

lemma unnamed_certificate:
  assumes "prim_values (Some n)" "node_next n = NULL" "tree_of (blocks h) (Some n) = [Cons 0x30 ds]" "\<forall>e \<in> set ds. \<not> named e"
    "read_name h (Some n) (replicate 256 0, 0) = Some (ib, il)" "node_tag n = ASN1_SEQUENCE OR ASN1_CONSTRUCTED"
  shows "il = 0"
proof -
  have "tree_of (blocks h) (node_children n) = ds" using assms(3) by (cases n) (auto split: if_splits)
  then have "name_sets h (node_children n) (replicate 256 0, 0) = Some (replicate 256 0, 0)"
    using unnamed_sets [of "node_children n" "blocks h"] assms(1,4) by (cases n) auto
  then show ?thesis using assms(2,5,6) by (cases n) (simp add: read_name_def)
qed

lemma der_released:
  assumes "heap_ext h h2 [(a, len)]" "blocks h2 a = Some (take len data)" "der_data cert = Some a" "der_len cert = len"
    "heap_ok h'" "blocks h' = blocks h2"
  shows "(\<forall>a. der_data cert = Some a \<longrightarrow> blocks h' a = Some (take len data)) \<and>
    (\<exists>cert' h''. x509_free_certificate (Some cert) h' = Some (cert', h'') \<and> heap_ok h'' \<and> blocks h'' = blocks h)"
  using heap_ext_free [OF heap_ext_blocks [OF assms(1,5,6)]] assms
  by (auto simp: x509_free_certificate_def split: Option.bind_splits)

section \<open>Properties\<close>

text \<open>
  C21. The certificate parser is memory-safe and total: on every input of \<open>len\<close> bytes, and whichever allocations fail, it returns, no buffer of
  the certificate overflows, the ASN.1 tree is freed on every path, and what stays allocated is at most the copy of the input, which
  \<open>x509_free_certificate\<close> releases, so that the heap is again what it was.
\<close>

theorem x509_parse_memory:
  assumes "heap_ok h" "0 < len" "len \<le> length data"
  shows "\<exists>ret cert h'. x509_parse_certificate (Some c) (Some data) len h = Some (ret, Some cert, h') \<and> ret \<in> {0, -1} \<and>
    (\<forall>a. der_data cert = Some a \<longrightarrow> blocks h' a = Some (take len data)) \<and>
    (\<exists>cert' h''. x509_free_certificate (Some cert) h' = Some (cert', h'') \<and> heap_ok h'' \<and> blocks h'' = blocks h)"
proof -
  obtain q h1 where alloc: "secure_alloc len h = (q, h1)" by fastforce
  show ?thesis
  proof (cases q)
    case None
    with alloc sec.alloc_none [OF assms(1)] assms(2) show ?thesis
      by (auto simp: x509_parse_certificate_def x509_free_certificate_def zero_cert_def)
  next
    case (Some a)
    define h2 where "h2 = h1\<lparr>blocks := (blocks h1)(a \<mapsto> take len data)\<rparr>"
    note copy = der_copy [OF assms alloc [unfolded Some], folded h2_def]
    have "blocks h2 a = Some (take len data)" by (simp add: h2_def)
    note released = der_released [OF copy(1) this]
    have nr: "node_result h2 0 len (asn1_parse_node (len + 1) data 0 len h2)"
      by (rule parser_total(1) [OF heap_ext_ok [OF copy(1)]]) (use assms(3) in simp_all)
    then obtain ret root x y h3 where p: "asn1_parse_node (len + 1) data 0 len h2 = Some (ret, root, x, y, h3)"
      "ret = -1 \<and> heap_ext h2 h3 [] \<or> ret = 0 \<and> heap_ext h2 h3 (cells root)" by (auto simp: node_result_def)
    show ?thesis
    proof (cases "ret = -1")
      case True
      with p have "heap_ok h3" "blocks h3 = blocks h2" by (auto simp: heap_ext_nil)
      from released [OF _ _ this, of "zero_cert\<lparr>der_data := Some a, der_len := len\<rparr>"] show ?thesis
        using True p(1) by (simp add: copy(3) Let_def)
    next
      case False
      with p(2) have r: "ret = 0" "heap_ext h2 h3 (cells root)" by auto
      have l: "live h3 root" by (rule live_ext [OF r(2)]) (use parser_values(1) [OF p(1)] in blast)
      obtain h4 where h4: "asn1_free root h3 = Some h4" "heap_ok h4" "blocks h4 = blocks h2"
        using heap_ext_free [OF r(2)] by (auto simp: asn1_free_cells)
      show ?thesis
      proof (cases "asn1_find root (ASN1_SEQUENCE OR ASN1_CONSTRUCTED)")
        case None
        with released [OF _ _ h4(2,3), of "zero_cert\<lparr>der_data := Some a, der_len := len\<rparr>"] p(1) r(1) h4(1) show ?thesis
          by (simp add: copy(3) Let_def)
      next
        case (Some tbs)
        obtain cert where cert: "read_fields h3 root tbs (zero_cert\<lparr>der_data := Some a, der_len := len\<rparr>) = Some cert"
          "der_data cert = Some a" "der_len cert = len"
          using read_fields_eq [OF l Some refl, where d = "Some a" and n = len] by auto
        with released [OF cert(2,3) h4(2,3)] p(1) r(1) h4(1) Some show ?thesis
          by (simp add: copy(3) Let_def)
      qed
    qed
  qed
qed

lemma x509_parse_memory_witness:
  "\<exists>ret cert h'. x509_parse_certificate (Some zero_cert) (Some [0x30, 0x03, 0x02, 0x01, 0x07]) 5 (empty_heap (\<lambda>n. n = 2)) =
     Some (ret, Some cert, h') \<and> ret \<in> {0, -1}"
  using x509_parse_memory [OF heap_ok_empty [of "\<lambda>n. n = 2"], of 5 "[0x30, 0x03, 0x02, 0x01, 0x07]" zero_cert] by auto



end
