(* ===== verification/Axon_Log.thy ===== *)
theory Axon_Log
  imports Axon_Prelude "HOL-Library.Sublist"
begin

text \<open>
  Logging, \<open>utils/source/log.c\<close>: the level filter, the messages with a prefix and the hex dump, with their 2048-byte buffers. What
  \<open>vsnprintf\<close> makes of a format and its arguments is a string that the operations take; the function that \<open>log_set_output\<close>
  installs is a pointer, and each message is recorded with the pointer it is given to (NULL for \<open>puts\<close>).
\<close>

section \<open>The code\<close>

datatype log_level =
  LOG_LEVEL_NONE | LOG_LEVEL_ERROR | LOG_LEVEL_WARNING | LOG_LEVEL_INFO | LOG_LEVEL_DEBUG | LOG_LEVEL_TRACE

text \<open>The values of the enum, which order the levels.\<close>

primrec level_code :: "log_level \<Rightarrow> nat" where
  "level_code LOG_LEVEL_NONE = 0"
| "level_code LOG_LEVEL_ERROR = 1"
| "level_code LOG_LEVEL_WARNING = 2"
| "level_code LOG_LEVEL_INFO = 3"
| "level_code LOG_LEVEL_DEBUG = 4"
| "level_code LOG_LEVEL_TRACE = 5"

lemma level_code_eq [simp]: "level_code x = level_code y \<longleftrightarrow> x = y"
  by (cases x; cases y) simp_all

instantiation log_level :: linorder
begin

definition less_eq_log_level :: "log_level \<Rightarrow> log_level \<Rightarrow> bool" where
  "less_eq_log_level x y \<longleftrightarrow> level_code x \<le> level_code y"

definition less_log_level :: "log_level \<Rightarrow> log_level \<Rightarrow> bool" where
  "less_log_level x y \<longleftrightarrow> level_code x < level_code y"

instance
  by standard (auto simp: less_eq_log_level_def less_log_level_def dest: antisym)

end

record log_state =
  current_log_level :: log_level
  log_output_func :: "nat ptr"
  printed :: "(nat ptr \<times> string) list"

definition log_start :: log_state where
  "log_start = \<lparr>current_log_level = LOG_LEVEL_INFO, log_output_func = NULL, printed = []\<rparr>"

definition log_set_level :: "log_level \<Rightarrow> log_state \<Rightarrow> log_state" where
  "log_set_level level st = st\<lparr>current_log_level := level\<rparr>"

definition log_set_output :: "nat ptr \<Rightarrow> log_state \<Rightarrow> log_state" where
  "log_set_output f st = st\<lparr>log_output_func := f\<rparr>"

definition NUL :: char where
  "NUL = CHR 0x00"

text \<open>
  \<open>snprintf(buffer + pos, n, ...)\<close> where the formatted text is \<open>s\<close>: at most \<open>n - 1\<close> characters and a NUL are stored, and the length of the whole
  text is returned. A text whose length is no \<open>int\<close> is outside the model.
\<close>

definition snprintf :: "string \<Rightarrow> nat \<Rightarrow> nat \<Rightarrow> string \<Rightarrow> (string \<times> nat) option" where
  "snprintf buf pos n s =
     (if 2 ^ 31 \<le> length s then None
      else if n = 0 then Some (buf, length s)
      else do { buf \<leftarrow> wr_bytes buf pos (take (n - 1) s @ [NUL]); Some (buf, length s) })"

text \<open>The text that a function finds which is given the buffer as a string.\<close>

definition c_string :: "string \<Rightarrow> string option" where
  "c_string buf = (if NUL \<in> set buf then Some (takeWhile (\<lambda>c. c \<noteq> NUL) buf) else None)"

definition print_buffer :: "string \<Rightarrow> log_state \<Rightarrow> log_state option" where
  "print_buffer buf st = do { m \<leftarrow> c_string buf; Some (st\<lparr>printed := printed st @ [(log_output_func st, m)]\<rparr>) }"

text \<open>\<open>junk\<close> is what the uninitialised array on the stack holds.\<close>

definition log_printf :: "log_level \<Rightarrow> string \<Rightarrow> string \<Rightarrow> string \<Rightarrow> log_state \<Rightarrow> log_state option" where
  "log_printf level prfx body junk st =
     (if level > current_log_level st then Some st
      else do {
        (buffer, len) \<leftarrow> snprintf junk 0 2048 (''['' @ prfx @ ''] '');
        (buffer, _) \<leftarrow> snprintf buffer len (2048 - len) body;
        print_buffer buffer st })"

definition log_error :: "string \<Rightarrow> string \<Rightarrow> log_state \<Rightarrow> log_state option" where
  "log_error = log_printf LOG_LEVEL_ERROR ''ERROR''"

definition log_warning :: "string \<Rightarrow> string \<Rightarrow> log_state \<Rightarrow> log_state option" where
  "log_warning = log_printf LOG_LEVEL_WARNING ''WARN''"

definition log_info :: "string \<Rightarrow> string \<Rightarrow> log_state \<Rightarrow> log_state option" where
  "log_info = log_printf LOG_LEVEL_INFO ''INFO''"

definition log_debug :: "string \<Rightarrow> string \<Rightarrow> log_state \<Rightarrow> log_state option" where
  "log_debug = log_printf LOG_LEVEL_DEBUG ''DEBUG''"

definition log_trace :: "string \<Rightarrow> string \<Rightarrow> log_state \<Rightarrow> log_state option" where
  "log_trace = log_printf LOG_LEVEL_TRACE ''TRACE''"

text \<open>\<open>"%02X "\<close>\<close>

definition hex_cell :: "byte \<Rightarrow> string" where
  "hex_cell x = [''0123456789ABCDEF'' ! (unat x div 16), ''0123456789ABCDEF'' ! (unat x mod 16), CHR '' '']"

function hex_loop :: "byte list \<Rightarrow> nat \<Rightarrow> nat \<Rightarrow> string \<Rightarrow> nat \<Rightarrow> (string \<times> nat) option" where
  "hex_loop data len i buffer pos =
     (if i < len \<and> pos < 2048 - 4 then do {
        x \<leftarrow> rd data i;
        (buffer, k) \<leftarrow> snprintf buffer pos (2048 - pos) (hex_cell x);
        let pos = pos + k;
        (buffer, pos) \<leftarrow>
          (if (i + 1) mod 16 = 0 then do {
             (buffer, k) \<leftarrow> snprintf buffer pos (2048 - pos) [CHR 0x0A];
             Some (buffer, pos + k) }
           else Some (buffer, pos));
        hex_loop data len (i + 1) buffer pos }
      else Some (buffer, pos))"
  by pat_completeness auto
termination by (relation "measure (\<lambda>(data, len, i, buffer, pos). len - i)") auto

declare hex_loop.simps [simp del]

definition log_hexdump ::
  "log_level \<Rightarrow> string ptr \<Rightarrow> byte list ptr \<Rightarrow> nat \<Rightarrow> string \<Rightarrow> log_state \<Rightarrow> log_state option" where
  "log_hexdump level label datap len junk st =
     (case datap of
        None \<Rightarrow> Some st
      | Some data \<Rightarrow>
          if level > current_log_level st \<or> len = 0 then Some st
          else do {
            (buffer, pos) \<leftarrow>
              (case label of
                 None \<Rightarrow> Some (junk, 0)
               | Some l \<Rightarrow> snprintf junk 0 2048 (''[HEX] '' @ l @ '': ''));
            (buffer, pos) \<leftarrow> hex_loop data len 0 buffer pos;
            print_buffer buffer st })"

section \<open>Texts in the buffer\<close>

text \<open>The buffer holds the text \<open>s\<close> as a string.\<close>

definition holds_text :: "string \<Rightarrow> string \<Rightarrow> bool" where
  "holds_text buf s \<longleftrightarrow> length buf = 2048 \<and> NUL \<notin> set s \<and> (\<exists>r. buf = s @ NUL # r)"

lemma holds_text_c_string: "holds_text buf s \<Longrightarrow> c_string buf = Some s"
  by (auto simp: holds_text_def c_string_def takeWhile_append)

lemma holds_text_length: "holds_text buf s \<Longrightarrow> length s < 2048"
  by (auto simp: holds_text_def)

lemma holds_text_print: "holds_text buf s \<Longrightarrow>
    print_buffer buf st = Some (st\<lparr>printed := printed st @ [(log_output_func st, s)]\<rparr>)"
  by (simp add: print_buffer_def holds_text_c_string)

text \<open>The first text of a buffer, and a text behind another one.\<close>

lemma snprintf_at:
  assumes "length buf = 2048" "buf = s @ r" "r \<noteq> []" "NUL \<notin> set s" "NUL \<notin> set t" "length t < 2 ^ 31"
  shows "\<exists>buf'. snprintf buf (length s) (2048 - length s) t = Some (buf', length t) \<and> holds_text buf' (take 2047 (s @ t))"
proof -
  have s: "length s < 2048" using assms(1-3) by (cases r) auto
  let ?t = "take (2047 - length s) t @ [NUL]"
  have "length s + length ?t \<le> length buf" using s assms(1) by simp
  then have "wr_bytes buf (length s) ?t = Some (s @ ?t @ drop (length s + length ?t) buf)"
    using assms(2) by (simp add: wr_bytes_def)
  moreover have "length (s @ ?t @ drop (length s + length ?t) buf) = 2048"
    using calculation assms(1) wr_bytes_length by metis
  moreover have "take 2047 (s @ t) = s @ take (2047 - length s) t" using s by simp
  moreover have "2048 - length s - 1 = 2047 - length s" by simp
  ultimately show ?thesis
    using s assms(4-6) by (auto simp: snprintf_def holds_text_def dest: in_set_takeD)
qed

lemma snprintf_first:
  assumes "length buf = 2048" "NUL \<notin> set t" "length t < 2 ^ 31"
  shows "\<exists>buf'. snprintf buf 0 2048 t = Some (buf', length t) \<and> holds_text buf' (take 2047 t)"
  using snprintf_at [of buf "[]" buf t] assms by (cases buf) auto

lemma snprintf_next:
  assumes "holds_text buf s" "NUL \<notin> set t" "length t < 2 ^ 31"
  shows "\<exists>buf'. snprintf buf (length s) (2048 - length s) t = Some (buf', length t) \<and> holds_text buf' (take 2047 (s @ t))"
  using snprintf_at [of buf s _ t] assms by (auto simp: holds_text_def)

lemma log_printf_text:
  assumes "length junk = 2048" "NUL \<notin> set prfx" "length prfx < 100" "NUL \<notin> set body" "length body < 2 ^ 31"
  shows "log_printf level prfx body junk st =
    Some (if level > current_log_level st then st
          else st\<lparr>printed := printed st @ [(log_output_func st, take 2047 (''['' @ prfx @ ''] '' @ body))]\<rparr>)"
proof -
  define s where "s = ''['' @ prfx @ ''] ''"
  have s: "length s < 2047" "NUL \<notin> set s" using assms(2,3) by (auto simp: s_def NUL_def)
  obtain b where b: "snprintf junk 0 2048 s = Some (b, length s)" "holds_text b s"
    using snprintf_first [OF assms(1) s(2)] s(1) by auto
  obtain b' where "snprintf b (length s) (2048 - length s) body = Some (b', length body)" "holds_text b' (take 2047 (s @ body))"
    using snprintf_next [OF b(2) assms(4,5)] by blast
  with b(1) have "log_printf level prfx body junk st =
    Some (if level > current_log_level st then st
          else st\<lparr>printed := printed st @ [(log_output_func st, take 2047 (s @ body))]\<rparr>)"
    unfolding log_printf_def s_def [symmetric] by (simp add: holds_text_print del: take_append)
  then show ?thesis by (simp add: s_def)
qed

section \<open>The hex dump\<close>

definition cell_text :: "byte list \<Rightarrow> nat \<Rightarrow> string" where
  "cell_text data i = hex_cell (data ! i) @ (if (i + 1) mod 16 = 0 then [CHR 0x0A] else [])"

definition dump_text :: "byte list \<Rightarrow> nat \<Rightarrow> nat \<Rightarrow> string" where
  "dump_text data i k = concat (map (cell_text data) [i..<k])"

lemma hex_digit_char: "n < 16 \<Longrightarrow> ''0123456789ABCDEF'' ! n \<noteq> NUL"
  by (auto simp: NUL_def less_Suc_eq numeral_eq_Suc)

lemma hex_cell_chars: "NUL \<notin> set (hex_cell x)" "length (hex_cell x) = 3"
proof -
  have "unat x div 16 < 16" using unsigned_less [of x, where 'a = nat] by (simp add: less_mult_imp_div_less)
  then show "NUL \<notin> set (hex_cell x)"
    using hex_digit_char [of "unat x div 16"] hex_digit_char [of "unat x mod 16"]
    by (auto simp: hex_cell_def NUL_def)
qed (simp add: hex_cell_def)

text \<open>The buffer starts with \<open>s\<close> and something follows.\<close>

definition room :: "string \<Rightarrow> string \<Rightarrow> bool" where
  "room buf s \<longleftrightarrow> length buf = 2048 \<and> NUL \<notin> set s \<and> (\<exists>r. r \<noteq> [] \<and> buf = s @ r)"

lemma holds_text_room: "holds_text buf s \<Longrightarrow> room buf s"
  by (auto simp: holds_text_def room_def)

lemma snprintf_room:
  assumes "room buf s" "NUL \<notin> set t" "length s + length t < 2048"
  shows "\<exists>buf'. snprintf buf (length s) (2048 - length s) t = Some (buf', length t) \<and> holds_text buf' (s @ t)"
  using snprintf_at [of buf s _ t] assms by (auto simp: room_def)

lemma hex_step:
  assumes "room buf s" "length s < 2044" "i < len" "i < length data"
  shows "\<exists>buf'. hex_loop data len i buf (length s) = hex_loop data len (i + 1) buf' (length (s @ cell_text data i)) \<and>
    holds_text buf' (s @ cell_text data i)"
proof -
  obtain b where b: "snprintf buf (length s) (2048 - length s) (hex_cell (data ! i)) = Some (b, 3)" "holds_text b (s @ hex_cell (data ! i))"
    using snprintf_room [OF assms(1) hex_cell_chars(1) [of "data ! i"]] assms(2) hex_cell_chars(2) [of "data ! i"] by auto
  obtain b' where b': "snprintf b (length s + 3) (2045 - length s) [CHR 0x0A] = Some (b', 1)"
      "holds_text b' (s @ hex_cell (data ! i) @ [CHR 0x0A])"
    using snprintf_room [OF holds_text_room [OF b(2)], of "[CHR 0x0A]"] assms(2) hex_cell_chars(2) [of "data ! i"]
    by (auto simp: NUL_def)
  have "hex_loop data len i buf (length s) =
    (if (i + 1) mod 16 = 0 then hex_loop data len (i + 1) b' (length s + 4) else hex_loop data len (i + 1) b (length s + 3))"
    using assms(2-4) b(1) b'(1) by (subst hex_loop.simps) (simp add: rd_in Let_def add.commute)
  with b(2) b'(2) show ?thesis
    by (cases "(i + 1) mod 16 = 0") (auto simp: cell_text_def hex_cell_chars(2) add.commute)
qed

lemma hex_loop_text:
  "room buf s \<Longrightarrow> i \<le> len \<Longrightarrow> len \<le> length data \<Longrightarrow> \<exists>buf' k. i \<le> k \<and> k \<le> len \<and>
    hex_loop data len i buf (length s) = Some (buf', length (s @ dump_text data i k)) \<and>
    (if k = i then buf' = buf else holds_text buf' (s @ dump_text data i k)) \<and>
    (k = len \<or> 2044 \<le> length (s @ dump_text data i k))"
proof (induction "len - i" arbitrary: i buf s)
  case 0
  then show ?case by (intro exI [of _ buf] exI [of _ len]) (simp add: hex_loop.simps dump_text_def)
next
  case (Suc n)
  show ?case
  proof (cases "length s < 2044")
    case False
    then show ?thesis
      by (intro exI [of _ buf] exI [of _ i]) (use Suc.prems in \<open>simp add: hex_loop.simps dump_text_def\<close>)
  next
    case True
    have i: "i < len" "i < length data" using Suc.hyps(2) Suc.prems(3) by simp_all
    obtain b where b: "hex_loop data len i buf (length s) = hex_loop data len (i + 1) b (length (s @ cell_text data i))"
      "holds_text b (s @ cell_text data i)"
      using hex_step [OF Suc.prems(1) True i] by blast
    have "n = len - (i + 1)" "i + 1 \<le> len" using Suc.hyps(2) by simp_all
    from Suc.hyps(1) [OF this(1) holds_text_room [OF b(2)] this(2) Suc.prems(3)]
    obtain b' k where k: "i + 1 \<le> k" "k \<le> len"
      "hex_loop data len (i + 1) b (length (s @ cell_text data i)) = Some (b', length ((s @ cell_text data i) @ dump_text data (i + 1) k))"
      "if k = i + 1 then b' = b else holds_text b' ((s @ cell_text data i) @ dump_text data (i + 1) k)"
      "k = len \<or> 2044 \<le> length ((s @ cell_text data i) @ dump_text data (i + 1) k)" by blast
    have "dump_text data i k = cell_text data i @ dump_text data (i + 1) k"
      using k(1) by (simp add: dump_text_def upt_conv_Cons)
    moreover have "holds_text b' ((s @ cell_text data i) @ dump_text data (i + 1) k)"
      using k(4) b(2) by (cases "k = i + 1") (simp_all add: dump_text_def)
    ultimately show ?thesis using b(1) k by (intro exI [of _ b'] exI [of _ k]) auto
  qed
qed

lemma dump_text_prefix: "k \<le> n \<Longrightarrow> prefix (dump_text data 0 k) (dump_text data 0 n)"
  using upt_add_eq_append [of 0 k "n - k"] by (auto simp: dump_text_def prefix_def)

text \<open>The prefix of the dump in a fresh buffer: the label, or nothing.\<close>

definition hexdump_start :: "string ptr \<Rightarrow> string \<Rightarrow> (string \<times> nat) option" where
  "hexdump_start label junk =
     (case label of None \<Rightarrow> Some (junk, 0) | Some l \<Rightarrow> snprintf junk 0 2048 (''[HEX] '' @ l @ '': ''))"

lemma log_hexdump_start:
  assumes "\<not> current_log_level st < level" "len \<noteq> 0"
  shows "log_hexdump level label (Some data) len junk st = do {
      (buffer, pos) \<leftarrow> hexdump_start label junk; (buffer, pos) \<leftarrow> hex_loop data len 0 buffer pos; print_buffer buffer st }"
  using assms unfolding log_hexdump_def hexdump_start_def by simp

lemma hexdump_head:
  assumes "length junk = 2048" "NUL \<notin> set l" "length l < 2 ^ 30"
    and "label = Some l \<and> head = ''[HEX] '' @ l @ '': '' \<or> label = NULL \<and> head = []"
  shows "\<exists>b. hexdump_start label junk = Some (b, length head) \<and> (length head < 2048 \<longrightarrow> room b head) \<and>
    (head \<noteq> [] \<longrightarrow> holds_text b (take 2047 head))"
proof (cases label)
  case None
  with assms show ?thesis by (cases junk) (auto simp: hexdump_start_def room_def)
next
  case (Some x)
  then have e: "''[HEX] '' @ x @ '': '' = head" using assms(4) by auto
  have "NUL \<notin> set head" "length head < 2 ^ 31" using assms(2-4) by (auto simp: NUL_def)
  with snprintf_first [OF assms(1)] obtain b where
    b: "snprintf junk 0 2048 head = Some (b, length head)" "holds_text b (take 2047 head)" by blast
  from b(1) have "hexdump_start label junk = Some (b, length head)" unfolding hexdump_start_def Some option.case e .
  moreover have "room b head" if "length head < 2048" using holds_text_room [OF b(2)] that by simp
  ultimately show ?thesis using b(2) by blast
qed

text \<open>The cells behind a label that fits, and a label that fills the buffer.\<close>

lemma hexdump_cells:
  assumes "length head < 2048" "room b head" "head \<noteq> [] \<longrightarrow> holds_text b (take 2047 head)" "0 < len" "len \<le> length data"
  shows "\<exists>b' m n. hex_loop data len 0 b (length head) = Some (b', n) \<and> holds_text b' m \<and> length m \<le> 2047 \<and>
    prefix m (head @ dump_text data 0 len) \<and> (m = head @ dump_text data 0 len \<or> 2044 \<le> length m)"
proof -
  obtain b' k where k: "k \<le> len" "hex_loop data len 0 b (length head) = Some (b', length (head @ dump_text data 0 k))"
    "if k = 0 then b' = b else holds_text b' (head @ dump_text data 0 k)"
    "k = len \<or> 2044 \<le> length (head @ dump_text data 0 k)"
    using hex_loop_text [OF assms(2) le0 assms(5)] by blast
  have "head \<noteq> []" if "k = 0" using k(4) that assms(4) by (auto simp: dump_text_def)
  with assms(1,3) k(3) have t: "holds_text b' (head @ dump_text data 0 k)" by (cases "k = 0") (auto simp: dump_text_def)
  then have "length (head @ dump_text data 0 k) \<le> 2047" using holds_text_length by fastforce
  with k(2,4) t dump_text_prefix [OF k(1)] show ?thesis
    by (intro exI [of _ b'] exI [of _ "head @ dump_text data 0 k"] exI [of _ "length (head @ dump_text data 0 k)"]) auto
qed

lemma hexdump_full:
  assumes "2048 \<le> length head" "head \<noteq> [] \<longrightarrow> holds_text b (take 2047 head)"
  shows "\<exists>b' m n. hex_loop data len 0 b (length head) = Some (b', n) \<and> holds_text b' m \<and> length m \<le> 2047 \<and>
    prefix m (head @ dump_text data 0 len) \<and> (m = head @ dump_text data 0 len \<or> 2044 \<le> length m)"
proof -
  have "hex_loop data len 0 b (length head) = Some (b, length head)" using assms(1) by (subst hex_loop.simps) simp
  moreover have "holds_text b (take 2047 head)" using assms by auto
  ultimately show ?thesis
    using assms(1) by (intro exI [of _ b] exI [of _ "take 2047 head"] exI [of _ "length head"])
      (auto intro: prefix_order.trans [OF take_is_prefix])
qed

lemma log_hexdump_text:
  assumes "length junk = 2048" "len \<le> length data" "NUL \<notin> set l" "length l < 2 ^ 30"
    and "label = Some l \<and> head = ''[HEX] '' @ l @ '': '' \<or> label = NULL \<and> head = []"
  shows "\<exists>m. log_hexdump level label (Some data) len junk st =
      Some (if current_log_level st < level \<or> len = 0 then st
            else st\<lparr>printed := printed st @ [(log_output_func st, m)]\<rparr>) \<and>
    length m \<le> 2047 \<and> prefix m (head @ dump_text data 0 len) \<and> (m = head @ dump_text data 0 len \<or> 2044 \<le> length m)"
proof (cases "current_log_level st < level \<or> len = 0")
  case True
  then show ?thesis
    by (intro exI [of _ "take 2047 (head @ dump_text data 0 len)"])
       (simp add: log_hexdump_def take_is_prefix min_def del: take_append)
next
  case False
  from hexdump_head [OF assms(1,3-5)] obtain b where b: "hexdump_start label junk = Some (b, length head)"
    "length head < 2048 \<longrightarrow> room b head" "head \<noteq> [] \<longrightarrow> holds_text b (take 2047 head)" by blast
  obtain b' m n where m: "hex_loop data len 0 b (length head) = Some (b', n)" "holds_text b' m" "length m \<le> 2047"
    "prefix m (head @ dump_text data 0 len)" "m = head @ dump_text data 0 len \<or> 2044 \<le> length m"
    using hexdump_cells [OF _ _ b(3) _ assms(2)] hexdump_full [OF _ b(3), of data len] b(2) False
    by (cases "length head < 2048") (auto simp: not_less)
  with False b(1) show ?thesis
    by (intro exI [of _ m]) (simp add: log_hexdump_start holds_text_print)
qed

section \<open>Properties\<close>

text \<open>
  C40. The hex dump never leaves its buffer and prints at most once, whatever the length of the data, for no label or one shorter than
  2 to the 30 (its length goes through an \<open>int\<close>): nothing at a level above the current one, for the length 0 or for NULL data, and else one string of at most 2047 characters, which is a prefix of the label and all the cells (each byte as two digits
  and a blank, a line break after every sixteenth) and is that whole text, or at least its first 2044 characters.
\<close>

theorem log_hexdump_bounded:
  assumes "length junk = 2048" "len \<le> length data" "NUL \<notin> set l" "length l < 2 ^ 30"
    and "label = Some l \<and> head = ''[HEX] '' @ l @ '': '' \<or> label = NULL \<and> head = []"
  shows "log_hexdump level label NULL len junk st = Some st \<and>
    (\<exists>m. log_hexdump level label (Some data) len junk st =
      Some (if current_log_level st < level \<or> len = 0 then st
            else st\<lparr>printed := printed st @ [(log_output_func st, m)]\<rparr>) \<and>
    length m \<le> 2047 \<and> prefix m (head @ dump_text data 0 len) \<and> (m = head @ dump_text data 0 len \<or> 2044 \<le> length m))"
  by (rule conjI [OF _ log_hexdump_text [OF assms]]) (simp add: log_hexdump_def)

lemma log_hexdump_bounded_witness:
  "\<exists>m. log_hexdump LOG_LEVEL_ERROR (Some ''key'') (Some [0x1F, 0xA0]) 2 (replicate 2048 CHR ''?'') log_start =
      Some (log_start\<lparr>printed := [(NULL, m)]\<rparr>) \<and> prefix m ''[HEX] key: 1F A0 ''"
proof -
  have "''[HEX] '' @ ''key'' @ '': '' @ dump_text [0x1F, 0xA0] 0 2 = ''[HEX] key: 1F A0 ''"
    by (simp add: dump_text_def cell_text_def hex_cell_def upt_rec)
  with log_hexdump_bounded [of "replicate 2048 CHR ''?''" 2 "[0x1F, 0xA0]" "''key''" "Some ''key''" "''[HEX] '' @ ''key'' @ '': ''"
      LOG_LEVEL_ERROR log_start]
  show ?thesis by (auto simp: NUL_def log_start_def less_log_level_def)
qed

end
