(* ===== verification/Spec2Isabelle.thy ===== *)
theory Spec2Isabelle
  imports Axon_Bytes Axon_ConstTime Axon_Pool Axon_System Axon_Listener Axon_Stream Axon_Tests Axon_Cpp Axon_Chacha Axon_Asn1Depth
    Axon_X509 Axon_Log
begin

text \<open>
  Verification of the Axon TLS engine, a server-side TLS 1.3 handshake in C.

  \<^bold>\<open>The program.\<close> An application creates an engine (\<open>core/source/main.c\<close>) and hands it a ClientHello record. The
  engine parses the record (\<open>record.c\<close>) and the hello (\<open>handshake.c\<close>), runs the state machine (\<open>state.c\<close>), builds the five messages of
  the server's flight over the connection's context and transcript (\<open>context.c\<close>), and derives keys. Below it
  are the primitives of \<open>crypto/\<close>, the allocator and pool of \<open>memory/\<close>, and the helpers of \<open>utils/\<close>. The certificate
  parser of \<open>parser/\<close> and ChaCha20-Poly1305 are part of the library, but the engine does not call them. The C++ classes of \<open>bindings/cpp\<close> do not call the library at all: they are a second implementation of
  its interface.

  \<^bold>\<open>Theories and sources.\<close>
  \<^item> \<open>Axon_Prelude\<close>: C types as words, pointers as options, checked array accesses, the counting loop.
  \<^item> \<open>Axon_Bytes\<close> (\<open>utils/source/bytes.c\<close>), \<open>Axon_ConstTime\<close> (\<open>crypto/source/constant.c\<close>), \<open>Axon_Log\<close> (\<open>utils/source/log.c\<close>).
  \<^item> \<open>Axon_Secure\<close> (\<open>memory/source/secure.c\<close>): the heap as a map from addresses to bytes, with an oracle for the requests
    that the system refuses; \<open>Axon_Pool\<close> (\<open>memory/source/pool.c\<close>) on top of it.
  \<^item> \<open>Axon_Sha256\<close>, \<open>Axon_Hkdf\<close>, \<open>Axon_AesGcm\<close>, \<open>Axon_X25519\<close>, \<open>Axon_Chacha\<close>: the files of these names in \<open>crypto/source\<close>.
  \<^item> \<open>Axon_Asn1\<close> (\<open>parser/source/asn1.c\<close>) and \<open>Axon_X509\<close> (\<open>parser/source/x509.c\<close>).
  \<^item> \<open>Axon_State\<close>, \<open>Axon_Context\<close>, \<open>Axon_Record\<close>, \<open>Axon_Handshake\<close>, \<open>Axon_Engine\<close>: the files of \<open>core/source\<close> (the engine is
    \<open>main.c\<close>).
  \<^item> \<open>Axon_Cpp\<close>: \<open>engine.cpp\<close>, \<open>handshake.cpp\<close> and \<open>state.cpp\<close> of \<open>bindings/cpp/src\<close>. \<open>Axon_Tests\<close>: the programs of \<open>tests/c\<close>.
  \<^item> Without a source of their own: \<open>Axon_Cipher\<close> (the interfaces of ciphers), \<open>Axon_Invariant\<close> (what every call of the engine keeps),
    \<open>Axon_System\<close> (a client that calls the engine in any order), \<open>Axon_Listener\<close> (what a party computes that only sees the bytes of a handshake),
    \<open>Axon_Stream\<close> (a sender and a receiver of many records), and \<open>Axon_Asn1Depth\<close> (how deep the recursion of \<open>asn1_free\<close> nests).

  A struct is a record, an enum a datatype, a function of the code a definition of the same name that takes
  what it reads and returns what it writes. A result of option type is None when the code would access memory outside an array, use a
  freed block or otherwise leave C's defined behaviour, so a theorem that a function returns \<open>Some\<close> also says that it
  is memory-safe on that input. A status is 0 or -1 as in the code.

  \<^bold>\<open>Interfaces.\<close> \<open>block_store\<close> (an allocator; interpreted by \<open>secure.c\<close> and used by the pool, the records, the engine and
  the parsers), \<open>slot_store\<close> (a store of numbered slots; the pool), \<open>bounded_log\<close> (an append-only log that drops what does not fit; the transcript),
  \<open>digest\<close> (a hash that may be undefined for some lengths; SHA-256, used by HKDF and Finished), \<open>keystream_cipher\<close> (AES-GCM and ChaCha20), \<open>aead\<close>
  (AES-GCM, used by the record layer), \<open>scripted_machine\<close> (a protocol machine that completes along one script; the machines of the C and of the C++ code), and
  \<open>log_invariant\<close> and its extension \<open>context_invariant\<close> (a predicate that survives the growth of the transcript, and then the messages of the server; one that also
  survives the parser and the key exchange, and then a whole handshake; the types, the zero keys of reachable engines, and the inputs of the key derivation).

  \<^bold>\<open>Invariants.\<close> \<open>context_ok\<close> and \<open>engine_ok\<close> state the lengths of the arrays in a context and an engine. \<open>heap_ok\<close> says that addresses are handed out
  once, that the live blocks are locked, and that every block was wiped (\<open>wiped\<close>) before it was given back. The engine's own block holds the
  bytes of its struct (\<open>engine_bytes\<close>: the fields in their order and the padding between them, little-endian, as on the amd64 platform of the package), which every call writes back, so that what is wiped at the
  end, and how far, can be seen.

  \<^bold>\<open>What the lemmas show.\<close>
  \<^item> The system: every call keeps the types, an invariant of all reachable worlds, that application data never flows, and that from every one of them
    two calls carry the handshake to its last state; the project's handshake test fails on every run.
  \<^item> The listener: the keys of a successful handshake whose key share is taken, or that is the first, are a function of its bytes, and a Finished gives away the secret behind it.
  \<^item> The engine: the answer to a hello in the accepted layout, byte by byte, and the rejection of every conforming one.
  \<^item> The handshake: what is parsed, the messages that are built, and when Finished verifies.
  \<^item> Records: when a record is accepted, round trips of framing and of protection, and what a shifted counter does; a list
    of messages is delivered over one stream of records, once, and a replay of it is rejected.
  \<^item> Primitives: SHA-256 equals the function of FIPS 180-4, whose constants are defined by the roots of the first primes, for the lengths for which its padding stays in its array; HKDF is a chain of hashes; AES-GCM
    verifies and inverts itself but reveals its key; ChaCha20 is the RFC's up to the order of bytes; the limbs
    of Poly1305 and of X25519 do not overflow for reduced operands and multiply in their fields; and where each of them goes wrong.
  \<^item> ASN.1: the parser is total and memory-safe, gives back all memory, and inverts a DER encoder at any nesting; the recursion of \<open>asn1_free\<close> nests as deep as the input says. X.509: the same safety, and
    which fields a certificate's parse yields.
  \<^item> The C++ classes: they return what they are given to protect, and no sequence of messages completes both their state machine and the one in C.
  \<^item> Memory: allocation and release over the heap; the pool refines a set of numbered slots.

  \<^bold>\<open>Recursion and fuel.\<close> Loops are recursion with a proved measure, or the counting loop of the prelude. Only the ASN.1 parser
  has fuel: its recursion and its loop over children share it, each call uses one unit, and each element takes at least two bytes, so \<open>len + 1\<close> units,
  which \<open>asn1_parse\<close> supplies, are enough for every input (\<open>parser_total\<close>).

  \<^bold>\<open>Parameters.\<close> The random device is a list of the chunks that its reads return. The refusals of \<open>malloc\<close> are a predicate on
  the number of the call. The contents of uninitialised stack arrays are arguments where they could be seen, and so is the text that \<open>vsnprintf\<close> produces from a format.

  \<^bold>\<open>Not modelled.\<close> Timing, and whether the compiler keeps the wiping loops. The size of the C stack: the recursion of the ASN.1 code always has room for it (\<open>free_nested\<close>, which counts the open calls of \<open>asn1_free\<close>, is
  equal to it from half the length of the input and one more). Arguments that overlap in memory. The results of \<open>mlock\<close>, which the code ignores, and
  that it works on whole pages. The bindings in languages other than C++, which are separate programs, the build files, and the copies of the headers made for packaging.
\<close>

end
